(* ===== verification/Config_Prelude.thy ===== *)
theory Config_Prelude
  imports Main "HOL-Library.Word" "HOL-Library.Char_ord" "HOL-Library.List_Lexorder"
begin

text \<open>
  The prelude of the development: the collections of hints, the result type of
  code that can throw and the loops over containers, the ordered map that stands for
  \<open>std::map\<close>, and decimal numerals.

  A C++ exception is a value: every fallible function returns \<open>error + 'a\<close>, with
  \<open>Inl\<close> for the exception. \<open>rbind\<close> sequences two such computations, \<open>map_res\<close> is
  a range-based \<open>for\<close> loop that rewrites the elements of a list in order and stops
  at the first exception, \<open>map_chg\<close> is the same loop with the counter
  \<open>m_changes\<close> of the phase two passes, \<open>on_value\<close> applies the loop body to the
  value of a map entry. The congruence rules tell the function package that the loop
  bodies are applied to the elements only.
\<close>

named_theorems res_simps "simplification of results and loops"
named_theorems omap_simps "simplification of ordered maps"

section \<open>Results\<close>

fun rbind :: "'e + 'a \<Rightarrow> ('a \<Rightarrow> 'e + 'b) \<Rightarrow> 'e + 'b" where
  "rbind (Inl e) f = Inl e"
| "rbind (Inr a) f = f a"

lemma rbind_cong [fundef_cong]:
  "m = m' \<Longrightarrow> (\<And>x. m' = Inr x \<Longrightarrow> f x = g x) \<Longrightarrow> rbind m f = rbind m' g"
  by (cases m') auto

lemma rbind_Inr_iff [res_simps]: "rbind m f = Inr b \<longleftrightarrow> (\<exists>a. m = Inr a \<and> f a = Inr b)"
  by (cases m) auto

lemma rbind_Inl_iff:
  "rbind m f = Inl e \<longleftrightarrow> m = Inl e \<or> (\<exists>a. m = Inr a \<and> f a = Inl e)"
  by (cases m) auto

lemma rbind_InlE:
  assumes "rbind m f = Inl e"
  obtains "m = Inl e" | a where "m = Inr a" "f a = Inl e"
  using assms by (cases m) auto

lemma rbind_Inr_right [simp]: "rbind m Inr = m"
  by (cases m) auto

lemma rbind_assoc: "rbind (rbind m f) g = rbind m (\<lambda>x. rbind (f x) g)"
  by (cases m) auto

definition is_ok :: "'e + 'a \<Rightarrow> bool" where
  "is_ok r = (case r of Inl _ \<Rightarrow> False | Inr _ \<Rightarrow> True)"

lemma is_ok_simps [simp]: "is_ok (Inr a)" "\<not> is_ok (Inl e)"
  by (simp_all add: is_ok_def)

lemma is_ok_iff: "is_ok r \<longleftrightarrow> (\<exists>a. r = Inr a)"
  by (cases r) auto

lemma not_ok_iff: "\<not> is_ok r \<longleftrightarrow> (\<exists>e. r = Inl e)"
  by (cases r) auto

lemma is_ok_rbind: "is_ok (rbind m f) \<longleftrightarrow> (\<exists>a. m = Inr a \<and> is_ok (f a))"
  by (cases m) auto

lemma is_ok_rbind_pure [simp]: "is_ok (rbind m (\<lambda>x. Inr (f x))) \<longleftrightarrow> is_ok m"
  by (cases m) auto

section \<open>Loops over containers\<close>

fun map_res :: "('a \<Rightarrow> 'e + 'b) \<Rightarrow> 'a list \<Rightarrow> 'e + 'b list" where
  "map_res f [] = Inr []"
| "map_res f (x # xs) = rbind (f x) (\<lambda>y. rbind (map_res f xs) (\<lambda>ys. Inr (y # ys)))"

lemma map_res_cong [fundef_cong]:
  "xs = ys \<Longrightarrow> (\<And>x. x \<in> set ys \<Longrightarrow> f x = g x) \<Longrightarrow> map_res f xs = map_res g ys"
  by (induction xs arbitrary: ys) auto

lemma map_res_Inr_iff: "map_res f xs = Inr ys \<longleftrightarrow> list_all2 (\<lambda>x y. f x = Inr y) xs ys"
  by (induction xs arbitrary: ys) (auto simp: res_simps list_all2_Cons1)

lemma map_res_in: "map_res f xs = Inr ys \<Longrightarrow> y \<in> set ys \<Longrightarrow> \<exists>x \<in> set xs. f x = Inr y"
  by (induction xs arbitrary: ys) (auto simp: res_simps)

lemma map_res_ok: "is_ok (map_res f xs) \<longleftrightarrow> (\<forall>x \<in> set xs. is_ok (f x))"
proof (induction xs)
  case (Cons x xs)
  then show ?case
    by (cases "f x"; cases "map_res f xs") (simp_all add: is_ok_rbind)
qed simp

lemma map_res_pure: "(\<And>x. x \<in> set xs \<Longrightarrow> f x = Inr (g x)) \<Longrightarrow> map_res f xs = Inr (map g xs)"
  by (induction xs) auto

fun map_chg :: "('a \<Rightarrow> 'e + ('b \<times> nat)) \<Rightarrow> 'a list \<Rightarrow> 'e + ('b list \<times> nat)" where
  "map_chg f [] = Inr ([], 0)"
| "map_chg f (x # xs) =
     rbind (f x) (\<lambda>(y, m). rbind (map_chg f xs) (\<lambda>(ys, n). Inr (y # ys, m + n)))"

lemma map_chg_cong [fundef_cong]:
  "xs = ys \<Longrightarrow> (\<And>x. x \<in> set ys \<Longrightarrow> f x = g x) \<Longrightarrow> map_chg f xs = map_chg g ys"
  by (induction xs arbitrary: ys) auto

lemma map_chg_Cons_Inr [res_simps]:
  "map_chg f (x # xs) = Inr (zs, n) \<longleftrightarrow>
     (\<exists>y m ys k. f x = Inr (y, m) \<and> map_chg f xs = Inr (ys, k) \<and> zs = y # ys \<and> n = m + k)"
  by (auto simp: res_simps split: prod.splits)

lemma map_chg_list_all2:
  "map_chg f xs = Inr (ys, n) \<Longrightarrow> list_all2 (\<lambda>x y. \<exists>m \<le> n. f x = Inr (y, m)) xs ys"
proof (induction xs arbitrary: ys n)
  case Nil
  then show ?case by simp
next
  case (Cons x xs)
  then obtain y m ys' k where *: "f x = Inr (y, m)" "map_chg f xs = Inr (ys', k)"
    "ys = y # ys'" "n = m + k"
    by (auto simp: res_simps)
  have "list_all2 (\<lambda>x y. \<exists>m \<le> n. f x = Inr (y, m)) xs ys'"
    by (rule list_all2_mono [OF Cons.IH [OF *(2)]]) (use * in \<open>auto intro: trans_le_add2\<close>)
  with * show ?case by auto
qed

lemma map_chg_in:
  "map_chg f xs = Inr (ys, n) \<Longrightarrow> y \<in> set ys \<Longrightarrow> \<exists>x \<in> set xs. \<exists>m \<le> n. f x = Inr (y, m)"
  by (induction xs arbitrary: ys n) (fastforce simp: res_simps)+

lemma map_chg_length: "map_chg f xs = Inr (ys, n) \<Longrightarrow> length ys = length xs"
  by (drule map_chg_list_all2) (simp add: list_all2_lengthD)

lemma map_chg_sum:
  assumes "map_chg f xs = Inr (ys, n)"
    and "\<And>x y m. x \<in> set xs \<Longrightarrow> f x = Inr (y, m) \<Longrightarrow> w y + m * d \<le> w x"
  shows "sum_list (map w ys) + n * d \<le> (sum_list (map w xs) :: nat)"
  using assms
proof (induction xs arbitrary: ys n)
  case Nil
  then show ?case by simp
next
  case (Cons x xs)
  then obtain y m ys' k where *: "f x = Inr (y, m)" "map_chg f xs = Inr (ys', k)"
    "ys = y # ys'" "n = m + k"
    by (auto simp: res_simps)
  have "w y + m * d \<le> w x" using Cons.prems(2) * by auto
  moreover have "sum_list (map w ys') + k * d \<le> sum_list (map w xs)"
    using Cons.IH [OF *(2)] Cons.prems(2) by auto
  ultimately show ?case using * by (simp add: add_mult_distrib)
qed

lemma map_chg_sum_eq:
  assumes "map_chg f xs = Inr (ys, n)"
    and "\<And>x y m. x \<in> set xs \<Longrightarrow> f x = Inr (y, m) \<Longrightarrow> w y + m = w x"
  shows "sum_list (map w ys) + n = (sum_list (map w xs) :: nat)"
  using assms
proof (induction xs arbitrary: ys n)
  case Nil
  then show ?case by simp
next
  case (Cons x xs)
  then obtain y m ys' k where *: "f x = Inr (y, m)" "map_chg f xs = Inr (ys', k)"
    "ys = y # ys'" "n = m + k"
    by (auto simp: res_simps)
  have "w y + m = w x" using Cons.prems(2) * by auto
  moreover have "sum_list (map w ys') + k = sum_list (map w xs)"
    using Cons.IH [OF *(2)] Cons.prems(2) by auto
  ultimately show ?case using * by simp
qed

lemma map_chg_zero:
  assumes "map_chg f xs = Inr (ys, 0)"
    and "\<And>x y. x \<in> set xs \<Longrightarrow> f x = Inr (y, 0) \<Longrightarrow> y = x"
  shows "ys = xs"
  using assms by (induction xs arbitrary: ys) (auto simp: res_simps)

lemma map_chg_zero_each:
  assumes "map_chg f xs = Inr (ys, 0)" "x \<in> set xs"
  obtains y where "f x = Inr (y, 0)"
  using assms by (induction xs arbitrary: ys thesis) (auto simp: res_simps)

text \<open>The same loops with the index of the element, or with the key of the entry.\<close>

fun map_res_idx :: "(nat \<Rightarrow> 'a \<Rightarrow> 'e + 'b) \<Rightarrow> nat \<Rightarrow> 'a list \<Rightarrow> 'e + 'b list" where
  "map_res_idx f i [] = Inr []"
| "map_res_idx f i (x # xs) =
     rbind (f i x) (\<lambda>y. rbind (map_res_idx f (Suc i) xs) (\<lambda>ys. Inr (y # ys)))"

lemma map_res_idx_cong [fundef_cong]:
  "i = j \<Longrightarrow> xs = ys \<Longrightarrow> (\<And>k x. x \<in> set ys \<Longrightarrow> f k x = g k x) \<Longrightarrow>
     map_res_idx f i xs = map_res_idx g j ys"
  by (induction xs arbitrary: i j ys) auto

lemma map_res_idx_Inr_iff:
  "map_res_idx f i xs = Inr ys \<longleftrightarrow>
     length ys = length xs \<and> (\<forall>j < length xs. f (i + j) (xs ! j) = Inr (ys ! j))"
proof (induction xs arbitrary: i ys)
  case (Cons x xs)
  show ?case
  proof (cases ys)
    case (Cons y zs)
    then show ?thesis using Cons.IH [of "Suc i" zs]
      by (auto simp: res_simps less_Suc_eq_0_disj)
  qed (auto simp: res_simps)
qed auto

lemma map_res_idx_ok:
  "is_ok (map_res_idx f i xs) \<longleftrightarrow> (\<forall>j < length xs. is_ok (f (i + j) (xs ! j)))"
proof (induction xs arbitrary: i)
  case (Cons x xs)
  have "is_ok (map_res_idx f i (x # xs)) \<longleftrightarrow> is_ok (f i x) \<and> is_ok (map_res_idx f (Suc i) xs)"
    by (cases "f i x"; cases "map_res_idx f (Suc i) xs") auto
  then show ?case by (auto simp: Cons.IH less_Suc_eq_0_disj)
qed auto

definition on_member :: "('k \<Rightarrow> 'v \<Rightarrow> 'e + 'w) \<Rightarrow> 'k \<times> 'v \<Rightarrow> 'e + ('k \<times> 'w)" where
  "on_member f p = rbind (f (fst p) (snd p)) (\<lambda>w. Inr (fst p, w))"

lemma on_member_cong [fundef_cong]:
  "p = q \<Longrightarrow> (\<And>k v. q = (k, v) \<Longrightarrow> f k v = g k v) \<Longrightarrow> on_member f p = on_member g q"
  by (cases q) (auto simp: on_member_def)

lemma on_member_Inr_iff [res_simps]:
  "on_member f p = Inr q \<longleftrightarrow> fst q = fst p \<and> f (fst p) (snd p) = Inr (snd q)"
  by (cases p; cases q) (auto simp: on_member_def res_simps)

text \<open>The body of a loop over the entries of a map sees a reference to the value.\<close>

definition on_value :: "('v \<Rightarrow> 'e + 'w) \<Rightarrow> 'k \<times> 'v \<Rightarrow> 'e + ('k \<times> 'w)" where
  "on_value f p = rbind (f (snd p)) (\<lambda>w. Inr (fst p, w))"

lemma on_value_cong [fundef_cong]:
  "p = q \<Longrightarrow> (\<And>k v. q = (k, v) \<Longrightarrow> f v = g v) \<Longrightarrow> on_value f p = on_value g q"
  by (cases q) (auto simp: on_value_def)

lemma on_value_Inr_iff [res_simps]:
  "on_value f p = Inr q \<longleftrightarrow> fst q = fst p \<and> f (snd p) = Inr (snd q)"
  by (cases p; cases q) (auto simp: on_value_def res_simps)

definition on_value_chg :: "('v \<Rightarrow> 'e + ('w \<times> nat)) \<Rightarrow> 'k \<times> 'v \<Rightarrow> 'e + (('k \<times> 'w) \<times> nat)" where
  "on_value_chg f p = rbind (f (snd p)) (\<lambda>(w, n). Inr ((fst p, w), n))"

lemma on_value_chg_cong [fundef_cong]:
  "p = q \<Longrightarrow> (\<And>k v. q = (k, v) \<Longrightarrow> f v = g v) \<Longrightarrow> on_value_chg f p = on_value_chg g q"
  by (cases q) (auto simp: on_value_chg_def)

lemma on_value_chg_Inr_iff [res_simps]:
  "on_value_chg f p = Inr (q, n) \<longleftrightarrow> fst q = fst p \<and> f (snd p) = Inr (snd q, n)"
  by (cases p; cases q) (auto simp: on_value_chg_def res_simps split: prod.splits)

lemma map_chg_on_value_keys:
  "map_chg (on_value_chg f) ms = Inr (ns, n) \<Longrightarrow> map fst ns = map fst ms"
  by (induction ms arbitrary: ns n) (auto simp: res_simps)

lemma map_chg_on_value_in:
  "map_chg (on_value_chg f) ms = Inr (ns, n) \<Longrightarrow> (k, d) \<in> set ns \<Longrightarrow>
     \<exists>c m. (k, c) \<in> set ms \<and> f c = Inr (d, m) \<and> m \<le> n"
  by (induction ms arbitrary: ns n) (fastforce simp: res_simps)+

lemma map_res_on_value_keys:
  "map_res (on_value f) ms = Inr ns \<Longrightarrow> map fst ns = map fst ms"
  by (induction ms arbitrary: ns) (auto simp: res_simps)

text \<open>A sequence of fallible actions on a state.\<close>

fun fold_res :: "('a \<Rightarrow> 's \<Rightarrow> 'e + 's) \<Rightarrow> 'a list \<Rightarrow> 's \<Rightarrow> 'e + 's" where
  "fold_res f [] s = Inr s"
| "fold_res f (x # xs) s = rbind (f x s) (fold_res f xs)"

lemma fold_res_cong [fundef_cong]:
  "xs = ys \<Longrightarrow> s = t \<Longrightarrow> (\<And>x u. x \<in> set ys \<Longrightarrow> f x u = g x u) \<Longrightarrow>
     fold_res f xs s = fold_res g ys t"
proof (induction xs arbitrary: ys s t)
  case (Cons x xs)
  then have "rbind (g x t) (fold_res f xs) = rbind (g x t) (fold_res g xs)"
    by (intro rbind_cong) auto
  with Cons.prems show ?case by auto
qed simp

lemma fold_res_Nil [simp]: "fold_res f [] = Inr"
  by (simp add: fun_eq_iff)

lemma fold_res_append [simp]:
  "fold_res f (xs @ ys) s = rbind (fold_res f xs s) (fold_res f ys)"
proof (induction xs arbitrary: s)
  case (Cons x xs)
  then show ?case by (cases "f x s") simp_all
qed simp

lemma fold_res_invariant:
  "fold_res f xs s = Inr t \<Longrightarrow> P s \<Longrightarrow>
     (\<And>x u v. x \<in> set xs \<Longrightarrow> P u \<Longrightarrow> f x u = Inr v \<Longrightarrow> P v) \<Longrightarrow> P t"
  by (induction xs arbitrary: s) (auto simp: res_simps)

section \<open>Decimal numerals\<close>

text \<open>
  \<open>std::to_string\<close> on unsigned integers and \<open>std::stoul\<close> on a string of digits.
\<close>

definition digit_char :: "nat \<Rightarrow> char" where
  "digit_char d = char_of (48 + d)"

text \<open>PEGTL's character ranges.\<close>

definition in_range :: "char \<Rightarrow> char \<Rightarrow> char \<Rightarrow> bool" where
  [simp]: "in_range lo hi c \<longleftrightarrow> lo \<le> c \<and> c \<le> hi"

definition is_digit :: "char \<Rightarrow> bool" where
  "is_digit = in_range (CHR ''0'') (CHR ''9'')"

definition digit_value :: "char \<Rightarrow> nat" where
  "digit_value c = of_char c - 48"

fun nat_to_string :: "nat \<Rightarrow> string" where
  "nat_to_string n =
     (if n < 10 then [digit_char n] else nat_to_string (n div 10) @ [digit_char (n mod 10)])"

declare nat_to_string.simps [simp del]

definition stoul :: "string \<Rightarrow> nat" where
  "stoul s = foldl (\<lambda>n c. 10 * n + digit_value c) 0 s"

lemma is_digit_iff: "is_digit c \<longleftrightarrow> (\<exists>d < 10. c = digit_char d)"
proof
  assume "is_digit c"
  then have "48 \<le> (of_char c :: nat)" "(of_char c :: nat) \<le> 57"
    by (simp_all add: is_digit_def less_eq_char_def)
  then show "\<exists>d < 10. c = digit_char d"
    by (intro exI [of _ "of_char c - 48"]) (simp add: digit_char_def)
next
  assume "\<exists>d < 10. c = digit_char d"
  then show "is_digit c"
    by (auto simp: is_digit_def digit_char_def less_eq_char_def)
qed

lemma digit_value_char [simp]: "d < 10 \<Longrightarrow> digit_value (digit_char d) = d"
  by (simp add: digit_value_def digit_char_def)

lemma is_digit_char [simp]: "d < 10 \<Longrightarrow> is_digit (digit_char d)"
  by (auto simp: is_digit_iff)

lemma nat_to_string_digits: "list_all is_digit (nat_to_string n)"
  by (induction n rule: nat_to_string.induct) (subst nat_to_string.simps, simp)

lemma nat_to_string_nonempty [simp]: "nat_to_string n \<noteq> []"
  by (subst nat_to_string.simps) simp

lemma stoul_snoc: "stoul (s @ [c]) = 10 * stoul s + digit_value c"
  by (simp add: stoul_def)

lemma stoul_nat_to_string [simp]: "stoul (nat_to_string n) = n"
proof (induction n rule: nat_to_string.induct)
  case (1 n)
  show ?case
  proof (cases "n < 10")
    case True
    then show ?thesis by (subst nat_to_string.simps) (simp add: stoul_def)
  next
    case False
    with 1 show ?thesis by (subst nat_to_string.simps) (simp add: stoul_snoc)
  qed
qed

lemma stoul_bound: "list_all is_digit s \<Longrightarrow> stoul s < 10 ^ length s"
proof (induction s rule: rev_induct)
  case (snoc c s)
  then obtain d where "d < 10" "c = digit_char d" by (auto simp: is_digit_iff)
  with snoc show ?case by (simp add: stoul_snoc)
qed (simp add: stoul_def)

lemma length_nat_to_string: "0 < k \<Longrightarrow> n < 10 ^ k \<Longrightarrow> length (nat_to_string n) \<le> k"
proof (induction n arbitrary: k rule: nat_to_string.induct)
  case (1 n)
  show ?case
  proof (cases "n < 10")
    case True
    with 1 show ?thesis by (subst nat_to_string.simps) simp
  next
    case False
    obtain j where k: "k = Suc j" using 1(2) by (cases k) auto
    with 1(3) False have "0 < j" by (cases j) auto
    note k this
    moreover have "n div 10 < 10 ^ j" using 1(3) k by (simp add: less_mult_imp_div_less mult.commute)
    ultimately have "length (nat_to_string (n div 10)) \<le> j" using 1(1) False by blast
    with False k show ?thesis by (subst nat_to_string.simps) simp
  qed
qed

end
