(* ===== verification/Config_Map.thy ===== *)
theory Config_Map
  imports Config_Prelude
begin

text \<open>
  \<open>std::map< std::string, C >\<close>, the container of every object of the program. Iteration
  visits the keys in ascending order, which the passes of phase two can observe, so a map
  is the list of its entries in that order; \<open>om_inv\<close> is the invariant that the keys
  ascend strictly. The order on strings is lexicographic on unsigned bytes, as for
  \<open>std::string\<close>. The locale \<open>std_map\<close> is the contract the client code relies on, with
  the laws it needs proved once; it is interpreted on the operations below.
\<close>

section \<open>The contract of an ordered map\<close>

locale std_map =
  fixes find :: "'k::linorder \<Rightarrow> 'm \<Rightarrow> 'v option"
    and put :: "'k \<Rightarrow> 'v \<Rightarrow> 'm \<Rightarrow> 'm"
    and erase :: "'k \<Rightarrow> 'm \<Rightarrow> 'm"
    and keys :: "'m \<Rightarrow> 'k list"
    and inv :: "'m \<Rightarrow> bool"
  assumes find_put: "find k (put k' v m) = (if k = k' then Some v else find k m)"
    and find_erase: "inv m \<Longrightarrow> find k (erase k' m) = (if k = k' then None else find k m)"
    and in_keys: "k \<in> set (keys m) \<longleftrightarrow> find k m \<noteq> None"
    and inv_put: "inv m \<Longrightarrow> inv (put k v m)"
    and inv_erase: "inv m \<Longrightarrow> inv (erase k m)"
    and inv_keys: "inv m \<Longrightarrow> sorted_wrt (<) (keys m)"
begin

lemma find_put_same: "find k (put k v m) = Some v"
  by (simp add: find_put)

lemma find_put_other: "k \<noteq> k' \<Longrightarrow> find k (put k' v m) = find k m"
  by (simp add: find_put)

lemma keys_put_set: "set (keys (put k v m)) = insert k (set (keys m))"
  by (auto simp: in_keys find_put split: if_splits)

lemma keys_erase_set: "inv m \<Longrightarrow> set (keys (erase k m)) = set (keys m) - {k}"
  by (auto simp: in_keys find_erase split: if_splits)

lemma distinct_keys: "inv m \<Longrightarrow> distinct (keys m)"
  using inv_keys by (simp add: strict_sorted_iff)

lemma keys_put_known:
  assumes "inv m" and "find k m \<noteq> None"
  shows "keys (put k v m) = keys m"
proof (rule sorted_distinct_set_unique)
  show "sorted (keys (put k v m))" "distinct (keys (put k v m))"
    using inv_keys [OF inv_put [OF assms(1)]] by (auto simp: strict_sorted_iff)
  show "sorted (keys m)" "distinct (keys m)"
    using inv_keys [OF assms(1)] by (auto simp: strict_sorted_iff)
  show "set (keys (put k v m)) = set (keys m)"
    using assms(2) by (auto simp: keys_put_set in_keys)
qed

end

section \<open>The operations on entry lists\<close>

type_synonym ('k, 'v) omap = "('k \<times> 'v) list"

definition om_find :: "'k \<Rightarrow> ('k, 'v) omap \<Rightarrow> 'v option" where
  "om_find k m = map_of m k"

fun om_put :: "'k::linorder \<Rightarrow> 'v \<Rightarrow> ('k, 'v) omap \<Rightarrow> ('k, 'v) omap" where
  "om_put k v [] = [(k, v)]"
| "om_put k v ((a, b) # m) =
     (if k < a then (k, v) # (a, b) # m
      else if k = a then (k, v) # m
      else (a, b) # om_put k v m)"

definition om_erase :: "'k \<Rightarrow> ('k, 'v) omap \<Rightarrow> ('k, 'v) omap" where
  "om_erase k m = filter (\<lambda>p. fst p \<noteq> k) m"

definition om_keys :: "('k, 'v) omap \<Rightarrow> 'k list" where
  "om_keys m = map fst m"

definition om_inv :: "('k::linorder, 'v) omap \<Rightarrow> bool" where
  "om_inv m = sorted_wrt (<) (map fst m)"

text \<open>
  \<open>try_emplace\<close> returns the map, the value at the key (\<open>pair.first->second\<close>) and
  whether it was inserted (\<open>pair.second\<close>). Code that changes the value through the
  returned reference is the \<open>om_put\<close> of the changed value.
\<close>

definition try_emplace ::
  "'k::linorder \<Rightarrow> 'v \<Rightarrow> ('k, 'v) omap \<Rightarrow> ('k, 'v) omap \<times> 'v \<times> bool" where
  "try_emplace k v m =
     (case om_find k m of
        Some w \<Rightarrow> (m, w, False)
      | None \<Rightarrow> (om_put k v m, v, True))"

lemma om_find_simps [simp, omap_simps]:
  "om_find k [] = None"
  "om_find k ((a, b) # m) = (if k = a then Some b else om_find k m)"
  by (simp_all add: om_find_def)

lemma om_find_put: "om_find k (om_put k' v m) = (if k = k' then Some v else om_find k m)"
  by (induction k' v m rule: om_put.induct) auto

lemma set_om_put: "set (om_put k v m) \<subseteq> insert (k, v) (set m)"
  by (induction k v m rule: om_put.induct) auto

lemma keys_om_put: "fst ` set (om_put k v m) = insert k (fst ` set m)"
  by (induction k v m rule: om_put.induct) auto

lemma om_find_key: "k \<in> set (om_keys m) \<longleftrightarrow> om_find k m \<noteq> None"
  by (auto simp: om_keys_def om_find_def map_of_eq_None_iff)

lemma om_find_in: "om_find k m = Some v \<Longrightarrow> (k, v) \<in> set m"
  by (simp add: om_find_def map_of_SomeD)

lemma om_inv_Nil [simp]: "om_inv []"
  by (simp add: om_inv_def)

lemma om_inv_Cons [simp]:
  "om_inv ((k, v) # m) \<longleftrightarrow> (\<forall>x \<in> fst ` set m. k < x) \<and> om_inv m"
  by (auto simp: om_inv_def)

lemma om_inv_put: "om_inv m \<Longrightarrow> om_inv (om_put k v m)"
proof (induction k v m rule: om_put.induct)
  case (2 k v a b m)
  then show ?case by (auto simp: keys_om_put intro: less_trans)
qed simp

lemma om_inv_filter: "om_inv m \<Longrightarrow> om_inv (filter P m)"
  by (induction m) auto

lemma om_inv_erase: "om_inv m \<Longrightarrow> om_inv (om_erase k m)"
  by (simp add: om_erase_def om_inv_filter)

lemma om_inv_same_keys: "map fst m = map fst n \<Longrightarrow> om_inv m = om_inv n"
  by (simp add: om_inv_def)

lemma om_inv_distinct: "om_inv m \<Longrightarrow> distinct (map fst m)"
  by (simp add: om_inv_def strict_sorted_iff)

lemma om_find_in_iff: "om_inv m \<Longrightarrow> om_find k m = Some v \<longleftrightarrow> (k, v) \<in> set m"
  by (simp add: om_find_def om_inv_distinct)

lemma om_find_erase:
  "om_find k (om_erase k' m) = (if k = k' then None else om_find k m)"
  by (induction m) (auto simp: om_erase_def)

interpretation smap: std_map om_find om_put om_erase om_keys om_inv
  by unfold_locales
    (simp_all add: om_find_put om_find_erase om_find_key om_inv_put om_inv_erase,
      simp add: om_inv_def om_keys_def)

lemmas omap_laws = smap.find_put_same smap.find_put_other smap.inv_put smap.keys_put_set

lemma om_put_known:
  "om_inv m \<Longrightarrow> om_find k m \<noteq> None \<Longrightarrow> map fst (om_put k v m) = map fst m"
  using smap.keys_put_known by (simp add: om_keys_def)

lemma om_put_split:
  assumes "om_inv m" "om_find k m = Some w"
  obtains xs ys where "m = xs @ (k, w) # ys" "\<And>v. om_put k v m = xs @ (k, v) # ys"
proof -
  have "\<exists>xs ys. m = xs @ (k, w) # ys \<and> (\<forall>v. om_put k v m = xs @ (k, v) # ys)"
    using assms
  proof (induction m)
    case (Cons p m)
    obtain a b where p: "p = (a, b)" by (cases p)
    show ?case
    proof (cases "k = a")
      case True
      with Cons.prems p show ?thesis by (intro exI [of _ "[]"] exI [of _ m]) auto
    next
      case False
      with Cons p have "om_find k m = Some w" "om_inv m" by auto
      with Cons.IH obtain xs ys where "m = xs @ (k, w) # ys" "\<forall>v. om_put k v m = xs @ (k, v) # ys"
        by blast
      moreover have "a < k" using Cons.prems p calculation by auto
      ultimately show ?thesis using p
        by (intro exI [of _ "(a, b) # xs"] exI [of _ ys]) auto
    qed
  qed simp
  then show thesis using that by blast
qed

lemma om_put_same: "om_inv m \<Longrightarrow> om_find k m = Some v \<Longrightarrow> om_put k v m = m"
  by (metis om_put_split)

end
