(* ===== verification/Config_Entry.thy ===== *)
theory Config_Entry
  imports Config_Map
begin

text \<open>
  The data of the program: positions, the exceptions, the parts of keys and references,
  and the intermediate representation of a config (\<open>entry.hpp\<close>, \<open>array.hpp\<close>,
  \<open>object.hpp\<close>, \<open>concat.hpp\<close>, \<open>atom.hpp\<close>, \<open>entry_kind.hpp\<close>), with the
  member functions of these structs, and two generic folds over the representation, a
  predicate on all nodes and a count of nodes, from which the invariants and measures of
  the phases are built.
\<close>

section \<open>Machine types, positions and exceptions\<close>

type_synonym u64 = "64 word"
type_synonym i64 = "64 word"  \<comment> \<open>\<open>std::int64_t\<close>, read with \<open>sint\<close>\<close>
type_synonym double = "64 word"  \<comment> \<open>the bits of an IEEE double\<close>
type_synonym byte = "8 word"

text \<open>The fields of \<open>pegtl::position\<close> that the code fills in and reads.\<close>

record position =
  byte_count :: nat
  line :: nat
  column :: nat
  source :: string

definition no_position :: position where
  "no_position = \<lparr>byte_count = 0, line = 0, column = 0, source = ''''\<rparr>"

datatype entry_kind =
    KIND_NULL | KIND_BOOLEAN | KIND_STRING | KIND_BINARY | KIND_SIGNED | KIND_UNSIGNED
  | KIND_DOUBLE | KIND_ARRAY | KIND_OBJECT | KIND_ASTERISK | KIND_REFERENCE

fun entry_kind_to_string :: "entry_kind \<Rightarrow> string" where
  "entry_kind_to_string KIND_NULL = ''null''"
| "entry_kind_to_string KIND_BOOLEAN = ''boolean''"
| "entry_kind_to_string KIND_STRING = ''string''"
| "entry_kind_to_string KIND_BINARY = ''binary''"
| "entry_kind_to_string KIND_SIGNED = ''signed''"
| "entry_kind_to_string KIND_UNSIGNED = ''unsigned''"
| "entry_kind_to_string KIND_DOUBLE = ''double''"
| "entry_kind_to_string KIND_ARRAY = ''array''"
| "entry_kind_to_string KIND_OBJECT = ''object''"
| "entry_kind_to_string KIND_ASTERISK = ''asterisk''"
| "entry_kind_to_string KIND_REFERENCE = ''reference''"

text \<open>
  The exceptions. \<open>Parse_error\<close> is a \<open>pegtl::parse_error\<close> that the code throws itself,
  \<open>Syntax_error\<close> one that PEGTL throws when a rule under \<open>must\<close> does not match, given by
  the name of the rule. \<open>Addition_error\<close> is the \<open>pegtl::parse_error\<close> of
  \<open>throw_type_error\<close>, given by the four values its text is made of.
  \<open>Access_return\<close> and \<open>Arguments_unready\<close> are the two empty structs that the code
  throws for control flow. \<open>Assert_failed\<close> stands for a violated \<open>assert\<close> and
  \<open>Undefined_behaviour\<close> for an operation without meaning in C++: they are not
  exceptions, and the properties show where they cannot occur.
\<close>

datatype error =
    Parse_error string position
  | Syntax_error string
  | Addition_error entry_kind position entry_kind position
  | Runtime_error string
  | Logic_error string
  | System_error nat
  | Out_of_range string
  | Bad_optional_access
  | Access_return
  | Arguments_unready
  | Assert_failed string
  | Undefined_behaviour string
  | Stack_exhausted

section \<open>Parts of internal keys and of references\<close>

text \<open>
  \<open>key1_part\<close>: a name, an index, an asterisk, or an append with the generation it
  points to. The \<open>std::shared_ptr\<close> of an append is only shared between the state and
  the temporary paths built from it, so the model keeps the pointed-to number itself.
\<close>

datatype key1_part =
    K1_name string (k1_position: position)
  | K1_index nat (k1_position: position)
  | K1_asterisk (k1_position: position)
  | K1_append u64 (k1_position: position)

datatype key1_kind = KEY1_name | KEY1_index | KEY1_asterisk | KEY1_append

fun key1_part_kind :: "key1_part \<Rightarrow> key1_kind" where
  "key1_part_kind (K1_name n p) = KEY1_name"
| "key1_part_kind (K1_index i p) = KEY1_index"
| "key1_part_kind (K1_asterisk p) = KEY1_asterisk"
| "key1_part_kind (K1_append g p) = KEY1_append"

fun set_generation :: "u64 \<Rightarrow> key1_part \<Rightarrow> error + key1_part" where
  "set_generation g (K1_append s p) =
     (if g = 0 then Inl (Assert_failed ''g > 0'')
      else if \<not> g > s then Inl (Assert_failed ''g > **s'')
      else Inr (K1_append g p))"
| "set_generation g part = (if g = 0 then Inl (Assert_failed ''g > 0'') else Inr part)"

type_synonym key1 = "key1_part list"

datatype reference2_part =
    R2_name string (r2_position: position)
  | R2_index nat (r2_position: position)
  | R2_vector "reference2_part list" (r2_position: position)

type_synonym reference2 = "reference2_part list"

section \<open>Entries, arrays, objects and concats\<close>

text \<open>
  The flags and the other scalar members of a \<open>basic_concat\<close>, and the four mutually
  recursive types. The function name of an array is empty unless the array is the
  argument list of a function.
\<close>

record concat_head =
  remove :: bool
  implicit :: bool
  temporary :: bool
  generation :: u64
  concat_position :: position

datatype entry =
    NULL position
  | BOOLEAN bool position
  | STRING string position
  | BINARY "byte list" position
  | SIGNED i64 position
  | UNSIGNED u64 position
  | DOUBLE double position
  | ARRAY array
  | OBJECT object
  | ASTERISK concat
  | REFERENCE reference2
and array = Array (array_function: string) (array_list: "concat list") (array_position: position)
and object = Object (object_map: "(string \<times> concat) list") (object_position: position)
and concat = Concat (head: concat_head) (concat_list: "entry list")

text \<open>The constructors \<open>basic_concat( p )\<close>, \<open>basic_array( p )\<close>, \<open>basic_object( p )\<close>.\<close>

definition concat_init :: "position \<Rightarrow> concat" where
  "concat_init p =
     Concat \<lparr>remove = False, implicit = False, temporary = False, generation = 0,
             concat_position = p\<rparr> []"

definition array_init :: "position \<Rightarrow> entry" where
  "array_init p = ARRAY (Array '''' [] p)"

definition object_init :: "position \<Rightarrow> entry" where
  "object_init p = OBJECT (Object [] p)"

definition asterisk_init :: "position \<Rightarrow> entry" where
  "asterisk_init p = ASTERISK (concat_init p)"

fun kind :: "entry \<Rightarrow> entry_kind" where
  "kind (NULL p) = KIND_NULL"
| "kind (BOOLEAN b p) = KIND_BOOLEAN"
| "kind (STRING s p) = KIND_STRING"
| "kind (BINARY b p) = KIND_BINARY"
| "kind (SIGNED i p) = KIND_SIGNED"
| "kind (UNSIGNED u p) = KIND_UNSIGNED"
| "kind (DOUBLE d p) = KIND_DOUBLE"
| "kind (ARRAY a) = KIND_ARRAY"
| "kind (OBJECT j) = KIND_OBJECT"
| "kind (ASTERISK c) = KIND_ASTERISK"
| "kind (REFERENCE r) = KIND_REFERENCE"

text \<open>\<open>reference2::get_position\<close> reads the first part and asserts that there is one.\<close>

fun entry_position :: "entry \<Rightarrow> position" where
  "entry_position (NULL p) = p"
| "entry_position (BOOLEAN b p) = p"
| "entry_position (STRING s p) = p"
| "entry_position (BINARY b p) = p"
| "entry_position (SIGNED i p) = p"
| "entry_position (UNSIGNED u p) = p"
| "entry_position (DOUBLE d p) = p"
| "entry_position (ARRAY a) = array_position a"
| "entry_position (OBJECT j) = object_position j"
| "entry_position (ASTERISK c) = concat_position (head c)"
| "entry_position (REFERENCE r) = (case r of [] \<Rightarrow> no_position | part # _ \<Rightarrow> r2_position part)"

definition omit_from_final_result :: "concat \<Rightarrow> bool" where
  "omit_from_final_result c \<longleftrightarrow>
     implicit (head c) \<or> temporary (head c) \<or> concat_list c = []"

text \<open>
  \<open>back_ensure_init( k, p )\<close>: the last entry has the wanted kind afterwards;
  \<open>init\<close> is the entry that \<open>emplace_back( k, p )\<close> creates.
\<close>

definition back_ensure_init :: "entry \<Rightarrow> entry list \<Rightarrow> entry list" where
  "back_ensure_init init es =
     (if es = [] then es @ [init]
      else if kind (last es) \<noteq> kind init then es @ [init]
      else es)"

definition back_emplace_func :: "string \<Rightarrow> position \<Rightarrow> concat \<Rightarrow> concat" where
  "back_emplace_func name p c =
     (let es = back_ensure_init (array_init p) (concat_list c) in
      case last es of
        ARRAY (Array f cs q) \<Rightarrow> Concat (head c) (butlast es @ [ARRAY (Array name cs q)])
      | _ \<Rightarrow> c)"

lemma back_ensure_init_nonempty [simp]: "back_ensure_init init es \<noteq> []"
  by (simp add: back_ensure_init_def)

lemma kind_last_back_ensure_init [simp]: "kind (last (back_ensure_init init es)) = kind init"
  by (auto simp: back_ensure_init_def)

lemma back_ensure_init_cases:
  obtains (new) "es = [] \<or> kind (last es) \<noteq> kind init" "back_ensure_init init es = es @ [init]"
  | (old) "es \<noteq> []" "kind (last es) = kind init" "back_ensure_init init es = es"
proof (cases "es = [] \<or> kind (last es) \<noteq> kind init")
  case True
  then show thesis by (intro new) (auto simp: back_ensure_init_def)
next
  case False
  then show thesis by (intro old) (auto simp: back_ensure_init_def)
qed

lemma kind_ARRAY [simp]: "kind e = KIND_ARRAY \<longleftrightarrow> (\<exists>a. e = ARRAY a)"
  by (cases e) auto

lemma kind_OBJECT [simp]: "kind e = KIND_OBJECT \<longleftrightarrow> (\<exists>x. e = OBJECT x)"
  by (cases e) auto

lemma kind_ASTERISK [simp]: "kind e = KIND_ASTERISK \<longleftrightarrow> (\<exists>c. e = ASTERISK c)"
  by (cases e) auto

lemma kind_inits [simp]:
  "kind (array_init p) = KIND_ARRAY" "kind (object_init p) = KIND_OBJECT"
  "kind (asterisk_init p) = KIND_ASTERISK"
  by (simp_all add: array_init_def object_init_def asterisk_init_def)

section \<open>Induction over the representation\<close>

definition atomic :: "entry \<Rightarrow> bool" where
  "atomic e \<longleftrightarrow> kind e \<in> {KIND_NULL, KIND_BOOLEAN, KIND_STRING, KIND_BINARY, KIND_SIGNED,
                          KIND_UNSIGNED, KIND_DOUBLE}"

lemma atomic_simps [simp]:
  "atomic (NULL p)" "atomic (BOOLEAN b p)" "atomic (STRING s p)" "atomic (BINARY y p)"
  "atomic (SIGNED i p)" "atomic (UNSIGNED u p)" "atomic (DOUBLE d p)"
  "\<not> atomic (ARRAY a)" "\<not> atomic (OBJECT x)" "\<not> atomic (ASTERISK c)" "\<not> atomic (REFERENCE r)"
  by (simp_all add: atomic_def)

lemma atomic_cases:
  assumes "atomic e"
  obtains p where "e = NULL p" | b p where "e = BOOLEAN b p" | s p where "e = STRING s p"
  | y p where "e = BINARY y p" | i p where "e = SIGNED i p" | u p where "e = UNSIGNED u p"
  | d p where "e = DOUBLE d p"
  using assms by (cases e) auto

lemma tree_induct:
  assumes "\<And>e. atomic e \<Longrightarrow> E e"
    and "\<And>r. E (REFERENCE r)"
    and "\<And>a. A a \<Longrightarrow> E (ARRAY a)"
    and "\<And>x. J x \<Longrightarrow> E (OBJECT x)"
    and "\<And>c. C c \<Longrightarrow> E (ASTERISK c)"
    and "\<And>f cs p. (\<And>c. c \<in> set cs \<Longrightarrow> C c) \<Longrightarrow> A (Array f cs p)"
    and "\<And>ms p. (\<And>k c. (k, c) \<in> set ms \<Longrightarrow> C c) \<Longrightarrow> J (Object ms p)"
    and "\<And>h es. (\<And>e. e \<in> set es \<Longrightarrow> E e) \<Longrightarrow> C (Concat h es)"
  shows "E e" and "A a" and "J x" and "C c"
proof -
  have "E e \<and> A a \<and> J x \<and> C c"
    by (rule entry_array_object_concat.induct) (use assms in \<open>fastforce+\<close>)
  then show "E e" and "A a" and "J x" and "C c" by blast+
qed

section \<open>Predicates on all nodes and counts of nodes\<close>

datatype node = Node_entry entry | Node_array array | Node_object object | Node_concat concat

fun all_entry :: "(node \<Rightarrow> bool) \<Rightarrow> entry \<Rightarrow> bool"
  and all_array :: "(node \<Rightarrow> bool) \<Rightarrow> array \<Rightarrow> bool"
  and all_object :: "(node \<Rightarrow> bool) \<Rightarrow> object \<Rightarrow> bool"
  and all_concat :: "(node \<Rightarrow> bool) \<Rightarrow> concat \<Rightarrow> bool" where
  "all_entry P (ARRAY a) \<longleftrightarrow> P (Node_entry (ARRAY a)) \<and> all_array P a"
| "all_entry P (OBJECT x) \<longleftrightarrow> P (Node_entry (OBJECT x)) \<and> all_object P x"
| "all_entry P (ASTERISK c) \<longleftrightarrow> P (Node_entry (ASTERISK c)) \<and> all_concat P c"
| "all_entry P e \<longleftrightarrow> P (Node_entry e)"
| "all_array P (Array f cs p) \<longleftrightarrow>
     P (Node_array (Array f cs p)) \<and> (\<forall>c \<in> set cs. all_concat P c)"
| "all_object P (Object ms p) \<longleftrightarrow>
     P (Node_object (Object ms p)) \<and> (\<forall>(k, c) \<in> set ms. all_concat P c)"
| "all_concat P (Concat h es) \<longleftrightarrow>
     P (Node_concat (Concat h es)) \<and> (\<forall>e \<in> set es. all_entry P e)"

fun count_entry :: "(node \<Rightarrow> nat) \<Rightarrow> entry \<Rightarrow> nat"
  and count_array :: "(node \<Rightarrow> nat) \<Rightarrow> array \<Rightarrow> nat"
  and count_object :: "(node \<Rightarrow> nat) \<Rightarrow> object \<Rightarrow> nat"
  and count_concat :: "(node \<Rightarrow> nat) \<Rightarrow> concat \<Rightarrow> nat" where
  "count_entry w (ARRAY a) = w (Node_entry (ARRAY a)) + count_array w a"
| "count_entry w (OBJECT x) = w (Node_entry (OBJECT x)) + count_object w x"
| "count_entry w (ASTERISK c) = w (Node_entry (ASTERISK c)) + count_concat w c"
| "count_entry w e = w (Node_entry e)"
| "count_array w (Array f cs p) =
     w (Node_array (Array f cs p)) + (\<Sum>c \<leftarrow> cs. count_concat w c)"
| "count_object w (Object ms p) =
     w (Node_object (Object ms p)) + (\<Sum>(k, c) \<leftarrow> ms. count_concat w c)"
| "count_concat w (Concat h es) =
     w (Node_concat (Concat h es)) + (\<Sum>e \<leftarrow> es. count_entry w e)"

lemma all_entry_atomic [simp]: "atomic e \<Longrightarrow> all_entry P e = P (Node_entry e)"
  by (cases e) auto

lemma count_entry_atomic [simp]: "atomic e \<Longrightarrow> count_entry w e = w (Node_entry e)"
  by (cases e) auto

lemma all_mono:
  assumes "\<And>n. P n \<Longrightarrow> Q n"
  shows "all_entry P e \<Longrightarrow> all_entry Q e" and "all_array P a \<Longrightarrow> all_array Q a"
    and "all_object P x \<Longrightarrow> all_object Q x" and "all_concat P c \<Longrightarrow> all_concat Q c"
proof -
  have "(all_entry P e \<longrightarrow> all_entry Q e)" "(all_array P a \<longrightarrow> all_array Q a)"
    "(all_object P x \<longrightarrow> all_object Q x)" "(all_concat P c \<longrightarrow> all_concat Q c)"
    by (induction e and a and x and c rule: tree_induct) (use assms in fastforce)+
  then show "all_entry P e \<Longrightarrow> all_entry Q e" and "all_array P a \<Longrightarrow> all_array Q a"
    and "all_object P x \<Longrightarrow> all_object Q x" and "all_concat P c \<Longrightarrow> all_concat Q c"
    by blast+
qed

lemma all_conj:
  "all_entry (\<lambda>n. P n \<and> Q n) e \<longleftrightarrow> all_entry P e \<and> all_entry Q e"
  "all_array (\<lambda>n. P n \<and> Q n) a \<longleftrightarrow> all_array P a \<and> all_array Q a"
  "all_object (\<lambda>n. P n \<and> Q n) x \<longleftrightarrow> all_object P x \<and> all_object Q x"
  "all_concat (\<lambda>n. P n \<and> Q n) c \<longleftrightarrow> all_concat P c \<and> all_concat Q c"
  by (induction e and a and x and c rule: tree_induct) (fastforce+)

lemma count_zero_iff:
  "count_entry w e = 0 \<longleftrightarrow> all_entry (\<lambda>n. w n = 0) e"
  "count_array w a = 0 \<longleftrightarrow> all_array (\<lambda>n. w n = 0) a"
  "count_object w x = 0 \<longleftrightarrow> all_object (\<lambda>n. w n = 0) x"
  "count_concat w c = 0 \<longleftrightarrow> all_concat (\<lambda>n. w n = 0) c"
  by (induction e and a and x and c rule: tree_induct) (fastforce+)

lemma all_concat_list:
  "all_concat P c \<Longrightarrow> e \<in> set (concat_list c) \<Longrightarrow> all_entry P e"
  by (cases c) auto

lemma all_object_find:
  "all_object P x \<Longrightarrow> om_find k (object_map x) = Some c \<Longrightarrow> all_concat P c"
  by (cases x) (auto dest: om_find_in)

lemma all_array_nth:
  "all_array P a \<Longrightarrow> i < length (array_list a) \<Longrightarrow> all_concat P (array_list a ! i)"
  by (cases a) auto

section \<open>Well-formed maps\<close>

text \<open>The invariant of \<open>std::map\<close>, for every object of the representation.\<close>

fun sorted_node :: "node \<Rightarrow> bool" where
  "sorted_node (Node_object (Object ms p)) = om_inv ms"
| "sorted_node n = True"

abbreviation wf_entry :: "entry \<Rightarrow> bool" where "wf_entry \<equiv> all_entry sorted_node"
abbreviation wf_array :: "array \<Rightarrow> bool" where "wf_array \<equiv> all_array sorted_node"
abbreviation wf_object :: "object \<Rightarrow> bool" where "wf_object \<equiv> all_object sorted_node"
abbreviation wf_concat :: "concat \<Rightarrow> bool" where "wf_concat \<equiv> all_concat sorted_node"

lemma wf_concat_iff: "wf_concat c \<longleftrightarrow> (\<forall>e \<in> set (concat_list c). wf_entry e)"
  by (cases c) simp

lemma wf_array_elements: "wf_array a \<Longrightarrow> \<forall>c \<in> set (array_list a). wf_concat c"
  by (cases a) simp

end
