(* ===== verification/Config_Statistics.thy ===== *)
theory Config_Statistics
  imports Config_Entry
begin

text \<open>
  \<open>statistics.hpp\<close>: the struct of counters, the four \<open>count\<close> member functions that
  walk over the representation, and \<open>is_primitive\<close>. The counters are \<open>std::size_t\<close>;
  they count nodes that exist in memory, so they are \<open>nat\<close> here. The lemmas relate the
  counters that the code reads to the node counts of \<open>Config_Entry\<close>, and
  \<open>is_primitive\<close> to a predicate on the nodes.
\<close>

record statistics =
  m_nulls :: nat
  m_atoms :: nat
  m_arrays :: nat
  m_objects :: nat
  m_functions :: nat
  m_additions :: nat
  m_asterisks :: nat
  m_references :: nat

definition statistics_init :: statistics where
  "statistics_init = \<lparr>m_nulls = 0, m_atoms = 0, m_arrays = 0, m_objects = 0, m_functions = 0,
     m_additions = 0, m_asterisks = 0, m_references = 0\<rparr>"

fun st_entry :: "entry \<Rightarrow> statistics \<Rightarrow> statistics"
  and st_array :: "array \<Rightarrow> statistics \<Rightarrow> statistics"
  and st_object :: "object \<Rightarrow> statistics \<Rightarrow> statistics"
  and st_concat :: "concat \<Rightarrow> statistics \<Rightarrow> statistics" where
  "st_entry (NULL p) s = s\<lparr>m_nulls := m_nulls s + 1\<rparr>"
| "st_entry (ARRAY a) s = st_array a s"
| "st_entry (OBJECT x) s = st_object x s"
| "st_entry (ASTERISK c) s = st_concat c (s\<lparr>m_asterisks := m_asterisks s + 1\<rparr>)"
| "st_entry (REFERENCE r) s = s\<lparr>m_references := m_references s + 1\<rparr>"
| "st_entry e s = s\<lparr>m_atoms := m_atoms s + 1\<rparr>"
| "st_array (Array f cs p) s =
     fold st_concat cs
       (if f = [] then s\<lparr>m_arrays := m_arrays s + 1\<rparr> else s\<lparr>m_functions := m_functions s + 1\<rparr>)"
| "st_object (Object ms p) s =
     (let s' = fold (\<lambda>(k, c). st_concat c) ms s in s'\<lparr>m_objects := m_objects s' + 1\<rparr>)"
| "st_concat (Concat h es) s =
     fold st_entry es (if length es > 1 then s\<lparr>m_additions := m_additions s + 1\<rparr> else s)"

definition statistics_of_concat :: "concat \<Rightarrow> statistics" where
  "statistics_of_concat c = st_concat c statistics_init"

definition is_primitive :: "statistics \<Rightarrow> bool" where
  "is_primitive s \<longleftrightarrow>
     m_functions s = 0 \<and> m_additions s = 0 \<and> m_asterisks s = 0 \<and> m_references s = 0"

section \<open>What the counters count\<close>

fun w_function :: "node \<Rightarrow> nat" where
  "w_function (Node_array a) = (if array_function a = [] then 0 else 1)"
| "w_function n = 0"

fun w_addition :: "node \<Rightarrow> nat" where
  "w_addition (Node_concat c) = (if length (concat_list c) > 1 then 1 else 0)"
| "w_addition n = 0"

fun w_asterisk :: "node \<Rightarrow> nat" where
  "w_asterisk (Node_entry (ASTERISK c)) = 1"
| "w_asterisk n = 0"

fun w_reference :: "node \<Rightarrow> nat" where
  "w_reference (Node_entry (REFERENCE r)) = 1"
| "w_reference n = 0"

lemma fold_counter:
  "(\<And>x s. x \<in> set xs \<Longrightarrow> m (f x s) = m s + w x) \<Longrightarrow>
     m (fold f xs s) = m s + (\<Sum>x \<leftarrow> xs. w x :: nat)"
  by (induction xs arbitrary: s) auto

text \<open>
  The contract of one counter \<open>m\<close> and the weight \<open>w\<close> of a node: every increment in
  the code adds the weight of the node it is made for. It follows that a traversal adds the
  number of nodes, counted with \<open>w\<close>.
\<close>

locale counter =
  fixes m :: "statistics \<Rightarrow> nat" and w :: "node \<Rightarrow> nat"
  assumes at_atom: "atomic e \<Longrightarrow> m (st_entry e s) = m s + w (Node_entry e)"
    and at_reference: "m (st_entry (REFERENCE r) s) = m s + w (Node_entry (REFERENCE r))"
    and at_asterisk: "m (s\<lparr>m_asterisks := m_asterisks s + 1\<rparr>) = m s + w (Node_entry (ASTERISK c))"
    and at_array: "m (if f = [] then s\<lparr>m_arrays := m_arrays s + 1\<rparr>
                      else s\<lparr>m_functions := m_functions s + 1\<rparr>) = m s + w (Node_array (Array f cs p))"
    and at_object: "m (s\<lparr>m_objects := m_objects s + 1\<rparr>) = m s + w (Node_object x)"
    and at_concat: "m (if length es > 1 then s\<lparr>m_additions := m_additions s + 1\<rparr> else s) =
                      m s + w (Node_concat (Concat h es))"
    and at_container: "w (Node_entry (ARRAY a)) = 0" "w (Node_entry (OBJECT x)) = 0"
begin

lemma traversal_counts:
  "m (st_entry e s) = m s + count_entry w e" "m (st_array a s) = m s + count_array w a"
  "m (st_object x s) = m s + count_object w x" "m (st_concat c s) = m s + count_concat w c"
proof (induction e and a and x and c arbitrary: s and s and s and s rule: tree_induct)
  case (5 c)
  then show ?case using at_asterisk by simp
next
  case (6 f cs p)
  then show ?case using at_array [of f s cs p]
    by (simp add: fold_counter [where m = m and w = "count_concat w"] split: if_splits)
next
  case (7 ms p)
  then have "m (fold (\<lambda>(k, c). st_concat c) ms s) = m s + (\<Sum>(k, c) \<leftarrow> ms. count_concat w c)"
    by (intro fold_counter) auto
  then show ?case using at_object [of _ "Object ms p"] by (simp add: Let_def)
next
  case (8 h es)
  then show ?case using at_concat [of es s h]
    by (simp add: fold_counter [where m = m and w = "count_entry w"] split: if_splits)
next
  case (1 e)
  then show ?case using at_atom by simp
next
  case (2 r)
  then show ?case using at_reference by simp
qed (simp_all add: at_container)

end

interpretation count_functions: counter m_functions w_function
  by unfold_locales (auto elim: atomic_cases)

interpretation count_additions: counter m_additions w_addition
  by unfold_locales (auto elim: atomic_cases)

interpretation count_asterisks: counter m_asterisks w_asterisk
  by unfold_locales (auto elim: atomic_cases)

interpretation count_references: counter m_references w_reference
  by unfold_locales (auto elim: atomic_cases)

section \<open>Primitive values\<close>

text \<open>
  A node is plain when it is not a function call, an asterisk or a reference and its
  concat has no pending addition; a value is primitive when all of its nodes are plain.
\<close>

fun plain_node :: "node \<Rightarrow> bool" where
  "plain_node (Node_array a) \<longleftrightarrow> array_function a = []"
| "plain_node (Node_concat c) \<longleftrightarrow> length (concat_list c) \<le> 1"
| "plain_node (Node_entry (ASTERISK c)) \<longleftrightarrow> False"
| "plain_node (Node_entry (REFERENCE r)) \<longleftrightarrow> False"
| "plain_node n \<longleftrightarrow> True"

abbreviation primitive_entry :: "entry \<Rightarrow> bool" where "primitive_entry \<equiv> all_entry plain_node"
abbreviation primitive_concat :: "concat \<Rightarrow> bool" where
  "primitive_concat \<equiv> all_concat plain_node"

lemma plain_node_weights:
  "plain_node n \<longleftrightarrow>
     ((w_function n = 0 \<and> w_addition n = 0) \<and> w_asterisk n = 0) \<and> w_reference n = 0"
  by (cases n rule: plain_node.cases) auto

lemma statistics_primitive:
  "is_primitive (statistics_of_concat c) \<longleftrightarrow> primitive_concat c"
  unfolding plain_node_weights all_conj
  by (simp add: is_primitive_def statistics_of_concat_def statistics_init_def count_zero_iff
      count_functions.traversal_counts count_additions.traversal_counts count_asterisks.traversal_counts
      count_references.traversal_counts)

lemma primitive_concat_cases:
  assumes "primitive_concat c"
  obtains (empty) h where "c = Concat h []"
  | (single) h e where "c = Concat h [e]" "primitive_entry e"
proof (cases c)
  case (Concat h es)
  with assms show thesis using that by (cases es) auto
qed

section \<open>Properties\<close>

text \<open>C31: The counters of the statistics of a value say that it is primitive exactly when no
  node of it, at any depth, is a function call, a pending addition, an asterisk or a
  reference.\<close>

theorem is_primitive_correct:
  "is_primitive (statistics_of_concat c) = primitive_concat c"
  by (rule statistics_primitive)

end
