(* ===== verification/Config_Key.thy ===== *)
theory Config_Key
  imports Config_Entry
begin

text \<open>
  Public keys: \<open>key_kind.hpp\<close>, \<open>key_part.hpp\<close>, \<open>key.hpp\<close> and the grammar and
  actions that parse them (\<open>key_grammar.hpp\<close>, \<open>key_action.hpp\<close>). A rule of the grammar
  is a function from the remaining input to three outcomes, as in PEGTL: \<open>Inl\<close> is a
  global failure (an exception), \<open>Inr None\<close> a local failure, \<open>Inr (Some (a, rest))\<close> a
  match with the result \<open>a\<close> of the actions.

  Two functions of taoJSON are parameters: \<open>qf\<close> is the rule \<open>jaxn::string_fragment\<close>
  with the action \<open>unescape_action\<close>, which returns the unescaped text and the number of
  consumed bytes of a quoted string, and \<open>esc\<close> is \<open>json::internal::escape\<close>.
\<close>

section \<open>Keys\<close>

datatype key_kind = KEY_name | KEY_index

datatype key_part = Key_name string | Key_index nat

fun key_part_kind :: "key_part \<Rightarrow> key_kind" where
  "key_part_kind (Key_name n) = KEY_name"
| "key_part_kind (Key_index i) = KEY_index"

type_synonym key = "key_part list"

text \<open>
  \<open>operator<\<close> compares the variants: first the index of the alternative, then the
  value. \<open>key_part\<close> is made an instance of \<open>linorder\<close> with it.
\<close>

fun key_part_less :: "key_part \<Rightarrow> key_part \<Rightarrow> bool" where
  "key_part_less (Key_name a) (Key_name b) \<longleftrightarrow> a < b"
| "key_part_less (Key_name a) (Key_index j) \<longleftrightarrow> True"
| "key_part_less (Key_index i) (Key_name b) \<longleftrightarrow> False"
| "key_part_less (Key_index i) (Key_index j) \<longleftrightarrow> i < j"

instantiation key_part :: linorder
begin

definition less_key_part :: "key_part \<Rightarrow> key_part \<Rightarrow> bool" where
  "less_key_part = key_part_less"

definition less_eq_key_part :: "key_part \<Rightarrow> key_part \<Rightarrow> bool" where
  "less_eq_key_part x y \<longleftrightarrow> x < y \<or> x = y"

instance
proof
  fix x y z :: key_part
  show "x < y \<longleftrightarrow> x \<le> y \<and> \<not> y \<le> x"
    by (cases x; cases y) (auto simp: less_eq_key_part_def less_key_part_def)
  show "x \<le> x" by (simp add: less_eq_key_part_def less_key_part_def)
  show "x \<le> y \<Longrightarrow> y \<le> z \<Longrightarrow> x \<le> z"
    by (cases x; cases y; cases z) (auto simp: less_eq_key_part_def less_key_part_def)
  show "x \<le> y \<Longrightarrow> y \<le> x \<Longrightarrow> x = y"
    by (cases x; cases y) (auto simp: less_eq_key_part_def less_key_part_def)
  show "x \<le> y \<or> y \<le> x"
    by (cases x; cases y) (auto simp: less_eq_key_part_def less_key_part_def)
qed

end

text \<open>The preconditions of \<open>pop_front\<close> and \<open>pop_back\<close> are asserted.\<close>

definition pop_front :: "'a list \<Rightarrow> error + 'a list" where
  "pop_front k = (if k = [] then Inl (Assert_failed ''!p.empty()'') else Inr (tl k))"

definition pop_back :: "'a list \<Rightarrow> error + 'a list" where
  "pop_back k = (if k = [] then Inl (Assert_failed ''!p.empty()'') else Inr (butlast k))"

definition key_append :: "'a list \<Rightarrow> 'a list \<Rightarrow> 'a list" where
  "key_append l r = l @ r"

definition key_append_part :: "'a list \<Rightarrow> 'a \<Rightarrow> 'a list" where
  "key_append_part l p = l @ [p]"

section \<open>The grammar of names, indices and keys\<close>

type_synonym 'a match = "error + ('a \<times> string) option"
type_synonym quoted_matcher = "string \<Rightarrow> (string \<times> nat) option"

definition ident_first :: "char \<Rightarrow> bool" where
  "ident_first c \<longleftrightarrow>
     in_range (CHR ''a'') (CHR ''z'') c \<or> in_range (CHR ''A'') (CHR ''Z'') c \<or> c = CHR ''_''"

definition ident_other :: "char \<Rightarrow> bool" where
  "ident_other c \<longleftrightarrow>
     in_range (CHR ''a'') (CHR ''z'') c \<or> in_range (CHR ''A'') (CHR ''Z'') c \<or>
     in_range (CHR ''0'') (CHR ''9'') c \<or> c = CHR ''-'' \<or> c = CHR ''_''"

fun match_ident :: "string \<Rightarrow> (string \<times> string) option" where
  "match_ident [] = None"
| "match_ident (c # cs) =
     (if ident_first c then Some (c # takeWhile ident_other cs, dropWhile ident_other cs) else None)"

text \<open>
  \<open>rep_min_max< 1, 15, digit >\<close> matches up to 15 digits and fails when another digit
  follows.
\<close>

definition match_index :: "string \<Rightarrow> (nat \<times> string) option" where
  "match_index s =
     (let ds = takeWhile is_digit s in
      if ds = [] \<or> length ds > 15 then None else Some (stoul ds, dropWhile is_digit s))"

definition at_quote :: "string \<Rightarrow> bool" where
  "at_quote s = (case s of [] \<Rightarrow> False | c # _ \<Rightarrow> c = CHR 0x27 \<or> c = CHR 0x22)"

definition match_quoted :: "quoted_matcher \<Rightarrow> string \<Rightarrow> string match" where
  "match_quoted qf s =
     (if at_quote s then
        (case qf s of
           None \<Rightarrow> Inl (Syntax_error ''quoted_choice'')
         | Some (t, n) \<Rightarrow> Inr (Some (t, drop n s)))
      else Inr None)"

definition match_key_first :: "quoted_matcher \<Rightarrow> string \<Rightarrow> key_part match" where
  "match_key_first qf s =
     (case match_ident s of
        Some (n, rest) \<Rightarrow> Inr (Some (Key_name n, rest))
      | None \<Rightarrow> rbind (match_quoted qf s) (\<lambda>m. Inr (map_option (\<lambda>(t, rest). (Key_name t, rest)) m)))"

definition match_key_other :: "quoted_matcher \<Rightarrow> string \<Rightarrow> key_part match" where
  "match_key_other qf s =
     (case match_ident s of
        Some (n, rest) \<Rightarrow> Inr (Some (Key_name n, rest))
      | None \<Rightarrow> rbind (match_quoted qf s) (\<lambda>m.
          case m of
            Some (t, rest) \<Rightarrow> Inr (Some (Key_name t, rest))
          | None \<Rightarrow> Inr (map_option (\<lambda>(i, rest). (Key_index i, rest)) (match_index s))))"

lemma match_ident_rest: "match_ident s = Some (n, rest) \<Longrightarrow> s = n @ rest \<and> n \<noteq> []"
  by (cases s) (auto split: if_splits)

lemma match_index_rest: "match_index s = Some (i, rest) \<Longrightarrow> length rest \<le> length s"
  by (auto simp: match_index_def Let_def length_dropWhile_le split: if_splits)

lemma match_quoted_rest:
  "match_quoted qf s = Inr (Some (t, rest)) \<Longrightarrow> length rest \<le> length s"
  by (auto simp: match_quoted_def split: if_splits option.splits)

lemma match_key_other_rest:
  assumes "match_key_other qf s = Inr (Some (p, rest))"
  shows "length rest \<le> length s"
proof -
  have "match_ident s = Some (n, rest) \<Longrightarrow> length rest \<le> length s" for n
    by (drule match_ident_rest) auto
  then show ?thesis using assms
    by (auto simp: match_key_other_def res_simps dest: match_index_rest match_quoted_rest
        split: option.splits)
qed

text \<open>\<open>star_must< dot, key_other >\<close>: after a dot, a part must follow.\<close>

function match_dotted :: "quoted_matcher \<Rightarrow> string \<Rightarrow> error + (key \<times> string)" where
  "match_dotted qf s =
     (case s of
        c # cs \<Rightarrow>
          if c = CHR ''.'' then
            rbind (match_key_other qf cs) (\<lambda>m.
              case m of
                None \<Rightarrow> Inl (Syntax_error ''key_other'')
              | Some (p, rest) \<Rightarrow> rbind (match_dotted qf rest) (\<lambda>(ps, end). Inr (p # ps, end)))
          else Inr ([], s)
      | [] \<Rightarrow> Inr ([], s))"
  by pat_completeness auto
termination
  by (relation "measure (\<lambda>(qf, s). length s)") (auto dest: match_key_other_rest)

declare match_dotted.simps [simp del]

text \<open>\<open>key::assign\<close> parses \<open>must< key_rule, eof >\<close>; the parts are appended to the vector.\<close>

definition parse_key :: "quoted_matcher \<Rightarrow> string \<Rightarrow> error + key" where
  "parse_key qf s =
     rbind (match_key_first qf s) (\<lambda>m.
       case m of
         None \<Rightarrow> Inl (Syntax_error ''key_rule'')
       | Some (p, rest) \<Rightarrow> rbind (match_dotted qf rest) (\<lambda>(ps, end).
           if end = [] then Inr (p # ps) else Inl (Syntax_error ''eof'')))"

section \<open>Printing keys\<close>

definition is_identifier :: "string \<Rightarrow> bool" where
  "is_identifier n = (case match_ident n of Some (_, rest) \<Rightarrow> rest = [] | None \<Rightarrow> False)"

definition name_to_string :: "(string \<Rightarrow> string) \<Rightarrow> string \<Rightarrow> string" where
  "name_to_string esc n =
     (if is_identifier n then n else [CHR 0x22] @ esc n @ [CHR 0x22])"

fun key_part_to_string :: "(string \<Rightarrow> string) \<Rightarrow> key_part \<Rightarrow> string" where
  "key_part_to_string esc (Key_name n) = name_to_string esc n"
| "key_part_to_string esc (Key_index i) = nat_to_string i"

fun key_to_string :: "(string \<Rightarrow> string) \<Rightarrow> key \<Rightarrow> string" where
  "key_to_string esc [] = []"
| "key_to_string esc (p # ps) =
     key_part_to_string esc p @ concat (map (\<lambda>q. CHR ''.'' # key_part_to_string esc q) ps)"

section \<open>Parsing what was printed\<close>

text \<open>What the round trip asks of taoJSON: the text of a quoted, escaped name is matched
  completely and unescapes to the name.\<close>

definition escapes :: "quoted_matcher \<Rightarrow> (string \<Rightarrow> string) \<Rightarrow> string \<Rightarrow> bool" where
  "escapes qf esc n \<longleftrightarrow>
     (\<forall>rest. qf ([CHR 0x22] @ esc n @ [CHR 0x22] @ rest) = Some (n, length (esc n) + 2))"

definition printable :: "quoted_matcher \<Rightarrow> (string \<Rightarrow> string) \<Rightarrow> key_part \<Rightarrow> bool" where
  "printable qf esc p =
     (case p of
        Key_name n \<Rightarrow> is_identifier n \<or> escapes qf esc n
      | Key_index i \<Rightarrow> i < 10 ^ 15)"

definition part_end :: "string \<Rightarrow> bool" where
  "part_end rest = (case rest of [] \<Rightarrow> True | c # _ \<Rightarrow> c = CHR ''.'')"

lemma match_ident_printed:
  assumes "is_identifier n" "part_end rest"
  shows "match_ident (n @ rest) = Some (n, rest)"
proof -
  from assms(1) obtain c cs where n: "n = c # cs" "ident_first c" "dropWhile ident_other cs = []"
    by (cases n) (auto simp: is_identifier_def split: if_splits)
  then have all: "\<forall>x \<in> set cs. ident_other x" by (simp add: dropWhile_eq_Nil_conv)
  have "rest = [] \<or> \<not> ident_other (hd rest)"
    using assms(2) by (cases rest) (auto simp: part_end_def ident_other_def less_eq_char_def)
  with all have "takeWhile ident_other (cs @ rest) = cs" "dropWhile ident_other (cs @ rest) = rest"
    by (cases rest; simp)+
  with n show ?thesis by simp
qed

lemma match_ident_not_first: "\<not> ident_first c \<Longrightarrow> match_ident (c # cs) = None"
  by simp

lemma digit_not_ident_first: "is_digit c \<Longrightarrow> \<not> ident_first c"
  by (auto simp: is_digit_def ident_first_def less_eq_char_def)

lemma digit_not_quote: "is_digit c \<Longrightarrow> \<not> at_quote (c # cs)"
  by (auto simp: is_digit_def at_quote_def less_eq_char_def)

lemma match_index_printed:
  assumes "i < 10 ^ 15" "part_end rest"
  shows "match_index (nat_to_string i @ rest) = Some (i, rest)"
proof -
  have "list_all is_digit (nat_to_string i)" by (rule nat_to_string_digits)
  moreover have "rest = [] \<or> \<not> is_digit (hd rest)"
    using assms(2) by (cases rest) (auto simp: part_end_def is_digit_def less_eq_char_def)
  ultimately have "takeWhile is_digit (nat_to_string i @ rest) = nat_to_string i"
    "dropWhile is_digit (nat_to_string i @ rest) = rest"
    by (cases rest; simp add: list_all_iff)+
  moreover have "length (nat_to_string i) \<le> 15" using assms(1) by (intro length_nat_to_string) auto
  ultimately show ?thesis by (simp add: match_index_def)
qed

lemma match_quoted_printed:
  assumes "escapes qf esc n"
  shows "match_quoted qf ([CHR 0x22] @ esc n @ [CHR 0x22] @ rest) = Inr (Some (n, rest))"
proof -
  have "qf ([CHR 0x22] @ esc n @ [CHR 0x22] @ rest) = Some (n, length (esc n) + 2)"
    using assms by (simp add: escapes_def)
  then show ?thesis by (simp add: match_quoted_def at_quote_def)
qed

lemma match_name_printed:
  assumes "is_identifier n \<or> escapes qf esc n" "part_end rest"
  shows "match_key_first qf (name_to_string esc n @ rest) = Inr (Some (Key_name n, rest))"
    and "match_key_other qf (name_to_string esc n @ rest) = Inr (Some (Key_name n, rest))"
proof -
  have "match_ident ([CHR 0x22] @ esc n @ [CHR 0x22] @ rest) = None"
    by (simp add: ident_first_def less_eq_char_def)
  with assms show "match_key_first qf (name_to_string esc n @ rest) = Inr (Some (Key_name n, rest))"
    "match_key_other qf (name_to_string esc n @ rest) = Inr (Some (Key_name n, rest))"
    using match_ident_printed [of n rest] match_quoted_printed [of qf esc n rest]
    by (auto simp: match_key_first_def match_key_other_def name_to_string_def)
qed

lemma match_key_other_printed:
  assumes "printable qf esc p" "part_end rest"
  shows "match_key_other qf (key_part_to_string esc p @ rest) = Inr (Some (p, rest))"
proof (cases p)
  case (Key_name n)
  with assms show ?thesis by (simp add: printable_def match_name_printed)
next
  case (Key_index i)
  have "is_digit (hd (nat_to_string i @ rest))" "nat_to_string i @ rest \<noteq> []"
    using nat_to_string_digits [of i] nat_to_string_nonempty [of i] by (auto simp: list_all_iff)
  then obtain c cs where c: "nat_to_string i @ rest = c # cs" "is_digit c"
    by (cases "nat_to_string i @ rest") auto
  then have "match_ident (c # cs) = None" "match_quoted qf (c # cs) = Inr None"
    using digit_not_ident_first digit_not_quote by (auto simp: match_quoted_def)
  moreover have "match_index (c # cs) = Some (i, rest)"
    using match_index_printed [of i rest] assms Key_index by (simp add: printable_def c(1))
  ultimately show ?thesis using Key_index c by (simp add: match_key_other_def)
qed

lemma match_dotted_printed:
  "\<forall>p \<in> set ps. printable qf esc p \<Longrightarrow>
     match_dotted qf (concat (map (\<lambda>q. CHR ''.'' # key_part_to_string esc q) ps)) = Inr (ps, [])"
proof (induction ps)
  case Nil
  then show ?case by (simp add: match_dotted.simps)
next
  case (Cons p ps)
  let ?rest = "concat (map (\<lambda>q. CHR ''.'' # key_part_to_string esc q) ps)"
  have "part_end ?rest" by (cases ps) (auto simp: part_end_def)
  with Cons show ?case
    by (subst match_dotted.simps) (simp add: match_key_other_printed)
qed

lemma parse_key_printed:
  assumes "k \<noteq> []" "key_part_kind (hd k) = KEY_name" "\<forall>p \<in> set k. printable qf esc p"
  shows "parse_key qf (key_to_string esc k) = Inr k"
proof -
  obtain n ps where k: "k = Key_name n # ps"
    using assms(1,2) by (cases k; cases "hd k") auto
  let ?rest = "concat (map (\<lambda>q. CHR ''.'' # key_part_to_string esc q) ps)"
  have "part_end ?rest" by (cases ps) (auto simp: part_end_def)
  moreover have "is_identifier n \<or> escapes qf esc n" using assms(3) k by (simp add: printable_def)
  ultimately have "match_key_first qf (name_to_string esc n @ ?rest) = Inr (Some (Key_name n, ?rest))"
    by (rule match_name_printed(1) [rotated])
  with assms(3) k show ?thesis by (simp add: parse_key_def match_dotted_printed)
qed

lemma match_index_value:
  assumes "match_index s = Some (i, rest)"
  shows "i < 10 ^ 15"
proof -
  let ?ds = "takeWhile is_digit s"
  have "stoul ?ds < 10 ^ length ?ds" by (intro stoul_bound) (auto simp: list_all_iff dest: set_takeWhileD)
  also have "length ?ds \<le> 15" using assms by (auto simp: match_index_def Let_def split: if_splits)
  then have "(10::nat) ^ length ?ds \<le> 10 ^ 15" by (rule power_increasing) simp
  finally show ?thesis using assms by (auto simp: match_index_def Let_def split: if_splits)
qed

section \<open>Properties\<close>

text \<open>C32: Round trip of keys: a key that starts with a name, whose indices have at most 15
  digits and whose names are identifiers or survive the escaping of taoJSON, is what parsing
  its printed form gives.\<close>

theorem parse_key_to_string:
  "k \<noteq> [] \<Longrightarrow> key_part_kind (hd k) = KEY_name \<Longrightarrow> \<forall>p \<in> set k. printable qf esc p \<Longrightarrow>
     parse_key qf (key_to_string esc k) = Inr k"
  by (rule parse_key_printed)

text \<open>A concrete stand-in for taoJSON: strings without escape sequences.\<close>

definition plain_quoted :: quoted_matcher where
  "plain_quoted s =
     (let t = takeWhile (\<lambda>c. c \<noteq> CHR 0x22) (tl s) in Some (t, length t + 2))"

lemma plain_quoted_escapes: "CHR 0x22 \<notin> set n \<Longrightarrow> escapes plain_quoted (\<lambda>s. s) n"
proof -
  assume "CHR 0x22 \<notin> set n"
  then have "takeWhile (\<lambda>c. c \<noteq> CHR 0x22) (n @ CHR 0x22 # rest) = n" for rest
    by (induction n) auto
  then show ?thesis by (simp add: escapes_def plain_quoted_def Let_def)
qed

theorem parse_key_to_string_witness:
  "parse_key plain_quoted
     (key_to_string (\<lambda>s. s) [Key_name ''a'', Key_index 7, Key_name ''b.c'']) =
   Inr [Key_name ''a'', Key_index 7, Key_name ''b.c'']"
proof (rule parse_key_to_string)
  have "is_identifier ''a''" by code_simp
  then show "\<forall>p \<in> set [Key_name ''a'', Key_index 7, Key_name ''b.c'']. printable plain_quoted (\<lambda>s. s) p"
    by (simp add: printable_def plain_quoted_escapes)
qed simp_all

definition key_part_index_ok :: "key_part \<Rightarrow> bool" where
  "key_part_index_ok p = (case p of Key_name n \<Rightarrow> True | Key_index i \<Rightarrow> i < 10 ^ 15)"

lemma match_key_other_index:
  "match_key_other qf s = Inr (Some (p, rest)) \<Longrightarrow> key_part_index_ok p"
  by (auto simp: match_key_other_def key_part_index_ok_def res_simps dest: match_index_value
      split: option.splits)

lemma match_dotted_index:
  "match_dotted qf s = Inr (k, rest) \<Longrightarrow> \<forall>p \<in> set k. key_part_index_ok p"
proof (induction qf s arbitrary: k rest rule: match_dotted.induct)
  case (1 qf s)
  show ?case
  proof (cases "\<exists>cs. s = CHR ''.'' # cs")
    case True
    then obtain cs where s: "s = CHR ''.'' # cs" by blast
    with 1(2) obtain p r ps where *: "match_key_other qf cs = Inr (Some (p, r))"
      "match_dotted qf r = Inr (ps, rest)" "k = p # ps"
      by (subst (asm) match_dotted.simps) (auto simp: res_simps split: option.splits)
    have "\<forall>q \<in> set ps. key_part_index_ok q"
      by (rule 1(1) [OF s refl *(1) refl refl *(2)])
    with match_key_other_index [OF *(1)] *(3) show ?thesis by simp
  next
    case False
    with 1(2) show ?thesis
      by (subst (asm) match_dotted.simps) (auto split: list.splits if_splits)
  qed
qed


text \<open>Every index of a parsed key is below ten to the fifteenth, so they fit into
  a \<open>std::size_t\<close>, and the first part of a parsed key is a name.\<close>

theorem parse_key_parts:
  "parse_key qf s = Inr k \<Longrightarrow>
     k \<noteq> [] \<and> key_part_kind (hd k) = KEY_name \<and> (\<forall>p \<in> set k. key_part_index_ok p)"
  by (auto simp: parse_key_def match_key_first_def res_simps key_part_index_ok_def
      dest!: match_dotted_index split: option.splits if_splits)

lemma example_key: "parse_key plain_quoted ''a.7'' = Inr [Key_name ''a'', Key_index 7]"
  by code_simp

theorem parse_key_parts_witness: "key_part_index_ok (Key_index 7)"
  using parse_key_parts [OF example_key] by simp

end
