(* ===== verification/Config_Access.thy ===== *)
theory Config_Access
  imports Config_Statistics Config_Key
begin

text \<open>
  The look-up of references, \<open>phase2_access.hpp\<close>. A reference is looked up from the
  innermost scope outwards: the path is what remains of the prefix, the scope, followed by
  the suffix, the reference. The counter \<open>down\<close> says how many parts of the scope are still
  to be walked minus one; as long as it is not negative a missing part means that the next
  scope is tried. The exception \<open>phase2_access_return\<close> ends the look-up without a result.
  Pointers to concats of the root are returned by value.
\<close>

type_synonym found = "error + concat option"

function phase2_access :: "concat \<Rightarrow> key1 \<Rightarrow> int \<Rightarrow> found"
  and phase2_access_part :: "concat \<Rightarrow> key1_part \<Rightarrow> key1 \<Rightarrow> int \<Rightarrow> found"
  and phase2_access_name :: "concat \<Rightarrow> position \<Rightarrow> string \<Rightarrow> key1 \<Rightarrow> int \<Rightarrow> found"
  and phase2_access_index :: "concat \<Rightarrow> position \<Rightarrow> nat \<Rightarrow> key1 \<Rightarrow> int \<Rightarrow> found" where
  "phase2_access c suffix down =
     (case suffix of
        part # rest \<Rightarrow> phase2_access_part c part rest down
      | [] \<Rightarrow> if is_primitive (statistics_of_concat c) then Inr (Some c) else Inl Access_return)"
| "phase2_access_part c part suffix down =
     (case part of
        K1_asterisk p \<Rightarrow> Inl (Parse_error ''unable to access asterisk'' p)
      | K1_name n p \<Rightarrow> phase2_access_name c p n suffix down
      | K1_index i p \<Rightarrow> phase2_access_index c p i suffix down
      | K1_append g p \<Rightarrow> Inl (Parse_error ''this should be impossible'' p))"
| "phase2_access_name c p name suffix down =
     (case concat_list c of
        [] \<Rightarrow> if down \<ge> 0 then Inr None else Inl Access_return
      | [e] \<Rightarrow>
          (case e of
             ARRAY a \<Rightarrow> if down \<ge> 0 then Inr None else Inl (Parse_error ''access name in array'' p)
           | OBJECT x \<Rightarrow>
               (case om_find name (object_map x) of
                  Some d \<Rightarrow> phase2_access d suffix (down - 1)
                | None \<Rightarrow> if down \<ge> 0 then Inr None else Inl (Parse_error ''name not found'' p))
           | ASTERISK d \<Rightarrow> if down \<ge> 0 then Inr None else Inl (Parse_error ''name not found'' p)
           | REFERENCE r \<Rightarrow> Inl Access_return
           | _ \<Rightarrow> Inl (Parse_error ''access name in value'' p))
      | _ \<Rightarrow> Inl Access_return)"
| "phase2_access_index c p index suffix down =
     (case concat_list c of
        [] \<Rightarrow> if down \<ge> 0 then Inr None else Inl Access_return
      | [e] \<Rightarrow>
          (case e of
             ARRAY a \<Rightarrow>
               if length (array_list a) > index
               then phase2_access (array_list a ! index) suffix (down - 1)
               else if down \<ge> 0 then Inr None else Inl (Parse_error ''index out of range'' p)
           | OBJECT x \<Rightarrow> Inl (Parse_error ''cannot index (across) object'' p)
           | ASTERISK d \<Rightarrow>
               if down \<ge> 0 then Inr None else Inl (Parse_error ''cannot index (across) asterisk'' p)
           | REFERENCE r \<Rightarrow> Inl (Parse_error ''cannot index (across) reference'' p)
           | _ \<Rightarrow> Inl (Parse_error ''cannot index (across) value'' p))
      | _ \<Rightarrow> Inl Access_return)"
  by pat_completeness auto
termination
  by (relation "measure (case_sum
        (case_sum (\<lambda>(c, s, d). 3 * length s) (\<lambda>(c, q, s, d). 3 * length s + 2))
        (case_sum (\<lambda>(c, p, n, s, d). 3 * length s + 1) (\<lambda>(c, p, i, s, d). 3 * length s + 1)))") auto

lemmas access_simps = phase2_access.simps phase2_access_part.simps phase2_access_name.simps
  phase2_access_index.simps

declare access_simps [simp del]

text \<open>
  One iteration of the loop over the scopes, with \<open>n\<close> parts of the prefix left, and the
  loop. \<open>get_name\<close> asserts that the part is a name.
\<close>

definition get_name :: "key1_part \<Rightarrow> error + string" where
  "get_name part = (case part of K1_name n p \<Rightarrow> Inr n | _ \<Rightarrow> Inl (Assert_failed ''s != nullptr''))"

definition access_scope :: "object \<Rightarrow> key1 \<Rightarrow> key1 \<Rightarrow> nat \<Rightarrow> found" where
  "access_scope x prefix suffix n =
     (let down = int n; path = key_append (take n prefix) suffix in
      rbind (get_name (hd path)) (\<lambda>name.
        case om_find name (object_map x) of
          Some c \<Rightarrow> rbind (pop_front path) (\<lambda>rest. phase2_access c rest (down - 1))
        | None \<Rightarrow> Inr None))"

fun access_scopes :: "object \<Rightarrow> key1 \<Rightarrow> key1 \<Rightarrow> nat \<Rightarrow> found" where
  "access_scopes x prefix suffix n =
     rbind (access_scope x prefix suffix n) (\<lambda>r.
       case r of
         Some c \<Rightarrow> Inr (Some c)
       | None \<Rightarrow> (case n of 0 \<Rightarrow> Inr None | Suc m \<Rightarrow> access_scopes x prefix suffix m))"

declare access_scopes.simps [simp del]

definition phase2_access_object :: "object \<Rightarrow> key1 \<Rightarrow> key1 \<Rightarrow> found" where
  "phase2_access_object x prefix suffix =
     (if suffix = [] then Inl (Assert_failed ''!suffix.empty()'')
      else
        (case access_scopes x prefix suffix (length prefix) of
           Inl Access_return \<Rightarrow> Inr None
         | r \<Rightarrow> r))"

section \<open>What is found\<close>

text \<open>
  The specification of a path: every concat on the way has one entry, an object with the
  name or an array with the index.
\<close>

fun value_step :: "key1_part \<Rightarrow> concat \<Rightarrow> concat option" where
  "value_step (K1_name n p) (Concat h [OBJECT x]) = om_find n (object_map x)"
| "value_step (K1_index i p) (Concat h [ARRAY a]) =
     (if i < length (array_list a) then Some (array_list a ! i) else None)"
| "value_step part c = None"

fun value_at :: "key1 \<Rightarrow> concat \<Rightarrow> concat option" where
  "value_at [] c = Some c"
| "value_at (part # path) c =
     (case value_step part c of None \<Rightarrow> None | Some d \<Rightarrow> value_at path d)"

fun object_value_at :: "key1 \<Rightarrow> object \<Rightarrow> concat option" where
  "object_value_at (K1_name n p # path) x =
     (case om_find n (object_map x) of None \<Rightarrow> None | Some c \<Rightarrow> value_at path c)"
| "object_value_at path x = None"

lemma phase2_access_Nil:
  "phase2_access c [] down = Inr r \<longleftrightarrow> primitive_concat c \<and> r = Some c"
  by (auto simp: access_simps statistics_primitive)

lemma phase2_access_part_of:
  "phase2_access c (part # rest) down = phase2_access_part c part rest down"
  by (simp add: phase2_access.simps)

lemma phase2_access_Cons:
  "phase2_access c (part # rest) down =
     (case value_step part c of
        Some d \<Rightarrow> phase2_access d rest (down - 1)
      | None \<Rightarrow> phase2_access c (part # rest) down)"
  by (cases "(part, c)" rule: value_step.cases)
    (auto simp: phase2_access_part_of phase2_access_part.simps
      phase2_access_name.simps phase2_access_index.simps split: option.splits)

text \<open>A step that fails while \<open>down\<close> is negative is an exception.\<close>

lemma phase2_access_stuck:
  assumes "value_step part c = None" "phase2_access c (part # rest) down = Inr r"
  shows "down \<ge> 0 \<and> r = None"
proof (cases c)
  case (Concat h es)
  with assms show ?thesis
    by (cases part)
      (auto simp: phase2_access_part_of phase2_access_part.simps
        phase2_access_name.simps phase2_access_index.simps
        split: list.splits entry.splits option.splits if_splits)
qed

lemma phase2_access_found:
  "phase2_access c suffix down = Inr (Some d) \<Longrightarrow> value_at suffix c = Some d \<and> primitive_concat d"
proof (induction suffix arbitrary: c down)
  case Nil
  then show ?case by (simp add: phase2_access_Nil)
next
  case (Cons part rest)
  then show ?case
    using phase2_access_stuck [of part c rest down "Some d"]
      phase2_access_Cons [of c part rest down]
    by (cases "value_step part c") auto
qed

text \<open>Once the scope has been left behind the look-up does not turn back.\<close>

lemma phase2_access_committed:
  "down < 0 \<Longrightarrow> phase2_access c suffix down \<noteq> Inr None"
proof (induction suffix arbitrary: c down)
  case Nil
  then show ?case by (simp add: phase2_access_Nil)
next
  case (Cons part rest)
  then show ?case
    using phase2_access_stuck [of part c rest down None] phase2_access_Cons [of c part rest down]
    by (cases "value_step part c") auto
qed

lemma phase2_access_no_result:
  "phase2_access c suffix down = Inr None \<Longrightarrow> value_at (take (nat (down + 1)) suffix) c = None"
proof (induction suffix arbitrary: c down)
  case Nil
  then show ?case by (simp add: phase2_access_Nil)
next
  case (Cons part rest)
  then have "down \<ge> 0" using phase2_access_committed [of down c "part # rest"] by fastforce
  then have take: "take (nat (down + 1)) (part # rest) = part # take (nat down) rest"
    by (simp add: nat_add_distrib)
  show ?case
  proof (cases "value_step part c")
    case (Some d)
    then have "phase2_access d rest (down - 1) = Inr None"
      using Cons.prems phase2_access_Cons [of c part rest down] by simp
    with Cons.IH [of d "down - 1"] Some take show ?thesis by simp
  qed (use take in simp)
qed

section \<open>The scopes\<close>

lemma object_value_at_Cons:
  "object_value_at path x = (case path of
      K1_name n p # rest \<Rightarrow> (case om_find n (object_map x) of None \<Rightarrow> None | Some c \<Rightarrow> value_at rest c)
    | _ \<Rightarrow> None)"
  by (cases "(path, x)" rule: object_value_at.cases) auto

lemma get_name_Inr: "get_name part = Inr n \<longleftrightarrow> (\<exists>p. part = K1_name n p)"
  by (cases part) (auto simp: get_name_def)

lemma access_scope_Inr:
  assumes "suffix \<noteq> []"
  shows "access_scope x prefix suffix n = Inr r \<longleftrightarrow>
    (\<exists>name p rest. key_append (take n prefix) suffix = K1_name name p # rest \<and>
       (case om_find name (object_map x) of
          None \<Rightarrow> r = None
        | Some c \<Rightarrow> phase2_access c rest (int n - 1) = Inr r))"
proof -
  have "key_append (take n prefix) suffix \<noteq> []" using assms by (simp add: key_append_def)
  then obtain part rest where "key_append (take n prefix) suffix = part # rest"
    by (cases "key_append (take n prefix) suffix") auto
  then show ?thesis
    by (cases part)
      (auto simp: access_scope_def Let_def get_name_def pop_front_def split: option.splits)
qed

lemma access_scope_found:
  assumes "suffix \<noteq> []" "access_scope x prefix suffix n = Inr (Some d)"
  shows "object_value_at (take n prefix @ suffix) x = Some d \<and> primitive_concat d"
  using assms phase2_access_found
  by (fastforce simp: access_scope_Inr key_append_def split: option.splits)

lemma access_scope_no_result:
  assumes "suffix \<noteq> []" "n \<le> length prefix" "access_scope x prefix suffix n = Inr None"
  shows "object_value_at (take n prefix @ [hd suffix]) x = None"
proof -
  obtain name p rest where path: "take n prefix @ suffix = K1_name name p # rest"
    and *: "case om_find name (object_map x) of
          None \<Rightarrow> True
        | Some c \<Rightarrow> phase2_access c rest (int n - 1) = Inr None"
    using assms(3) by (auto simp: access_scope_Inr [OF assms(1)] key_append_def split: option.splits)
  have "take n prefix @ [hd suffix] = take (Suc n) (take n prefix @ suffix)"
    using assms(1,2) by (cases suffix) (auto simp: min_def)
  then have "take n prefix @ [hd suffix] = K1_name name p # take n rest" by (simp add: path)
  with * show ?thesis
    by (auto dest!: phase2_access_no_result simp: object_value_at_Cons split: option.splits)
qed

lemma access_scopes_found_iff:
  "access_scopes x prefix suffix n = Inr (Some d) \<longleftrightarrow>
     access_scope x prefix suffix n = Inr (Some d) \<or>
     access_scope x prefix suffix n = Inr None \<and>
       (\<exists>m. n = Suc m \<and> access_scopes x prefix suffix m = Inr (Some d))"
  by (subst access_scopes.simps) (auto simp: res_simps split: option.splits nat.splits)

lemma access_scopes_Inl_iff:
  "access_scopes x prefix suffix n = Inl e \<longleftrightarrow>
     access_scope x prefix suffix n = Inl e \<or>
     access_scope x prefix suffix n = Inr None \<and>
       (\<exists>m. n = Suc m \<and> access_scopes x prefix suffix m = Inl e)"
  by (subst access_scopes.simps) (auto simp: rbind_Inl_iff split: option.splits nat.splits)

lemma access_scopes_found:
  assumes "suffix \<noteq> []" "n \<le> length prefix" "access_scopes x prefix suffix n = Inr (Some d)"
  shows "\<exists>m \<le> n. object_value_at (take m prefix @ suffix) x = Some d \<and> primitive_concat d \<and>
    (\<forall>k. m < k \<and> k \<le> n \<longrightarrow> object_value_at (take k prefix @ [hd suffix]) x = None)"
  using assms(2,3)
proof (induction n)
  case 0
  then have "access_scope x prefix suffix 0 = Inr (Some d)"
    by (auto simp: access_scopes_found_iff [of x prefix suffix 0])
  with access_scope_found [OF assms(1)] show ?case by fastforce
next
  case (Suc n)
  then consider "access_scope x prefix suffix (Suc n) = Inr (Some d)"
    | "access_scope x prefix suffix (Suc n) = Inr None" "access_scopes x prefix suffix n = Inr (Some d)"
    by (auto simp: access_scopes_found_iff [of x prefix suffix "Suc n"])
  then show ?case
  proof cases
    case 1
    with access_scope_found [OF assms(1)] show ?thesis
      by (intro exI [of _ "Suc n"]) auto
  next
    case 2
    obtain m where m: "m \<le> n" "object_value_at (take m prefix @ suffix) x = Some d" "primitive_concat d"
      "\<forall>k. m < k \<and> k \<le> n \<longrightarrow> object_value_at (take k prefix @ [hd suffix]) x = None"
      using Suc.IH 2(2) Suc.prems(1) by auto
    moreover have "object_value_at (take (Suc n) prefix @ [hd suffix]) x = None"
      by (rule access_scope_no_result [OF assms(1) Suc.prems(1) 2(1)])
    ultimately show ?thesis by (intro exI [of _ m]) (auto simp: le_Suc_eq)
  qed
qed

lemma phase2_access_object_found:
  assumes "phase2_access_object x prefix suffix = Inr (Some d)"
  shows "\<exists>m \<le> length prefix. object_value_at (take m prefix @ suffix) x = Some d \<and> primitive_concat d \<and>
    (\<forall>k. m < k \<and> k \<le> length prefix \<longrightarrow> object_value_at (take k prefix @ [hd suffix]) x = None)"
proof -
  have "suffix \<noteq> []" "access_scopes x prefix suffix (length prefix) = Inr (Some d)"
    using assms by (auto simp: phase2_access_object_def split: if_splits sum.splits error.splits)
  then show ?thesis by (intro access_scopes_found) auto
qed

text \<open>What is found is a node of the root, so it inherits the properties of the nodes.\<close>

lemma value_at_all: "all_concat P c \<Longrightarrow> value_at path c = Some d \<Longrightarrow> all_concat P d"
proof (induction path arbitrary: c)
  case (Cons part path)
  then obtain e where e: "value_step part c = Some e" "value_at path e = Some d"
    by (auto split: option.splits)
  have "all_concat P e"
    using Cons.prems(1) e(1)
    by (cases "(part, c)" rule: value_step.cases)
      (auto split: if_splits dest: all_object_find all_array_nth)
  with Cons.IH e(2) show ?case by blast
qed simp

lemma object_value_at_all:
  "all_object P x \<Longrightarrow> object_value_at path x = Some d \<Longrightarrow> all_concat P d"
  by (auto simp: object_value_at_Cons split: list.splits key1_part.splits option.splits
      dest: all_object_find value_at_all)

lemma phase2_access_object_primitive:
  "phase2_access_object x prefix suffix = Inr (Some d) \<Longrightarrow> primitive_concat d"
  using phase2_access_object_found by blast

lemma phase2_access_object_all:
  "phase2_access_object x prefix suffix = Inr (Some d) \<Longrightarrow> all_object P x \<Longrightarrow> all_concat P d"
  using phase2_access_object_found object_value_at_all by blast

section \<open>Errors\<close>

text \<open>The look-up itself only throws parse errors and the exception for control flow.\<close>

lemma phase2_access_errors:
  "phase2_access c suffix down = Inl e \<Longrightarrow> e = Access_return \<or> (\<exists>t p. e = Parse_error t p)"
proof (induction suffix arbitrary: c down)
  case Nil
  then show ?case by (auto simp: access_simps split: if_splits)
next
  case (Cons part rest)
  show ?case
  proof (cases "value_step part c")
    case None
    with Cons.prems show ?thesis
      by (cases c; cases part)
        (auto simp: phase2_access_part_of phase2_access_part.simps phase2_access_name.simps
          phase2_access_index.simps split: list.splits entry.splits option.splits if_splits)
  next
    case (Some d)
    with Cons.IH [of d "down - 1"] Cons.prems phase2_access_Cons [of c part rest down]
    show ?thesis by simp
  qed
qed

definition names_only :: "key1 \<Rightarrow> bool" where
  "names_only k \<longleftrightarrow> (\<forall>part \<in> set k. key1_part_kind part = KEY1_name)"

lemma kind_name_get_name: "key1_part_kind part = KEY1_name \<Longrightarrow> \<exists>n. get_name part = Inr n"
  by (cases part) (auto simp: get_name_def)

lemma access_scope_errors:
  assumes "suffix \<noteq> []" "access_scope x prefix suffix n = Inl e"
  shows "e = Access_return \<or> (\<exists>t p. e = Parse_error t p) \<or>
    e = Assert_failed ''s != nullptr'' \<and> key1_part_kind (hd (take n prefix @ suffix)) \<noteq> KEY1_name"
  using assms phase2_access_errors
  by (cases "hd (take n prefix @ suffix)")
    (fastforce simp: access_scope_def Let_def rbind_Inl_iff key_append_def pop_front_def get_name_def
      split: option.splits)+

lemma access_scopes_errors:
  assumes "suffix \<noteq> []" "access_scopes x prefix suffix n = Inl e"
  shows "e = Access_return \<or> (\<exists>t p. e = Parse_error t p) \<or>
    e = Assert_failed ''s != nullptr'' \<and>
      (\<exists>m \<le> n. key1_part_kind (hd (take m prefix @ suffix)) \<noteq> KEY1_name)"
  using assms(2)
proof (induction n)
  case 0
  then show ?case using access_scope_errors [OF assms(1), of x prefix 0 e]
    by (auto simp: access_scopes_Inl_iff [of x prefix suffix 0])
next
  case (Suc n)
  then show ?case using access_scope_errors [OF assms(1), of x prefix "Suc n" e]
    by (auto simp: access_scopes_Inl_iff [of x prefix suffix "Suc n"] le_Suc_eq)
qed

lemma phase2_access_object_errors:
  assumes "suffix \<noteq> []" "phase2_access_object x prefix suffix = Inl e"
  shows "(\<exists>t p. e = Parse_error t p) \<or>
    e = Assert_failed ''s != nullptr'' \<and>
      (\<exists>m \<le> length prefix. key1_part_kind (hd (take m prefix @ suffix)) \<noteq> KEY1_name)"
  using assms access_scopes_errors [OF assms(1), of x prefix "length prefix"]
  by (auto simp: phase2_access_object_def split: sum.splits error.splits)

lemma phase2_access_object_parse_errors:
  assumes "suffix \<noteq> []" "key1_part_kind (hd suffix) = KEY1_name"
    and "prefix = [] \<or> key1_part_kind (hd prefix) = KEY1_name"
    and "phase2_access_object x prefix suffix = Inl e"
  shows "\<exists>t p. e = Parse_error t p"
proof -
  have "key1_part_kind (hd (take m prefix @ suffix)) = KEY1_name" for m
    using assms(1-3) by (cases prefix; cases m) auto
  with phase2_access_object_errors [OF assms(1,4)] show ?thesis by auto
qed

section \<open>Properties\<close>

text \<open>C18: Scoping of references: a look-up that finds a value finds it in the innermost scope
  that has the first part of the reference, at the path made of that scope and the whole
  reference, and the value is primitive. So an outer value is never found when an inner
  scope has a member of that name.\<close>

theorem reference_scoping:
  "phase2_access_object x prefix suffix = Inr (Some d) \<Longrightarrow>
     \<exists>m \<le> length prefix. object_value_at (take m prefix @ suffix) x = Some d \<and> primitive_concat d \<and>
       (\<forall>k. m < k \<and> k \<le> length prefix \<longrightarrow> object_value_at (take k prefix @ [hd suffix]) x = None)"
  by (rule phase2_access_object_found)

abbreviation scope_example :: object where
  "scope_example \<equiv> Object
     [(''a'', Concat (head (concat_init no_position)) [OBJECT (Object
        [(''b'', Concat (head (concat_init no_position)) [REFERENCE [R2_name ''c'' no_position]])] no_position)]),
      (''c'', Concat (head (concat_init no_position)) [NULL no_position])] no_position"

lemma scope_example_found:
  "phase2_access_object scope_example [K1_name ''a'' no_position] [K1_name ''c'' no_position] =
     Inr (Some (Concat (head (concat_init no_position)) [NULL no_position]))"
  by code_simp

theorem reference_scoping_witness:
  "primitive_concat (Concat (head (concat_init no_position)) [NULL no_position])"
  using reference_scoping [OF scope_example_found] by blast

text \<open>The asserts of the look-up: with a scope made of names and a reference that starts
  with a name no assertion can fail, every exception is a parse error.\<close>

theorem reference_lookup_safe:
  "suffix \<noteq> [] \<Longrightarrow> key1_part_kind (hd suffix) = KEY1_name \<Longrightarrow>
     prefix = [] \<or> key1_part_kind (hd prefix) = KEY1_name \<Longrightarrow>
     phase2_access_object x prefix suffix = Inl e \<Longrightarrow> \<exists>t p. e = Parse_error t p"
  by (rule phase2_access_object_parse_errors)

theorem reference_lookup_safe_witness:
  "\<exists>t p. Parse_error ''access name in value'' no_position = Parse_error t p"
proof -
  have "phase2_access_object scope_example [] [K1_name ''c'' no_position, K1_name ''d'' no_position] =
      Inl (Parse_error ''access name in value'' no_position)" by code_simp
  then show ?thesis by (rule reference_lookup_safe [rotated 3]) simp_all
qed

end
