(* ===== verification/Config_References.thy ===== *)
theory Config_References
  imports Config_Access
begin

text \<open>
  The second pass of phase two, \<open>phase2_references.hpp\<close>: every reference whose target
  is already primitive is replaced by a copy of it. The pass walks through the root and
  changes it in place, so a look-up sees the replacements made before it. The loops of the
  model carry the part already processed, \<open>done\<close>, and the rest of the root as a
  function \<open>root\<close> that puts the current list back into its place; what a look-up sees is
  \<open>root (done @ e # todo)\<close>.

  The assertion that the found concat is not the one that is being changed compares
  addresses; the model compares the contents, which fails at least as often. That it never
  fails is part of lemma \<open>replace_reference_errors\<close> below.
\<close>

section \<open>The target of a reference\<close>

function process_reference_part :: "object \<Rightarrow> key1 \<Rightarrow> reference2_part \<Rightarrow> error + key1_part option"
  and process_reference_suffix :: "object \<Rightarrow> key1 \<Rightarrow> reference2 \<Rightarrow> error + key1 option"
  and process_reference_parts :: "object \<Rightarrow> key1 \<Rightarrow> reference2 \<Rightarrow> error + concat option"
  and process_inner_reference :: "object \<Rightarrow> key1 \<Rightarrow> reference2 \<Rightarrow> error + key1_part option" where
  "process_reference_part x prefix part =
     (case part of
        R2_name n p \<Rightarrow> Inr (Some (K1_name n p))
      | R2_index i p \<Rightarrow> Inr (Some (K1_index i p))
      | R2_vector r p \<Rightarrow> process_inner_reference x prefix r)"
| "process_reference_suffix x prefix [] = Inr (Some [])"
| "process_reference_suffix x prefix (part # parts) =
     rbind (process_reference_part x prefix part) (\<lambda>k.
       case k of
         None \<Rightarrow> Inr None
       | Some q \<Rightarrow>
           rbind (process_reference_suffix x prefix parts) (\<lambda>s. Inr (map_option (Cons q) s)))"
| "process_reference_parts x prefix reference =
     rbind (process_reference_suffix x prefix reference) (\<lambda>s.
       case s of
         None \<Rightarrow> Inr None
       | Some suffix \<Rightarrow>
           if prefix = [] then Inl (Assert_failed ''!prefix.empty()'')
           else rbind (pop_back prefix) (\<lambda>scope. phase2_access_object x scope suffix))"
| "process_inner_reference x prefix reference =
     rbind (process_reference_parts x prefix reference) (\<lambda>c.
       case c of
         None \<Rightarrow> Inr None
       | Some d \<Rightarrow>
           if length (concat_list d) = 1 then
             (case last (concat_list d) of
                STRING s p \<Rightarrow> Inr (Some (K1_name s p))
              | UNSIGNED u p \<Rightarrow> Inr (Some (K1_index (unat u) p))
              | e \<Rightarrow> Inl (Parse_error
                  (''invalid type '' @ [CHR 0x27] @ entry_kind_to_string (kind e) @ [CHR 0x27] @
                   '' for reference part'') (entry_position e)))
           else Inr None)"
  by pat_completeness auto
termination
  by (relation "measure (case_sum
        (case_sum (\<lambda>(x, k, p). 3 * size p) (\<lambda>(x, k, r). 3 * size_list size r))
        (case_sum (\<lambda>(x, k, r). 3 * size_list size r + 1) (\<lambda>(x, k, r). 3 * size_list size r + 2)))") auto

lemmas reference_simps = process_reference_part.simps process_reference_suffix.simps
  process_reference_parts.simps process_inner_reference.simps

declare reference_simps [simp del]

text \<open>
  The body of the loop in \<open>process_concat\<close> for an entry that is a reference; \<open>c\<close> is the
  concat that the entry is in.
\<close>

definition replace_reference ::
  "object \<Rightarrow> key1 \<Rightarrow> concat \<Rightarrow> reference2 \<Rightarrow> error + (entry \<times> nat)" where
  "replace_reference x prefix c r =
     rbind (process_reference_parts x prefix r) (\<lambda>found.
       case found of
         None \<Rightarrow> Inr (REFERENCE r, 0)
       | Some d \<Rightarrow>
           if d = c then Inl (Assert_failed ''d != &c'')
           else if concat_list d = [] then Inr (REFERENCE r, 0)
           else if length (concat_list d) \<noteq> 1 then Inl (Assert_failed ''d->concat.size() == 1'')
           else Inr (hd (concat_list d), 1))"

section \<open>The pass\<close>

function (sequential) references_entry ::
    "key1 \<Rightarrow> position \<Rightarrow> concat \<Rightarrow> (entry \<Rightarrow> object) \<Rightarrow> entry \<Rightarrow> error + (entry \<times> nat)"
  and references_entries ::
    "key1 \<Rightarrow> position \<Rightarrow> concat_head \<Rightarrow> (entry list \<Rightarrow> object) \<Rightarrow> entry list \<Rightarrow> entry list \<Rightarrow>
      error + (entry list \<times> nat)"
  and references_elements ::
    "key1 \<Rightarrow> position \<Rightarrow> nat \<Rightarrow> (concat list \<Rightarrow> object) \<Rightarrow> concat list \<Rightarrow> concat list \<Rightarrow>
      error + (concat list \<times> nat)"
  and references_members ::
    "key1 \<Rightarrow> position \<Rightarrow> ((string \<times> concat) list \<Rightarrow> object) \<Rightarrow> (string \<times> concat) list \<Rightarrow>
      (string \<times> concat) list \<Rightarrow> error + ((string \<times> concat) list \<times> nat)" where
  "references_entry prefix rp c root (REFERENCE r) =
     replace_reference (root (REFERENCE r)) prefix c r"
| "references_entry prefix rp c root (ARRAY (Array f cs p)) =
     rbind (references_elements prefix rp 0 (\<lambda>ds. root (ARRAY (Array f ds p))) [] cs)
       (\<lambda>(cs', n). Inr (ARRAY (Array f cs' p), n))"
| "references_entry prefix rp c root (OBJECT (Object ms p)) =
     rbind (references_members prefix rp (\<lambda>ns. root (OBJECT (Object ns p))) [] ms)
       (\<lambda>(ms', n). Inr (OBJECT (Object ms' p), n))"
| "references_entry prefix rp c root e = Inr (e, 0)"
| "references_entries prefix rp h root done [] = Inr (done, 0)"
| "references_entries prefix rp h root done (e # todo) =
     rbind (references_entry prefix rp (Concat h (done @ e # todo)) (\<lambda>e'. root (done @ e' # todo)) e)
       (\<lambda>(e', n).
          rbind (references_entries prefix rp h root (done @ [e']) todo) (\<lambda>(es, k). Inr (es, n + k)))"
| "references_elements prefix rp i root done [] = Inr (done, 0)"
| "references_elements prefix rp i root done (Concat h es # todo) =
     rbind (references_entries (key_append_part prefix (K1_index i rp)) rp h
         (\<lambda>fs. root (done @ Concat h fs # todo)) [] es)
       (\<lambda>(es', n).
          rbind (references_elements prefix rp (i + 1) root (done @ [Concat h es']) todo)
            (\<lambda>(cs, k). Inr (cs, n + k)))"
| "references_members prefix rp root done [] = Inr (done, 0)"
| "references_members prefix rp root done ((k, Concat h es) # todo) =
     rbind (references_entries (key_append_part prefix (K1_name k rp)) rp h
         (\<lambda>fs. root (done @ (k, Concat h fs) # todo)) [] es)
       (\<lambda>(es', n).
          rbind (references_members prefix rp root (done @ [(k, Concat h es')]) todo)
            (\<lambda>(ms, j). Inr (ms, n + j)))"
  by pat_completeness auto
termination
  by (relation "measure (case_sum (case_sum
        (\<lambda>(prefix, rp, c, root, e). size e)
        (\<lambda>(prefix, rp, h, root, done, todo). size_list size todo))
        (case_sum (\<lambda>(prefix, rp, i, root, done, todo). size_list size todo)
          (\<lambda>(prefix, rp, root, done, todo). size_list (size_prod (\<lambda>_. 0) size) todo)))") auto

lemmas references_simps = references_entry.simps references_entries.simps references_elements.simps
  references_members.simps

definition phase2_references :: "object \<Rightarrow> error + (object \<times> nat)" where
  "phase2_references x =
     rbind (references_members [] (object_position x) (\<lambda>ms. Object ms (object_position x)) [] (object_map x))
       (\<lambda>(ms, n). Inr (Object ms (object_position x), n))"

section \<open>One replacement\<close>

lemma process_reference_parts_found:
  "process_reference_parts x prefix r = Inr (Some d) \<Longrightarrow>
     \<exists>suffix. phase2_access_object x (butlast prefix) suffix = Inr (Some d)"
  by (auto simp: process_reference_parts.simps res_simps pop_back_def split: option.splits if_splits)

lemma replace_reference_cases:
  assumes "replace_reference x prefix c r = Inr (e', n)"
  obtains (same) "e' = REFERENCE r" "n = 0"
  | (replaced) "n = 1" "primitive_entry e'" "\<And>P. all_object P x \<Longrightarrow> all_entry P e'"
proof -
  obtain found where found: "process_reference_parts x prefix r = Inr found"
    using assms by (auto simp: replace_reference_def res_simps)
  show thesis
  proof (cases "e' = REFERENCE r \<and> n = 0")
    case False
    with assms found obtain d where d: "found = Some d" "length (concat_list d) = 1"
      "e' = hd (concat_list d)" "n = 1"
      by (auto simp: replace_reference_def split: option.splits if_splits)
    then obtain suffix where "phase2_access_object x (butlast prefix) suffix = Inr (Some d)"
      using found process_reference_parts_found by blast
    moreover have "e' \<in> set (concat_list d)" using d(2,3) by (cases "concat_list d") auto
    ultimately show thesis using replaced d(4) phase2_access_object_primitive
        phase2_access_object_all all_concat_list by blast
  qed (use same in blast)
qed

section \<open>What the pass changes\<close>

text \<open>
  The contract of the weights of the four counters: a plain node has none, and the weight of
  any other node depends on its shape, not on the contents of its list. Every replacement
  then removes one reference, and nothing else that is counted.
\<close>

locale shape_weight =
  fixes w :: "node \<Rightarrow> nat" and k :: nat
  assumes plain: "plain_node n \<Longrightarrow> w n = 0"
    and reference: "w (Node_entry (REFERENCE r)) = k"
    and array: "length cs' = length cs \<Longrightarrow> w (Node_array (Array f cs' p)) = w (Node_array (Array f cs p))"
    and list: "length es' = length es \<Longrightarrow> w (Node_concat (Concat h es')) = w (Node_concat (Concat h es))"
begin

lemma count_primitive: "primitive_entry e \<Longrightarrow> count_entry w e = 0"
  using all_mono(1) [of plain_node "\<lambda>n. w n = 0" e] plain by (simp add: count_zero_iff(1))

lemma count_replaced:
  "replace_reference x prefix c r = Inr (e', n) \<Longrightarrow> count_entry w e' + n * k = k"
  by (erule replace_reference_cases) (simp_all add: reference count_primitive)

lemma references_count:
  "references_entry prefix rp c rt e = Inr (e', n) \<Longrightarrow> count_entry w e' + n * k = count_entry w e"
  "references_entries prefix rp h rte ds es = Inr (es', n) \<Longrightarrow>
     \<exists>fs. es' = ds @ fs \<and> length fs = length es \<and>
       (\<Sum>e \<leftarrow> fs. count_entry w e) + n * k = (\<Sum>e \<leftarrow> es. count_entry w e)"
  "references_elements prefix rp i rtc dcs cs = Inr (cs', n) \<Longrightarrow>
     \<exists>fs. cs' = dcs @ fs \<and> length fs = length cs \<and>
       (\<Sum>c \<leftarrow> fs. count_concat w c) + n * k = (\<Sum>c \<leftarrow> cs. count_concat w c)"
  "references_members prefix rp rtm dms ms = Inr (ms', n) \<Longrightarrow>
     \<exists>fs. ms' = dms @ fs \<and> map fst fs = map fst ms \<and>
       (\<Sum>(k, c) \<leftarrow> fs. count_concat w c) + n * k = (\<Sum>(k, c) \<leftarrow> ms. count_concat w c)"
proof (induction prefix rp c rt e and prefix rp h rte ds es and prefix rp i rtc dcs cs
    and prefix rp rtm dms ms arbitrary: e' n and es' n and cs' n and ms' n
    rule: references_entry_references_entries_references_elements_references_members.induct)
  case (1 prefix rp c root r)
  then show ?case using count_replaced by (simp add: reference references_simps)
next
  case (2 prefix rp c root f cs p)
  from 2(2) obtain ds where *: "e' = ARRAY (Array f ds p)"
    "references_elements prefix rp 0 (\<lambda>ds. root (ARRAY (Array f ds p))) [] cs = Inr (ds, n)"
    by (auto simp: references_simps res_simps)
  with 2(1) [OF *(2)] array [of ds cs f p] show ?case by (simp add: plain)
next
  case (3 prefix rp c root ms p)
  then show ?case by (auto simp: references_simps res_simps plain split: prod.splits)
next
  case (6 prefix rp h root ds e todo)
  from 6(3) obtain e1 n1 es1 n2 where *:
    "references_entry prefix rp (Concat h (ds @ e # todo)) (\<lambda>e'. root (ds @ e' # todo)) e = Inr (e1, n1)"
    "references_entries prefix rp h root (ds @ [e1]) todo = Inr (es1, n2)"
    "es' = es1" "n = n1 + n2"
    by (auto simp: references_simps res_simps)
  from 6(1) [OF *(1)] 6(2) [OF *(1) refl *(2)] *(3,4) show ?case
    by (auto simp: add_mult_distrib)
next
  case (8 prefix rp i root ds h es todo)
  from 8(3) obtain es1 n1 cs1 n2 where *:
    "references_entries (key_append_part prefix (K1_index i rp)) rp h
         (\<lambda>fs. root (ds @ Concat h fs # todo)) [] es = Inr (es1, n1)"
    "references_elements prefix rp (i + 1) root (ds @ [Concat h es1]) todo = Inr (cs1, n2)"
    "cs' = cs1" "n = n1 + n2"
    by (auto simp: references_simps res_simps)
  from 8(1) [OF *(1)] list [of es1 es h] have "count_concat w (Concat h es1) + n1 * k = count_concat w (Concat h es)"
    by simp
  with 8(2) [OF *(1) refl *(2)] *(3,4) show ?case by (auto simp: add_mult_distrib)
next
  case (10 prefix rp root ds m h es todo)
  from 10(3) obtain es1 n1 ms1 n2 where *:
    "references_entries (key_append_part prefix (K1_name m rp)) rp h
         (\<lambda>fs. root (ds @ (m, Concat h fs) # todo)) [] es = Inr (es1, n1)"
    "references_members prefix rp root (ds @ [(m, Concat h es1)]) todo = Inr (ms1, n2)"
    "ms' = ms1" "n = n1 + n2"
    by (auto simp: references_simps res_simps)
  from 10(1) [OF *(1)] list [of es1 es h] have "count_concat w (Concat h es1) + n1 * k = count_concat w (Concat h es)"
    by simp
  with 10(2) [OF *(1) refl *(2)] *(3,4) show ?case by (auto simp: add_mult_distrib)
qed (auto simp: references_simps)

lemma phase2_references_count:
  "phase2_references x = Inr (y, n) \<Longrightarrow> count_object w y + n * k = count_object w x"
  by (cases x) (auto simp: phase2_references_def res_simps plain dest!: references_count(4))

end

interpretation references_w_reference: shape_weight w_reference 1
  by unfold_locales (simp_all add: plain_node_weights)

interpretation references_w_asterisk: shape_weight w_asterisk 0
  by unfold_locales (simp_all add: plain_node_weights)

interpretation references_w_function: shape_weight w_function 0
  by unfold_locales (simp_all add: plain_node_weights)

interpretation references_w_addition: shape_weight w_addition 0
  by unfold_locales (simp_all add: plain_node_weights)

text \<open>Without a replacement nothing changes.\<close>

lemma references_zero:
  "references_entry prefix rp c rt e = Inr (e', 0) \<Longrightarrow> e' = e"
  "references_entries prefix rp h rte ds es = Inr (es', 0) \<Longrightarrow> es' = ds @ es"
  "references_elements prefix rp i rtc dcs cs = Inr (cs', 0) \<Longrightarrow> cs' = dcs @ cs"
  "references_members prefix rp rtm dms ms = Inr (ms', 0) \<Longrightarrow> ms' = dms @ ms"
proof (induction prefix rp c rt e and prefix rp h rte ds es and prefix rp i rtc dcs cs
    and prefix rp rtm dms ms arbitrary: e' and es' and cs' and ms'
    rule: references_entry_references_entries_references_elements_references_members.induct)
  case (1 prefix rp c root r)
  then show ?case by (auto simp: references_simps elim: replace_reference_cases)
next
  case (6 prefix rp h root ds e todo)
  from 6(3) obtain e1 where *:
    "references_entry prefix rp (Concat h (ds @ e # todo)) (\<lambda>e'. root (ds @ e' # todo)) e = Inr (e1, 0)"
    "references_entries prefix rp h root (ds @ [e1]) todo = Inr (es', 0)"
    by (auto simp: references_simps res_simps)
  from 6(1) [OF *(1)] 6(2) [OF *(1) refl *(2)] show ?case by simp
next
  case (8 prefix rp i root ds h es todo)
  from 8(3) obtain es1 where *:
    "references_entries (key_append_part prefix (K1_index i rp)) rp h
         (\<lambda>fs. root (ds @ Concat h fs # todo)) [] es = Inr (es1, 0)"
    "references_elements prefix rp (i + 1) root (ds @ [Concat h es1]) todo = Inr (cs', 0)"
    by (auto simp: references_simps res_simps)
  from 8(1) [OF *(1)] 8(2) [OF *(1) refl *(2)] show ?case by simp
next
  case (10 prefix rp root ds m h es todo)
  from 10(3) obtain es1 where *:
    "references_entries (key_append_part prefix (K1_name m rp)) rp h
         (\<lambda>fs. root (ds @ (m, Concat h fs) # todo)) [] es = Inr (es1, 0)"
    "references_members prefix rp root (ds @ [(m, Concat h es1)]) todo = Inr (ms', 0)"
    by (auto simp: references_simps res_simps)
  from 10(1) [OF *(1)] 10(2) [OF *(1) refl *(2)] show ?case by simp
qed (fastforce simp: references_simps res_simps)+

lemma phase2_references_zero: "phase2_references x = Inr (y, 0) \<Longrightarrow> y = x"
  by (cases x) (auto simp: phase2_references_def res_simps dest!: references_zero(4))

text \<open>
  The maps stay sorted: the copies come from the root as it is at that moment, which is
  well-formed whenever the list that is being rebuilt is.
\<close>

lemma references_wf:
  "references_entry prefix rp c rt e = Inr (e', n) \<Longrightarrow> wf_entry e \<Longrightarrow>
     (\<And>f. wf_entry f \<Longrightarrow> wf_object (rt f)) \<Longrightarrow> wf_entry e'"
  "references_entries prefix rp h rte ds es = Inr (es', n) \<Longrightarrow>
     \<forall>e \<in> set (ds @ es). wf_entry e \<Longrightarrow>
     (\<And>fs. \<forall>f \<in> set fs. wf_entry f \<Longrightarrow> wf_object (rte fs)) \<Longrightarrow> \<forall>e \<in> set es'. wf_entry e"
  "references_elements prefix rp i rtc dcs cs = Inr (cs', n) \<Longrightarrow>
     \<forall>c \<in> set (dcs @ cs). wf_concat c \<Longrightarrow>
     (\<And>fs. \<forall>f \<in> set fs. wf_concat f \<Longrightarrow> wf_object (rtc fs)) \<Longrightarrow> \<forall>c \<in> set cs'. wf_concat c"
  "references_members prefix rp rtm dms ms = Inr (ms', n) \<Longrightarrow>
     om_inv (dms @ ms) \<Longrightarrow> \<forall>(k, c) \<in> set (dms @ ms). wf_concat c \<Longrightarrow>
     (\<And>fs. om_inv fs \<Longrightarrow> \<forall>(k, c) \<in> set fs. wf_concat c \<Longrightarrow> wf_object (rtm fs)) \<Longrightarrow>
     om_inv ms' \<and> (\<forall>(k, c) \<in> set ms'. wf_concat c)"
proof (induction prefix rp c rt e and prefix rp h rte ds es and prefix rp i rtc dcs cs
    and prefix rp rtm dms ms arbitrary: e' n and es' n and cs' n and ms' n
    rule: references_entry_references_entries_references_elements_references_members.induct)
  case (1 prefix rp c root r)
  then show ?case by (auto simp: references_simps elim!: replace_reference_cases)
next
  case (2 prefix rp c root f cs p)
  from 2(2) obtain ds where *: "e' = ARRAY (Array f ds p)"
    "references_elements prefix rp 0 (\<lambda>ds. root (ARRAY (Array f ds p))) [] cs = Inr (ds, n)"
    by (auto simp: references_simps res_simps)
  with 2(1) [OF *(2)] 2(3,4) show ?case by simp
next
  case (3 prefix rp c root ms p)
  from 3(2) obtain ds where *: "e' = OBJECT (Object ds p)"
    "references_members prefix rp (\<lambda>ns. root (OBJECT (Object ns p))) [] ms = Inr (ds, n)"
    by (auto simp: references_simps res_simps)
  with 3(1) [OF *(2)] 3(3,4) show ?case by simp
next
  case (6 prefix rp h root ds e todo)
  from 6(3) obtain e1 n1 es1 n2 where *:
    "references_entry prefix rp (Concat h (ds @ e # todo)) (\<lambda>e'. root (ds @ e' # todo)) e = Inr (e1, n1)"
    "references_entries prefix rp h root (ds @ [e1]) todo = Inr (es1, n2)"
    "es' = es1" "n = n1 + n2"
    by (auto simp: references_simps res_simps)
  have "wf_entry e1" by (rule 6(1) [OF *(1)]) (use 6(4,5) in auto)
  then show ?case unfolding *(3) by (intro 6(2) [OF *(1) refl *(2)]) (use 6(4,5) in auto)
next
  case (8 prefix rp i root ds h es todo)
  from 8(3) obtain es1 n1 cs1 n2 where *:
    "references_entries (key_append_part prefix (K1_index i rp)) rp h
         (\<lambda>fs. root (ds @ Concat h fs # todo)) [] es = Inr (es1, n1)"
    "references_elements prefix rp (i + 1) root (ds @ [Concat h es1]) todo = Inr (cs1, n2)"
    "cs' = cs1" "n = n1 + n2"
    by (auto simp: references_simps res_simps)
  have "\<forall>e \<in> set es1. wf_entry e" by (rule 8(1) [OF *(1)]) (use 8(4,5) in auto)
  then show ?case unfolding *(3) by (intro 8(2) [OF *(1) refl *(2)]) (use 8(4,5) in auto)
next
  case (10 prefix rp root ds m h es todo)
  from 10(3) obtain es1 n1 ms1 n2 where *:
    "references_entries (key_append_part prefix (K1_name m rp)) rp h
         (\<lambda>fs. root (ds @ (m, Concat h fs) # todo)) [] es = Inr (es1, n1)"
    "references_members prefix rp root (ds @ [(m, Concat h es1)]) todo = Inr (ms1, n2)"
    "ms' = ms1" "n = n1 + n2"
    by (auto simp: references_simps res_simps)
  have keys: "om_inv (ds @ (m, Concat h fs) # todo)" for fs
    using om_inv_same_keys [of "ds @ (m, Concat h fs) # todo" "ds @ (m, Concat h es) # todo"] 10(4)
    by simp
  have "\<forall>e \<in> set es1. wf_entry e" by (rule 10(1) [OF *(1)]) (use 10(5,6) keys in auto)
  then show ?case unfolding *(3) by (intro 10(2) [OF *(1) refl *(2)]) (use 10(5,6) keys in auto)
qed (simp_all add: references_simps)

lemma phase2_references_wf:
  assumes "phase2_references x = Inr (y, n)" "wf_object x"
  shows "wf_object y"
proof -
  obtain ms p where x: "x = Object ms p" by (cases x)
  with assms obtain ms' where *: "references_members [] p (\<lambda>ms. Object ms p) [] ms = Inr (ms', n)"
    "y = Object ms' p"
    by (auto simp: phase2_references_def res_simps)
  have "om_inv ms' \<and> (\<forall>(k, c) \<in> set ms'. wf_concat c)"
    by (rule references_wf(4) [OF *(1)]) (use assms(2) x in auto)
  with *(2) show ?thesis by simp
qed

section \<open>The assertions\<close>

text \<open>
  A reference of a config file has at least one part. It is rooted when it starts with a
  name, and so do the references nested in it.
\<close>

fun rooted_reference :: "reference2 \<Rightarrow> bool" and rooted_part :: "reference2_part \<Rightarrow> bool"
  and rooted_tail :: "reference2 \<Rightarrow> bool" where
  "rooted_reference [] = False"
| "rooted_reference (part # parts) \<longleftrightarrow> (\<exists>n p. part = R2_name n p) \<and> rooted_tail parts"
| "rooted_part (R2_vector r p) = rooted_reference r"
| "rooted_part part = True"
| "rooted_tail [] = True"
| "rooted_tail (part # parts) \<longleftrightarrow> rooted_part part \<and> rooted_tail parts"

fun rooted_node :: "node \<Rightarrow> bool" where
  "rooted_node (Node_entry (REFERENCE r)) = rooted_reference r"
| "rooted_node n = True"

abbreviation named_scope :: "key1 \<Rightarrow> bool" where
  "named_scope prefix \<equiv> prefix \<noteq> [] \<and> key1_part_kind (hd prefix) = KEY1_name"

definition parse_error_only :: "error + 'a \<Rightarrow> bool" where
  "parse_error_only r \<longleftrightarrow> (\<forall>e. r = Inl e \<longrightarrow> (\<exists>t p. e = Parse_error t p))"

lemma parse_error_only_simps [simp]:
  "parse_error_only (Inr a)"
  "parse_error_only (Inl e) \<longleftrightarrow> (\<exists>t p. e = Parse_error t p)"
  by (auto simp: parse_error_only_def)

lemma parse_error_only_pure [simp]:
  "parse_error_only (rbind m (\<lambda>(a, k). Inr (f a k))) = parse_error_only m"
  by (cases m) (auto simp: parse_error_only_def)

lemma parse_error_only_rbind:
  "parse_error_only m \<Longrightarrow> (\<And>a. m = Inr a \<Longrightarrow> parse_error_only (f a)) \<Longrightarrow> parse_error_only (rbind m f)"
  by (cases m) auto

lemma rooted_suffix:
  assumes "rooted_reference r" "process_reference_suffix x prefix r = Inr (Some s)"
  shows "s \<noteq> [] \<and> key1_part_kind (hd s) = KEY1_name"
  using assms by (cases r) (auto simp: reference_simps res_simps)

lemma process_reference_parse_errors:
  "named_scope prefix \<Longrightarrow> rooted_part part \<Longrightarrow> parse_error_only (process_reference_part x prefix part)"
  "named_scope prefix \<Longrightarrow> rooted_tail parts \<Longrightarrow> parse_error_only (process_reference_suffix x prefix parts)"
  "named_scope prefix \<Longrightarrow> rooted_reference r \<Longrightarrow> parse_error_only (process_reference_parts x prefix r)"
  "named_scope prefix \<Longrightarrow> rooted_reference r' \<Longrightarrow> parse_error_only (process_inner_reference x prefix r')"
proof (induction x prefix part and x prefix parts and x prefix r and x prefix r'
    rule: process_reference_part_process_reference_suffix_process_reference_parts_process_inner_reference.induct)
  case (1 x prefix part)
  then show ?case by (cases part) (auto simp: reference_simps)
next
  case (3 x prefix part parts)
  then show ?case
    by (auto simp: process_reference_suffix.simps intro!: parse_error_only_rbind split: option.splits)
next
  case (4 x prefix reference)
  have tail: "rooted_tail reference" using 4(3) by (cases reference) auto
  have scope: "butlast prefix = [] \<or> key1_part_kind (hd (butlast prefix)) = KEY1_name"
    using 4(2) by (cases prefix) auto
  have "parse_error_only (phase2_access_object x (butlast prefix) s)"
    if "process_reference_suffix x prefix reference = Inr (Some s)" for s
    using rooted_suffix [OF 4(3) that] phase2_access_object_parse_errors [OF _ _ scope]
    by (auto simp: parse_error_only_def)
  with 4(1) [OF 4(2) tail] 4(2) show ?case
    by (auto simp: process_reference_parts.simps pop_back_def intro!: parse_error_only_rbind
        split: option.splits)
next
  case (5 x prefix reference)
  then show ?case
    by (auto simp: process_inner_reference.simps intro!: parse_error_only_rbind
        split: option.splits entry.splits)
qed (simp add: reference_simps)

lemma replace_reference_errors:
  assumes "named_scope prefix" "rooted_reference r" "REFERENCE r \<in> set (concat_list c)"
  shows "parse_error_only (replace_reference x prefix c r)"
  unfolding replace_reference_def
proof (rule parse_error_only_rbind [OF process_reference_parse_errors(3) [OF assms(1,2)]])
  fix found assume found: "process_reference_parts x prefix r = Inr found"
  have "d \<noteq> c \<and> length (concat_list d) \<le> 1" if "found = Some d" for d
  proof -
    have d: "primitive_concat d"
      using found that process_reference_parts_found phase2_access_object_primitive by blast
    then have "d \<noteq> c" using assms(3) all_concat_list by fastforce
    with d show ?thesis by (cases d rule: primitive_concat_cases) auto
  qed
  then show "parse_error_only (case found of
         None \<Rightarrow> Inr (REFERENCE r, 0)
       | Some d \<Rightarrow>
           if d = c then Inl (Assert_failed ''d != &c'')
           else if concat_list d = [] then Inr (REFERENCE r, 0)
           else if length (concat_list d) \<noteq> 1 then Inl (Assert_failed ''d->concat.size() == 1'')
           else Inr (hd (concat_list d), 1))"
    by (cases found) (auto simp: le_Suc_eq)
qed

lemma named_scope_append: "named_scope prefix \<Longrightarrow> named_scope (key_append_part prefix q)"
  by (cases prefix) (auto simp: key_append_part_def)

lemma references_errors:
  "named_scope prefix \<Longrightarrow> all_entry rooted_node e \<Longrightarrow> e \<in> set (concat_list c) \<Longrightarrow>
     parse_error_only (references_entry prefix rp c rt e)"
  "named_scope prefix \<Longrightarrow> \<forall>e \<in> set es. all_entry rooted_node e \<Longrightarrow>
     parse_error_only (references_entries prefix rp h rte ds es)"
  "named_scope prefix \<Longrightarrow> \<forall>c \<in> set cs. all_concat rooted_node c \<Longrightarrow>
     parse_error_only (references_elements prefix rp i rtc dcs cs)"
  "prefix = [] \<or> named_scope prefix \<Longrightarrow> \<forall>(k, c) \<in> set ms. all_concat rooted_node c \<Longrightarrow>
     parse_error_only (references_members prefix rp rtm dms ms)"
proof (induction prefix rp c rt e and prefix rp h rte ds es and prefix rp i rtc dcs cs
    and prefix rp rtm dms ms
    rule: references_entry_references_entries_references_elements_references_members.induct)
  case (1 prefix rp c root r)
  then show ?case using replace_reference_errors by (simp add: references_simps)
next
  case (2 prefix rp c root f cs p)
  then show ?case by (auto simp: references_simps intro!: parse_error_only_rbind)
next
  case (3 prefix rp c root ms p)
  then show ?case by (auto simp: references_simps intro!: parse_error_only_rbind)
next
  case (6 prefix rp h root ds e todo)
  then show ?case unfolding references_simps by (intro parse_error_only_rbind) auto
next
  case (8 prefix rp i root ds h es todo)
  then show ?case unfolding references_simps using named_scope_append [of prefix]
    by (intro parse_error_only_rbind) auto
next
  case (10 prefix rp root ds m h es todo)
  have "named_scope (key_append_part prefix (K1_name m rp))"
    using 10(3) named_scope_append by (auto simp: key_append_part_def)
  with 10 show ?case unfolding references_simps by (intro parse_error_only_rbind) auto
qed (simp_all add: references_simps)

lemma phase2_references_errors:
  "all_object rooted_node x \<Longrightarrow> parse_error_only (phase2_references x)"
  by (cases x) (auto simp: phase2_references_def intro!: parse_error_only_rbind references_errors(4))

section \<open>Properties\<close>

text \<open>C19: Progress of the pass over references: every counted change removes one reference,
  function calls, asterisks and pending additions are neither added nor removed, the maps
  stay sorted, and a pass that counts no change changes nothing.\<close>

theorem references_progress:
  "phase2_references x = Inr (y, n) \<Longrightarrow> wf_object x \<Longrightarrow>
     count_object w_reference y + n = count_object w_reference x \<and>
     count_object w_function y = count_object w_function x \<and>
     count_object w_asterisk y = count_object w_asterisk x \<and>
     count_object w_addition y = count_object w_addition x \<and>
     wf_object y \<and> (n = 0 \<longrightarrow> y = x)"
  using references_w_reference.phase2_references_count [of x y n]
    references_w_function.phase2_references_count [of x y n]
    references_w_asterisk.phase2_references_count [of x y n]
    references_w_addition.phase2_references_count [of x y n]
    phase2_references_wf [of x y n] phase2_references_zero [of x y]
  by auto

lemma scope_example_references:
  "phase2_references scope_example = Inr (Object
     [(''a'', Concat (head (concat_init no_position)) [OBJECT (Object
        [(''b'', Concat (head (concat_init no_position)) [NULL no_position])] no_position)]),
      (''c'', Concat (head (concat_init no_position)) [NULL no_position])] no_position, 1)"
  by code_simp

theorem references_progress_witness:
  "count_object w_reference scope_example = 1"
proof -
  have "wf_object scope_example" by (simp add: om_inv_def)
  from references_progress [OF scope_example_references this] show ?thesis by simp
qed

text \<open>C20: The assertions of the pass: when every reference, nested ones included, starts with
  a name, none of its assertions fails; whatever it throws is a parse error. In particular
  what a reference resolves to never contains the reference itself.\<close>

theorem references_safe:
  "all_object rooted_node x \<Longrightarrow> phase2_references x = Inl e \<Longrightarrow> \<exists>t p. e = Parse_error t p"
  using phase2_references_errors [of x] by (simp add: parse_error_only_def)

theorem references_safe_witness:
  "\<exists>t p. Parse_error ''access name in value'' no_position = Parse_error t p"
proof (rule references_safe)
  let ?x = "Object [(''a'', Concat (head (concat_init no_position)) [NULL no_position]),
    (''b'', Concat (head (concat_init no_position))
       [REFERENCE [R2_name ''a'' no_position, R2_name ''b'' no_position]])] no_position"
  show "all_object rooted_node ?x" by simp
  show "phase2_references ?x = Inl (Parse_error ''access name in value'' no_position)" by code_simp
qed

text \<open>The grammar allows a reference that starts with an index, as in \<open>foo = (0)\<close>; the
  pass then reads the index as a name, which violates an assertion (and dereferences a null
  pointer where assertions are disabled).\<close>

theorem index_reference_asserts:
  "phase2_references (Object [(name, Concat h [REFERENCE [R2_index i p]])] q) =
     Inl (Assert_failed ''s != nullptr'')"
  by (simp add: phase2_references_def references_simps replace_reference_def reference_simps
      key_append_part_def pop_back_def phase2_access_object_def access_scopes.simps
      access_scope_def key_append_def get_name_def)

end
