(* ===== verification/Config_Asterisks.thy ===== *)
theory Config_Asterisks
  imports Config_Statistics
begin

text \<open>
  The expansion of asterisks, \<open>phase2_asterisks.hpp\<close>: an asterisk in a concat applies to
  the elements of the arrays and to the members of the objects next to it. The pass
  descends only where a concat has no pending addition. The loop of \<open>process_concat\<close> goes
  through the list with the iterator between \<open>before\<close> and \<open>i\<close>; an asterisk changes
  arrays on both sides of it, erases itself when there is no object, and otherwise becomes
  an object.

  The pass terminates since an expansion copies entries only to places of the same depth:
  \<open>depth_entries\<close> of the entries still to be visited does not grow, and it is smaller for
  what the pass descends into.
\<close>

section \<open>Depth\<close>

fun depth_entry :: "entry \<Rightarrow> nat" and depth_array :: "array \<Rightarrow> nat" and depth_object :: "object \<Rightarrow> nat"
  and depth_concat :: "concat \<Rightarrow> nat" where
  "depth_entry (ARRAY a) = depth_array a"
| "depth_entry (OBJECT x) = depth_object x"
| "depth_entry (ASTERISK c) = Suc (depth_concat c)"
| "depth_entry e = 0"
| "depth_array (Array f cs p) = Suc (Max (insert 0 (set (map depth_concat cs))))"
| "depth_object (Object ms p) = Suc (Max (insert 0 (set (map (\<lambda>(k, c). depth_concat c) ms))))"
| "depth_concat (Concat h es) = Max (insert 0 (set (map depth_entry es)))"

definition depth_entries :: "entry list \<Rightarrow> nat" where
  "depth_entries es = Max (insert 0 (depth_entry ` set es))"

lemma depth_entries_le: "depth_entries es \<le> n \<longleftrightarrow> (\<forall>e \<in> set es. depth_entry e \<le> n)"
  by (simp add: depth_entries_def)

lemma depth_entries_in: "e \<in> set es \<Longrightarrow> depth_entry e \<le> depth_entries es"
  using depth_entries_le by blast

lemma depth_entries_Cons: "depth_entries (e # es) = max (depth_entry e) (depth_entries es)"
  by (rule antisym) (auto simp: depth_entries_le intro: depth_entries_in max.coboundedI2)

lemma depth_concat_list: "depth_concat c = depth_entries (concat_list c)"
  by (cases c) (simp add: depth_entries_def)

lemma depth_array_le: "depth_array (Array f cs p) \<le> n \<longleftrightarrow> 0 < n \<and> (\<forall>c \<in> set cs. depth_concat c < n)"
  by (cases n) (auto simp: less_Suc_eq_le)

lemma depth_object_le:
  "depth_object (Object ms p) \<le> n \<longleftrightarrow> 0 < n \<and> (\<forall>(k, c) \<in> set ms. depth_concat c < n)"
  by (cases n) (auto simp: less_Suc_eq_le)

lemma depth_array_in: "c \<in> set cs \<Longrightarrow> depth_concat c < depth_array (Array f cs p)"
  using depth_array_le [of f cs p "depth_array (Array f cs p)"] by blast

lemma depth_object_in: "(k, c) \<in> set ms \<Longrightarrow> depth_concat c < depth_object (Object ms p)"
  using depth_object_le [of ms p "depth_object (Object ms p)"] by blast

declare depth_array.simps [simp del] depth_object.simps [simp del] depth_concat.simps [simp del]

section \<open>Arrays next to an asterisk\<close>

definition asterisk_and_element :: "concat \<Rightarrow> concat \<Rightarrow> concat" where
  "asterisk_and_element s c =
     (if remove (head c) then c
      else Concat ((head c)\<lparr>remove := remove (head s),
                            temporary := temporary (head c) \<or> temporary (head s)\<rparr>)
             (concat_list s @ concat_list c))"

definition element_and_asterisk :: "concat \<Rightarrow> concat \<Rightarrow> concat" where
  "element_and_asterisk c s =
     (let h = (if remove (head s) then (head c)\<lparr>remove := True\<rparr> else head c);
          es = (if remove (head s) then [] else concat_list c)
      in Concat (h\<lparr>temporary := temporary (head c) \<or> temporary (head s)\<rparr>) (es @ concat_list s))"

definition process_asterisk_and_array :: "concat \<Rightarrow> array \<Rightarrow> array" where
  "process_asterisk_and_array s a =
     Array (array_function a) (map (asterisk_and_element s) (array_list a)) (array_position a)"

definition process_array_and_asterisk :: "array \<Rightarrow> concat \<Rightarrow> array" where
  "process_array_and_asterisk a s =
     Array (array_function a) (map (\<lambda>c. element_and_asterisk c s) (array_list a)) (array_position a)"

section \<open>One asterisk\<close>

text \<open>The body of the two loops, with the change \<open>f\<close> of an array.\<close>

definition visit_neighbour :: "(array \<Rightarrow> array) \<Rightarrow> entry \<Rightarrow> error + entry" where
  "visit_neighbour f e =
     (case e of
        ARRAY a \<Rightarrow>
          if array_function a \<noteq> []
          then Inl (Parse_error ''please do not use an asterisk inside of a function'' (array_position a))
          else Inr (ARRAY (f a))
      | _ \<Rightarrow> Inr e)"

definition neighbour_names :: "entry list \<Rightarrow> string set" where
  "neighbour_names es = (\<Union>e \<in> set es. case e of OBJECT x \<Rightarrow> set (om_keys (object_map x)) | _ \<Rightarrow> {})"

text \<open>
  The result is the list before the iterator, which includes the object made of the
  asterisk, and the list from the iterator on. The \<open>std::set\<close> of names is traversed in
  order.
\<close>

definition process_asterisk ::
  "entry list \<Rightarrow> concat \<Rightarrow> entry list \<Rightarrow> error + (entry list \<times> entry list)" where
  "process_asterisk before star after =
     rbind (map_res (visit_neighbour (\<lambda>a. process_array_and_asterisk a star)) before) (\<lambda>before'.
     rbind (map_res (visit_neighbour (process_asterisk_and_array star)) after) (\<lambda>after'.
       let names = sorted_list_of_set (neighbour_names before \<union> neighbour_names after) in
       if names = [] then Inr (before', after')
       else
         Inr (before' @ [OBJECT (Object (map (\<lambda>n. (n, star)) names) (concat_position (head star)))],
              after')))"

lemma depth_asterisk_and_element:
  "depth_concat (asterisk_and_element s c) \<le> max (depth_concat s) (depth_concat c)"
  by (auto simp: asterisk_and_element_def depth_concat_list depth_entries_le
      dest: depth_entries_in intro: max.coboundedI1 max.coboundedI2)

lemma depth_visit_after:
  assumes "visit_neighbour (process_asterisk_and_array star) e = Inr e'"
  shows "depth_entry e' \<le> max (Suc (depth_concat star)) (depth_entry e)"
proof (cases "\<exists>f cs p. e = ARRAY (Array f cs p)")
  case True
  then obtain f cs p where e: "e = ARRAY (Array f cs p)" by blast
  then have e': "e' = ARRAY (Array f (map (asterisk_and_element star) cs) p)"
    using assms by (auto simp: visit_neighbour_def process_asterisk_and_array_def split: if_splits)
  have "depth_concat (asterisk_and_element star c) < max (Suc (depth_concat star)) (depth_array (Array f cs p))"
    if "c \<in> set cs" for c
    using depth_asterisk_and_element [of star c] depth_array_in [OF that, of f p] by linarith
  with e e' show ?thesis by (auto simp: depth_array_le)
next
  case False
  then have "e' = e" using assms
    by (cases e) (auto simp: visit_neighbour_def split: array.splits if_splits, metis array.exhaust)
  then show ?thesis by simp
qed

lemma process_asterisk_after:
  assumes "process_asterisk before star after = Inr (before', after')"
  shows "length after' = length after"
    and "depth_entries after' \<le> depth_entries (ASTERISK star # after)"
proof -
  have *: "map_res (visit_neighbour (process_asterisk_and_array star)) after = Inr after'"
    using assms by (auto simp: process_asterisk_def res_simps Let_def split: if_splits)
  then show "length after' = length after"
    by (auto simp: map_res_Inr_iff dest: list_all2_lengthD)
  have "depth_entry e' \<le> depth_entries (ASTERISK star # after)" if e': "e' \<in> set after'" for e'
  proof -
    obtain e where "e \<in> set after" "visit_neighbour (process_asterisk_and_array star) e = Inr e'"
      using map_res_in [OF * e'] by blast
    then show ?thesis using depth_visit_after [of star e e'] depth_entries_in [of e "ASTERISK star # after"]
        depth_entries_in [of "ASTERISK star" "ASTERISK star # after"] by simp
  qed
  then show "depth_entries after' \<le> depth_entries (ASTERISK star # after)"
    by (simp add: depth_entries_le)
qed

section \<open>The pass\<close>

definition get_asterisk :: "entry \<Rightarrow> concat option" where
  "get_asterisk e = (case e of ASTERISK c \<Rightarrow> Some c | _ \<Rightarrow> None)"

lemma get_asterisk_simps [simp]:
  "get_asterisk (ASTERISK c) = Some c"
  "get_asterisk e = Some c \<longleftrightarrow> e = ASTERISK c"
  "get_asterisk e = None \<longleftrightarrow> kind e \<noteq> KIND_ASTERISK"
  by (cases e; auto simp: get_asterisk_def)+

function asterisks_concat :: "concat \<Rightarrow> error + (concat \<times> nat)"
  and asterisks_entries :: "entry list \<Rightarrow> entry list \<Rightarrow> error + (entry list \<times> nat)"
  and asterisks_entry :: "bool \<Rightarrow> entry \<Rightarrow> error + (entry \<times> nat)" where
  "asterisks_concat c =
     rbind (asterisks_entries [] (concat_list c)) (\<lambda>(es, n). Inr (Concat (head c) es, n))"
| "asterisks_entries before [] = Inr (before, 0)"
| "asterisks_entries before (i # after) =
     (case get_asterisk i of
        Some star \<Rightarrow>
          rbind (process_asterisk before star after) (\<lambda>(before', after').
            rbind (asterisks_entries before' after') (\<lambda>(es, n). Inr (es, n + 1)))
      | None \<Rightarrow>
          rbind (asterisks_entry (length (before @ i # after) = 1) i) (\<lambda>(e, n).
            rbind (asterisks_entries (before @ [e]) after) (\<lambda>(es, k). Inr (es, n + k))))"
| "asterisks_entry single e =
     (case e of
        ARRAY (Array f cs p) \<Rightarrow>
          if single then rbind (map_chg asterisks_concat cs) (\<lambda>(ds, n). Inr (ARRAY (Array f ds p), n))
          else Inr (e, 0)
      | OBJECT (Object ms p) \<Rightarrow>
          if single then rbind (map_chg (on_value_chg asterisks_concat) ms) (\<lambda>(ns, n). Inr (OBJECT (Object ns p), n))
          else Inr (e, 0)
      | _ \<Rightarrow> Inr (e, 0))"
  by pat_completeness auto
termination
proof (relation "measures
    [case_sum depth_concat (case_sum (\<lambda>(before, es). depth_entries es) (\<lambda>(single, e). depth_entry e)),
     case_sum (\<lambda>c. Suc (length (concat_list c)))
       (case_sum (\<lambda>(before, es). length es) (\<lambda>(single, e). 0))]")
qed (use process_asterisk_after in
      \<open>fastforce simp: depth_concat_list depth_array_in [unfolded depth_concat_list]
        depth_object_in [unfolded depth_concat_list] depth_entries_Cons\<close>)+

declare asterisks_concat.simps [simp del] asterisks_entries.simps(2) [simp del]
  asterisks_entry.simps [simp del]

lemmas asterisks_simps = asterisks_concat.simps asterisks_entries.simps asterisks_entry.simps

definition phase2_asterisks :: "object \<Rightarrow> error + (object \<times> nat)" where
  "phase2_asterisks x =
     rbind (map_chg (on_value_chg asterisks_concat) (object_map x))
       (\<lambda>(ms, n). Inr (Object ms (object_position x), n))"

section \<open>The steps as equivalences\<close>

lemma asterisks_concat_Inr:
  "asterisks_concat c = Inr (d, n) \<longleftrightarrow>
     (\<exists>es. asterisks_entries [] (concat_list c) = Inr (es, n) \<and> d = Concat (head c) es)"
  by (auto simp: asterisks_concat.simps res_simps)

lemma asterisks_entries_star:
  "asterisks_entries before (ASTERISK star # after) = Inr (es, n) \<longleftrightarrow>
     (\<exists>before' after' k. process_asterisk before star after = Inr (before', after') \<and>
        asterisks_entries before' after' = Inr (es, k) \<and> n = k + 1)"
  by (auto simp: asterisks_entries.simps res_simps)

lemma asterisks_entries_other:
  "kind i \<noteq> KIND_ASTERISK \<Longrightarrow>
     asterisks_entries before (i # after) = Inr (es, n) \<longleftrightarrow>
       (\<exists>e m k. asterisks_entry (length (before @ i # after) = 1) i = Inr (e, m) \<and>
          asterisks_entries (before @ [e]) after = Inr (es, k) \<and> n = m + k)"
proof -
  assume "kind i \<noteq> KIND_ASTERISK"
  then have "get_asterisk i = None" by simp
  then show ?thesis by (auto simp: asterisks_entries.simps(2) res_simps simp del: get_asterisk_simps)
qed

lemma asterisks_entry_cases:
  assumes "asterisks_entry single e = Inr (e', n)" "kind e \<noteq> KIND_ASTERISK"
  obtains (same) "e' = e" "n = 0"
  | (array) f cs ds p where "e = ARRAY (Array f cs p)" "e' = ARRAY (Array f ds p)" "single"
      "map_chg asterisks_concat cs = Inr (ds, n)"
  | (object) ms ns p where "e = OBJECT (Object ms p)" "e' = OBJECT (Object ns p)" "single"
      "map_chg (on_value_chg asterisks_concat) ms = Inr (ns, n)"
  using assms
  by (cases e) (auto simp: asterisks_entry.simps res_simps split: array.splits object.splits if_splits)

text \<open>An induction rule for successful runs.\<close>

lemma asterisks_induct [case_names Concat stop star other same array object]:
  assumes concat: "\<And>c es n. asterisks_entries [] (concat_list c) = Inr (es, n) \<Longrightarrow>
        B [] (concat_list c) es n \<Longrightarrow> C c (Concat (head c) es) n"
    and stop: "\<And>before. B before [] before 0"
    and star: "\<And>before star after before' after' es n.
        process_asterisk before star after = Inr (before', after') \<Longrightarrow>
        B before' after' es n \<Longrightarrow> B before (ASTERISK star # after) es (n + 1)"
    and other: "\<And>before i after e m es k. kind i \<noteq> KIND_ASTERISK \<Longrightarrow>
        asterisks_entry (length (before @ i # after) = 1) i = Inr (e, m) \<Longrightarrow>
        E (length (before @ i # after) = 1) i e m \<Longrightarrow> B (before @ [e]) after es k \<Longrightarrow>
        B before (i # after) es (m + k)"
    and same: "\<And>single e. kind e \<noteq> KIND_ASTERISK \<Longrightarrow> E single e e 0"
    and array: "\<And>f cs ds p n. map_chg asterisks_concat cs = Inr (ds, n) \<Longrightarrow>
        (\<And>c d m. c \<in> set cs \<Longrightarrow> asterisks_concat c = Inr (d, m) \<Longrightarrow> C c d m) \<Longrightarrow>
        E True (ARRAY (Array f cs p)) (ARRAY (Array f ds p)) n"
    and object: "\<And>ms ns p n. map_chg (on_value_chg asterisks_concat) ms = Inr (ns, n) \<Longrightarrow>
        (\<And>k c d m. (k, c) \<in> set ms \<Longrightarrow> asterisks_concat c = Inr (d, m) \<Longrightarrow> C c d m) \<Longrightarrow>
        E True (OBJECT (Object ms p)) (OBJECT (Object ns p)) n"
  shows "asterisks_concat c = Inr (d, n) \<Longrightarrow> C c d n"
    and "asterisks_entries before es = Inr (fs, m) \<Longrightarrow> B before es fs m"
    and "asterisks_entry single e = Inr (e', k) \<Longrightarrow> kind e \<noteq> KIND_ASTERISK \<Longrightarrow> E single e e' k"
proof (induction c and before es and single e arbitrary: d n and fs m and e' k
    rule: asterisks_concat_asterisks_entries_asterisks_entry.induct)
  case (1 c)
  then show ?case using concat by (auto simp: asterisks_concat_Inr)
next
  case (2 before)
  then show ?case using stop by simp
next
  case (3 before i after)
  show ?case
  proof (cases "get_asterisk i")
    case (Some star)
    then have i: "i = ASTERISK star" by simp
    from 3(4) obtain before' after' k where *:
      "process_asterisk before star after = Inr (before', after')"
      "asterisks_entries before' after' = Inr (fs, k)" "m = k + 1"
      unfolding i asterisks_entries_star by blast
    from star [OF *(1) 3(3) [OF Some *(1) refl *(2)]] show ?thesis by (simp add: i *(3))
  next
    case None
    then have kind: "kind i \<noteq> KIND_ASTERISK" by simp
    from 3(4) obtain e j k where *:
      "asterisks_entry (length (before @ i # after) = 1) i = Inr (e, j)"
      "asterisks_entries (before @ [e]) after = Inr (fs, k)" "m = j + k"
      unfolding asterisks_entries_other [OF kind] by blast
    show ?thesis unfolding *(3)
      by (rule other [OF kind *(1) 3(1) [OF None *(1) kind] 3(2) [OF None *(1) refl *(2)]])
  qed
next
  case (4 single e)
  from 4(3,4) show ?case
  proof (cases rule: asterisks_entry_cases)
    case same
    with assms(5) 4(4) show ?thesis by blast
  next
    case (array f cs ds p)
    have "C c d m" if "c \<in> set cs" "asterisks_concat c = Inr (d, m)" for c d m
      by (rule 4(1) [OF array(1) refl array(3) that(1) that(2)])
    with array assms(6) show ?thesis by simp
  next
    case (object ms ns p)
    have "C c d m" if "(k, c) \<in> set ms" "asterisks_concat c = Inr (d, m)" for k c d m
      by (rule 4(2) [OF object(1) refl object(3) that(1) refl that(2)])
    with object assms(7) show ?thesis by simp
  qed
qed

section \<open>One expansion\<close>

lemma process_asterisk_Inr:
  "process_asterisk before star after = Inr (before', after') \<longleftrightarrow>
     (\<exists>bs. list_all2 (\<lambda>e f. visit_neighbour (\<lambda>a. process_array_and_asterisk a star) e = Inr f) before bs \<and>
        list_all2 (\<lambda>e f. visit_neighbour (process_asterisk_and_array star) e = Inr f) after after' \<and>
        (let names = sorted_list_of_set (neighbour_names before \<union> neighbour_names after) in
         before' = bs @ (if names = [] then []
           else [OBJECT (Object (map (\<lambda>n. (n, star)) names) (concat_position (head star)))])))"
  by (auto simp: process_asterisk_def res_simps map_res_Inr_iff Let_def)

lemma visit_neighbour_kind: "visit_neighbour f e = Inr e' \<Longrightarrow> kind e' = kind e"
  by (cases e) (auto simp: visit_neighbour_def split: if_splits)

lemma visit_neighbour_cases:
  assumes "visit_neighbour f e = Inr e'"
  obtains (array) a where "e = ARRAY a" "e' = ARRAY (f a)" "array_function a = []"
  | (other) "e' = e" "kind e \<noteq> KIND_ARRAY"
  using assms by (cases e) (auto simp: visit_neighbour_def split: if_splits)

lemma list_all2_in: "list_all2 P xs ys \<Longrightarrow> y \<in> set ys \<Longrightarrow> \<exists>x \<in> set xs. P x y"
  by (induction rule: list_all2_induct) auto

lemma process_asterisk_in:
  assumes "process_asterisk before star after = Inr (before', after')"
  shows "e \<in> set before' \<Longrightarrow>
      (\<exists>x \<in> set before. visit_neighbour (\<lambda>a. process_array_and_asterisk a star) x = Inr e) \<or>
      (\<exists>names p. e = OBJECT (Object (map (\<lambda>n. (n, star)) names) p) \<and> sorted_wrt (<) names)"
    and "e \<in> set after' \<Longrightarrow> \<exists>x \<in> set after. visit_neighbour (process_asterisk_and_array star) x = Inr e"
proof -
  let ?names = "sorted_list_of_set (neighbour_names before \<union> neighbour_names after)"
  obtain bs where *: "list_all2 (\<lambda>e f. visit_neighbour (\<lambda>a. process_array_and_asterisk a star) e = Inr f) before bs"
    "list_all2 (\<lambda>e f. visit_neighbour (process_asterisk_and_array star) e = Inr f) after after'"
    "before' = bs @ (if ?names = [] then []
           else [OBJECT (Object (map (\<lambda>n. (n, star)) ?names) (concat_position (head star)))])"
    using assms unfolding process_asterisk_Inr Let_def by blast
  show "\<exists>x \<in> set after. visit_neighbour (process_asterisk_and_array star) x = Inr e"
    if "e \<in> set after'" using list_all2_in [OF *(2) that] .
  show "(\<exists>x \<in> set before. visit_neighbour (\<lambda>a. process_array_and_asterisk a star) x = Inr e) \<or>
      (\<exists>names p. e = OBJECT (Object (map (\<lambda>n. (n, star)) names) p) \<and> sorted_wrt (<) names)"
    if "e \<in> set before'"
  proof (cases "e \<in> set bs")
    case True
    with list_all2_in [OF *(1)] show ?thesis by blast
  next
    case False
    with that *(3) have "e = OBJECT (Object (map (\<lambda>n. (n, star)) ?names) (concat_position (head star)))"
      by (auto split: if_splits)
    moreover have "sorted_wrt (<) ?names" by simp
    ultimately show ?thesis by blast
  qed
qed

lemma wf_visit:
  assumes "wf_concat star" "wf_entry e"
  shows "visit_neighbour (\<lambda>a. process_array_and_asterisk a star) e = Inr e' \<Longrightarrow> wf_entry e'"
    and "visit_neighbour (process_asterisk_and_array star) e = Inr e' \<Longrightarrow> wf_entry e'"
proof -
  assume "visit_neighbour (\<lambda>a. process_array_and_asterisk a star) e = Inr e'"
  then show "wf_entry e'" using assms
    by (cases rule: visit_neighbour_cases)
      (auto simp: process_array_and_asterisk_def element_and_asterisk_def wf_concat_iff Let_def
        dest!: wf_array_elements)
next
  assume "visit_neighbour (process_asterisk_and_array star) e = Inr e'"
  then show "wf_entry e'" using assms
    by (cases rule: visit_neighbour_cases)
      (auto simp: process_asterisk_and_array_def asterisk_and_element_def wf_concat_iff
        dest!: wf_array_elements)
qed

lemma om_inv_map_names: "sorted_wrt (<) names \<Longrightarrow> om_inv (map (\<lambda>n. (n, v)) names)"
  by (simp add: om_inv_def comp_def)

lemma wf_process_asterisk:
  assumes "process_asterisk before star after = Inr (before', after')"
    and "\<forall>e \<in> set (before @ ASTERISK star # after). wf_entry e"
  shows "\<forall>e \<in> set before'. wf_entry e" "\<forall>e \<in> set after'. wf_entry e"
proof -
  have star: "wf_concat star" using assms(2) by simp
  show "\<forall>e \<in> set before'. wf_entry e"
  proof
    fix e assume "e \<in> set before'"
    from process_asterisk_in(1) [OF assms(1) this] show "wf_entry e"
      using wf_visit(1) [OF star] assms(2) star by (auto simp: om_inv_map_names)
  qed
  show "\<forall>e \<in> set after'. wf_entry e"
    using process_asterisk_in(2) [OF assms(1)] wf_visit(2) [OF star] assms(2) by auto
qed

section \<open>The whole pass\<close>

lemma asterisks_concat_wf: "asterisks_concat c = Inr (d, n) \<Longrightarrow> wf_concat c \<Longrightarrow> wf_concat d"
proof -
  have "asterisks_concat c = Inr (d, n) \<Longrightarrow> wf_concat c \<longrightarrow> wf_concat d"
  proof (rule asterisks_induct(1) [where
      C = "\<lambda>c d n. wf_concat c \<longrightarrow> wf_concat d" and
      B = "\<lambda>before es fs n. (\<forall>e \<in> set (before @ es). wf_entry e) \<longrightarrow> (\<forall>e \<in> set fs. wf_entry e)" and
      E = "\<lambda>single e e' n. wf_entry e \<longrightarrow> wf_entry e'"])
    fix before star after before' after' es n
    assume "process_asterisk before star after = Inr (before', after')"
      and "(\<forall>e \<in> set (before' @ after'). wf_entry e) \<longrightarrow> (\<forall>e \<in> set es. wf_entry e)"
    then show "(\<forall>e \<in> set (before @ ASTERISK star # after). wf_entry e) \<longrightarrow> (\<forall>e \<in> set es. wf_entry e)"
      using wf_process_asterisk by (metis Un_iff set_append)
  next
    fix f cs ds p n
    assume *: "map_chg asterisks_concat cs = Inr (ds, n)"
      "\<And>c d m. c \<in> set cs \<Longrightarrow> asterisks_concat c = Inr (d, m) \<Longrightarrow> wf_concat c \<longrightarrow> wf_concat d"
    show "wf_entry (ARRAY (Array f cs p)) \<longrightarrow> wf_entry (ARRAY (Array f ds p))"
      using map_chg_in [OF *(1)] *(2) by (auto, blast)
  next
    fix ms ns :: "(string \<times> concat) list" and p n
    assume *: "map_chg (on_value_chg asterisks_concat) ms = Inr (ns, n)"
      "\<And>k c d m. (k, c) \<in> set ms \<Longrightarrow> asterisks_concat c = Inr (d, m) \<Longrightarrow> wf_concat c \<longrightarrow> wf_concat d"
    have "om_inv ms = om_inv ns"
      using map_chg_on_value_keys [OF *(1)] om_inv_same_keys by metis
    then show "wf_entry (OBJECT (Object ms p)) \<longrightarrow> wf_entry (OBJECT (Object ns p))"
      using map_chg_on_value_in [OF *(1)] *(2) by fastforce
  next
    fix c es n
    assume "(\<forall>e \<in> set ([] @ concat_list c). wf_entry e) \<longrightarrow> (\<forall>e \<in> set es. wf_entry e)"
    then show "wf_concat c \<longrightarrow> wf_concat (Concat (head c) es)" by (simp add: wf_concat_iff)
  next
    fix before after es and i e :: entry
    assume step: "wf_entry i \<longrightarrow> wf_entry e" and
      rest: "(\<forall>e \<in> set ((before @ [e]) @ after). wf_entry e) \<longrightarrow> (\<forall>e \<in> set es. wf_entry e)"
    show "(\<forall>e \<in> set (before @ i # after). wf_entry e) \<longrightarrow> (\<forall>e \<in> set es. wf_entry e)"
    proof
      assume "\<forall>e \<in> set (before @ i # after). wf_entry e"
      with step have "\<forall>e \<in> set ((before @ [e]) @ after). wf_entry e" by auto
      with rest show "\<forall>e \<in> set es. wf_entry e" by (rule mp)
    qed
  qed auto
  then show "asterisks_concat c = Inr (d, n) \<Longrightarrow> wf_concat c \<Longrightarrow> wf_concat d" by blast
qed

lemma phase2_asterisks_wf:
  assumes "phase2_asterisks x = Inr (y, n)" "wf_object x"
  shows "wf_object y"
proof -
  obtain ms p where x: "x = Object ms p" by (cases x)
  with assms(1) obtain ns where y: "y = Object ns p" "map_chg (on_value_chg asterisks_concat) ms = Inr (ns, n)"
    by (auto simp: phase2_asterisks_def res_simps)
  have "om_inv ns" using map_chg_on_value_keys [OF y(2)] assms(2) x om_inv_same_keys by auto
  moreover have "wf_concat d" if "(k, d) \<in> set ns" for k d
    using map_chg_on_value_in [OF y(2) that] asterisks_concat_wf assms(2) x by fastforce
  ultimately show ?thesis using y(1) by auto
qed

lemma asterisks_concat_zero: "asterisks_concat c = Inr (d, n) \<Longrightarrow> n = 0 \<Longrightarrow> d = c"
proof -
  have "asterisks_concat c = Inr (d, n) \<Longrightarrow> n = 0 \<longrightarrow> d = c"
  proof (rule asterisks_induct(1) [where
      C = "\<lambda>c d n. n = 0 \<longrightarrow> d = c" and B = "\<lambda>before es fs n. n = 0 \<longrightarrow> fs = before @ es" and
      E = "\<lambda>single e e' n. n = 0 \<longrightarrow> e' = e"])
    fix f cs ds p n
    assume *: "map_chg asterisks_concat cs = Inr (ds, n)"
      "\<And>c d m. c \<in> set cs \<Longrightarrow> asterisks_concat c = Inr (d, m) \<Longrightarrow> m = 0 \<longrightarrow> d = c"
    then show "n = 0 \<longrightarrow> ARRAY (Array f ds p) = ARRAY (Array f cs p)"
      using map_chg_zero [of asterisks_concat cs ds] by auto
  next
    fix ms ns :: "(string \<times> concat) list" and p n
    assume *: "map_chg (on_value_chg asterisks_concat) ms = Inr (ns, n)"
      "\<And>k c d m. (k, c) \<in> set ms \<Longrightarrow> asterisks_concat c = Inr (d, m) \<Longrightarrow> m = 0 \<longrightarrow> d = c"
    have "ns = ms" if "n = 0"
      by (rule map_chg_zero [OF *(1) [unfolded that]]) (use *(2) in \<open>fastforce simp: res_simps\<close>)
    then show "n = 0 \<longrightarrow> OBJECT (Object ns p) = OBJECT (Object ms p)" by blast
  next
    fix c es n
    show "n = 0 \<longrightarrow> es = [] @ concat_list c \<Longrightarrow> n = 0 \<longrightarrow> Concat (head c) es = c"
      by (cases c) auto
  qed auto
  then show "asterisks_concat c = Inr (d, n) \<Longrightarrow> n = 0 \<Longrightarrow> d = c" by blast
qed

lemma asterisks_concat_gone:
  "asterisks_concat c = Inr (d, n) \<Longrightarrow> e \<in> set (concat_list d) \<Longrightarrow> kind e \<noteq> KIND_ASTERISK"
proof -
  have "asterisks_concat c = Inr (d, n) \<Longrightarrow> \<forall>e \<in> set (concat_list d). kind e \<noteq> KIND_ASTERISK"
  proof (rule asterisks_induct(1) [where
      C = "\<lambda>c d n. \<forall>e \<in> set (concat_list d). kind e \<noteq> KIND_ASTERISK" and
      B = "\<lambda>before es fs n. (\<forall>e \<in> set before. kind e \<noteq> KIND_ASTERISK) \<longrightarrow>
             (\<forall>e \<in> set fs. kind e \<noteq> KIND_ASTERISK)" and
      E = "\<lambda>single e e' n. kind e' \<noteq> KIND_ASTERISK"])
    fix before star after before' after' es n
    assume *: "process_asterisk before star after = Inr (before', after')"
      "(\<forall>e \<in> set before'. kind e \<noteq> KIND_ASTERISK) \<longrightarrow> (\<forall>e \<in> set es. kind e \<noteq> KIND_ASTERISK)"
    have "kind e \<noteq> KIND_ASTERISK" if "\<forall>e \<in> set before. kind e \<noteq> KIND_ASTERISK" "e \<in> set before'" for e
      using process_asterisk_in(1) [OF *(1) that(2)] that(1) visit_neighbour_kind
      by (metis kind.simps(9) entry_kind.distinct)
    with *(2) show "(\<forall>e \<in> set before. kind e \<noteq> KIND_ASTERISK) \<longrightarrow> (\<forall>e \<in> set es. kind e \<noteq> KIND_ASTERISK)"
      by blast
  qed auto
  then show "asterisks_concat c = Inr (d, n) \<Longrightarrow> e \<in> set (concat_list d) \<Longrightarrow> kind e \<noteq> KIND_ASTERISK"
    by blast
qed

lemma phase2_asterisks_zero: "phase2_asterisks x = Inr (y, 0) \<Longrightarrow> y = x"
proof (cases x)
  case (Object ms p)
  assume "phase2_asterisks x = Inr (y, 0)"
  with Object obtain ns where y: "y = Object ns p"
    "map_chg (on_value_chg asterisks_concat) ms = Inr (ns, 0)"
    by (auto simp: phase2_asterisks_def res_simps)
  have "ns = ms"
    by (rule map_chg_zero [OF y(2)]) (use asterisks_concat_zero in \<open>fastforce simp: res_simps\<close>)
  with y Object show "y = x" by simp
qed

lemma phase2_asterisks_members:
  "phase2_asterisks x = Inr (y, n) \<Longrightarrow> (k, d) \<in> set (object_map y) \<Longrightarrow>
     \<exists>c m. (k, c) \<in> set (object_map x) \<and> asterisks_concat c = Inr (d, m)"
  by (fastforce simp: phase2_asterisks_def res_simps dest: map_chg_on_value_in)

section \<open>The members and elements that an asterisk stands for\<close>

text \<open>An asterisk next to one object or array.\<close>

lemma om_find_map_names: "om_find n (map (\<lambda>n. (n, v)) names) = (if n \<in> set names then Some v else None)"
  by (induction names) auto

lemma asterisks_object:
  assumes "object_map x \<noteq> []"
  shows "asterisks_concat (Concat h [OBJECT x, ASTERISK s]) =
      Inr (Concat h [OBJECT x, OBJECT (Object
        (map (\<lambda>n. (n, s)) (sorted_list_of_set (set (om_keys (object_map x))))) (concat_position (head s)))], 1)"
    and "asterisks_concat (Concat h [ASTERISK s, OBJECT x]) =
      Inr (Concat h [OBJECT (Object
        (map (\<lambda>n. (n, s)) (sorted_list_of_set (set (om_keys (object_map x))))) (concat_position (head s))), OBJECT x], 1)"
  using assms
  by (cases x; simp add: asterisks_simps process_asterisk_def visit_neighbour_def neighbour_names_def
      Let_def om_keys_def get_asterisk_def)+

lemma asterisks_array:
  assumes "array_function a = []"
  shows "asterisks_concat (Concat h [ARRAY a, ASTERISK s]) =
      Inr (Concat h [ARRAY (process_array_and_asterisk a s)], 1)"
  using assms
  by (cases a) (simp add: asterisks_simps process_asterisk_def visit_neighbour_def neighbour_names_def
      Let_def get_asterisk_def)

section \<open>Properties\<close>

text \<open>C24: The pass over asterisks terminates and keeps the maps sorted, no concat of the root has
  an asterisk afterwards, and a pass that expands nothing changes nothing.\<close>

theorem asterisks_expanded:
  "phase2_asterisks x = Inr (y, n) \<Longrightarrow> wf_object x \<Longrightarrow>
     wf_object y \<and> (n = 0 \<longrightarrow> y = x) \<and>
     (\<forall>(k, d) \<in> set (object_map y). \<forall>e \<in> set (concat_list d). kind e \<noteq> KIND_ASTERISK)"
  using phase2_asterisks_wf [of x y n] phase2_asterisks_zero [of x y]
    phase2_asterisks_members [of x y n] asterisks_concat_gone
  by (auto split: prod.splits) blast

abbreviation star_example :: object where
  "star_example \<equiv> Object [(''a'', Concat (head (concat_init no_position))
     [OBJECT (Object [(''b'', Concat (head (concat_init no_position)) [NULL no_position])] no_position),
      ASTERISK (Concat (head (concat_init no_position)) [BOOLEAN True no_position])])] no_position"

lemma star_example_expanded:
  "phase2_asterisks star_example = Inr (Object [(''a'', Concat (head (concat_init no_position))
     [OBJECT (Object [(''b'', Concat (head (concat_init no_position)) [NULL no_position])] no_position),
      OBJECT (Object [(''b'', Concat (head (concat_init no_position)) [BOOLEAN True no_position])]
        no_position)])] no_position, 1)"
  by (simp add: phase2_asterisks_def on_value_chg_def asterisks_object om_keys_def concat_init_def)

theorem asterisks_expanded_witness: "wf_object star_example \<and> \<not> phase2_asterisks star_example = Inr (star_example, 0)"
proof -
  have wf: "wf_object star_example" by (simp add: om_inv_def)
  from asterisks_expanded [OF star_example_expanded wf] show ?thesis
    using wf star_example_expanded by simp
qed

text \<open>An asterisk behind an array changes each element as if it had been assigned or added to
  at its index: an assignment discards the entries of the element, an addition is appended,
  and temporary stays temporary.\<close>

theorem asterisk_behind_array:
  "asterisks_concat (Concat h [ARRAY (Array [] cs p), ASTERISK s]) =
     Inr (Concat h [ARRAY (Array [] (map (\<lambda>c. Concat
       ((head c)\<lparr>remove := remove (head s) \<or> remove (head c),
                 temporary := temporary (head c) \<or> temporary (head s)\<rparr>)
       ((if remove (head s) then [] else concat_list c) @ concat_list s)) cs) p)], 1)"
proof -
  have "element_and_asterisk c s = Concat
       ((head c)\<lparr>remove := remove (head s) \<or> remove (head c),
                 temporary := temporary (head c) \<or> temporary (head s)\<rparr>)
       ((if remove (head s) then [] else concat_list c) @ concat_list s)" for c
    by (cases "head c") (simp add: element_and_asterisk_def Let_def)
  then show ?thesis using asterisks_array [of "Array [] cs p" h s]
    by (simp add: process_array_and_asterisk_def)
qed

end
