(* ===== verification/Config_Key1.thy ===== *)
theory Config_Key1
  imports Config_Key
begin

text \<open>
  Internal keys and references as text: the grammars and actions of \<open>key1_grammar.hpp\<close>,
  \<open>key1_action.hpp\<close>, \<open>reference2_grammar.hpp\<close> and \<open>reference2_action.hpp\<close>, the
  entry points of \<open>parse_utility.hpp\<close>, and \<open>to_string\<close> of references.

  A rule returns how many bytes it consumed, so that the remaining input is
  \<open>drop n s\<close>. Parts carry the position that PEGTL computes for the input; the parameter
  \<open>pos\<close> gives it for the number of bytes that remain. A quoted part gets the position
  behind its closing quote, as the comment in the actions says.
\<close>

type_synonym positions = "nat \<Rightarrow> position"

definition quoted_match :: "quoted_matcher \<Rightarrow> string \<Rightarrow> error + (string \<times> nat) option" where
  "quoted_match qf s =
     (if at_quote s then
        (case qf s of None \<Rightarrow> Inl (Syntax_error ''quoted_choice'') | Some m \<Rightarrow> Inr (Some m))
      else Inr None)"

section \<open>key1\<close>

definition match_key1_part ::
  "quoted_matcher \<Rightarrow> positions \<Rightarrow> string \<Rightarrow> error + (key1_part \<times> nat) option" where
  "match_key1_part qf pos s =
     (case match_ident s of
        Some (n, rest) \<Rightarrow> Inr (Some (K1_name n (pos (length s)), length n))
      | None \<Rightarrow> rbind (quoted_match qf s) (\<lambda>m.
          case m of
            Some (t, n) \<Rightarrow> Inr (Some (K1_name t (pos (length s - n)), n))
          | None \<Rightarrow>
              (case match_index s of
                 Some (i, rest) \<Rightarrow>
                   Inr (Some (K1_index i (pos (length s)), length s - length rest))
               | None \<Rightarrow>
                   (case s of
                      c # _ \<Rightarrow>
                        if c = CHR ''*'' then Inr (Some (K1_asterisk (pos (length s)), 1))
                        else Inr None
                    | [] \<Rightarrow> Inr None))))"

function match_key1_tail ::
  "quoted_matcher \<Rightarrow> positions \<Rightarrow> string \<Rightarrow> error + (key1 \<times> nat)" where
  "match_key1_tail qf pos s =
     (case s of
        c # cs \<Rightarrow>
          if c = CHR ''.'' then
            rbind (match_key1_part qf pos cs) (\<lambda>m.
              case m of
                None \<Rightarrow> Inl (Syntax_error ''key1_part'')
              | Some (p, n) \<Rightarrow>
                  rbind (match_key1_tail qf pos (drop n cs)) (\<lambda>(ps, k). Inr (p # ps, 1 + n + k)))
          else Inr ([], 0)
      | [] \<Rightarrow> Inr ([], 0))"
  by pat_completeness auto
termination
  by (relation "measure (\<lambda>(qf, pos, s). length s)") auto

declare match_key1_tail.simps [simp del]

text \<open>\<open>parse_key1\<close>: \<open>must< key1_rule >\<close> on the input of the config parser.\<close>

definition parse_key1 ::
  "quoted_matcher \<Rightarrow> positions \<Rightarrow> string \<Rightarrow> error + (key1 \<times> string)" where
  "parse_key1 qf pos s =
     rbind (match_key1_part qf pos s) (\<lambda>m.
       case m of
         None \<Rightarrow> Inl (Syntax_error ''key1_rule'')
       | Some (p, n) \<Rightarrow>
           rbind (match_key1_tail qf pos (drop n s)) (\<lambda>(ps, k). Inr (p # ps, drop (n + k) s)))"

text \<open>\<open>key1::assign\<close>: the same rule, and the input must end behind it.\<close>

definition key1_assign :: "quoted_matcher \<Rightarrow> positions \<Rightarrow> string \<Rightarrow> error + key1" where
  "key1_assign qf pos s =
     rbind (parse_key1 qf pos s) (\<lambda>(k, rest).
       if rest = [] then Inr k else Inl (Syntax_error ''eof''))"

section \<open>reference2\<close>

function match_reference2_part ::
    "quoted_matcher \<Rightarrow> positions \<Rightarrow> string \<Rightarrow> error + (reference2_part \<times> nat) option"
  and match_reference2_list ::
    "quoted_matcher \<Rightarrow> positions \<Rightarrow> string \<Rightarrow> error + (reference2 \<times> nat) option"
  and match_reference2_tail ::
    "quoted_matcher \<Rightarrow> positions \<Rightarrow> string \<Rightarrow> error + (reference2 \<times> nat)" where
  "match_reference2_part qf pos s =
     (case match_ident s of
        Some (n, rest) \<Rightarrow> Inr (Some (R2_name n (pos (length s)), length n))
      | None \<Rightarrow> rbind (quoted_match qf s) (\<lambda>m.
          case m of
            Some (t, n) \<Rightarrow> Inr (Some (R2_name t (pos (length s - n)), n))
          | None \<Rightarrow>
              (case match_index s of
                 Some (i, rest) \<Rightarrow>
                   Inr (Some (R2_index i (pos (length s)), length s - length rest))
               | None \<Rightarrow>
                   (case s of
                      c # cs \<Rightarrow>
                        if c = CHR ''('' then
                          rbind (match_reference2_list qf pos cs) (\<lambda>l.
                            case l of
                              None \<Rightarrow> Inl (Syntax_error ''reference2_list'')
                            | Some (r, n) \<Rightarrow>
                                (case drop n cs of
                                   d # _ \<Rightarrow>
                                     if d = CHR '')''
                                     then Inr (Some (R2_vector r (pos (length s)), n + 2))
                                     else Inl (Syntax_error ''one'')
                                 | [] \<Rightarrow> Inl (Syntax_error ''one'')))
                        else Inr None
                    | [] \<Rightarrow> Inr None))))"
| "match_reference2_list qf pos s =
     rbind (match_reference2_part qf pos s) (\<lambda>m.
       case m of
         None \<Rightarrow> Inr None
       | Some (p, n) \<Rightarrow>
           rbind (match_reference2_tail qf pos (drop n s)) (\<lambda>(ps, k). Inr (Some (p # ps, n + k))))"
| "match_reference2_tail qf pos s =
     (case s of
        c # cs \<Rightarrow>
          if c = CHR ''.'' then
            rbind (match_reference2_part qf pos cs) (\<lambda>m.
              case m of
                None \<Rightarrow> Inl (Syntax_error ''reference2_part'')
              | Some (p, n) \<Rightarrow>
                  rbind (match_reference2_tail qf pos (drop n cs)) (\<lambda>(ps, k). Inr (p # ps, 1 + n + k)))
          else Inr ([], 0)
      | [] \<Rightarrow> Inr ([], 0))"
  by pat_completeness auto
termination
  by (relation "measure (case_sum (\<lambda>(qf, pos, s). 3 * length s + 1)
        (case_sum (\<lambda>(qf, pos, s). 3 * length s + 2) (\<lambda>(qf, pos, s). 3 * length s)))") auto

declare match_reference2_part.simps [simp del] match_reference2_list.simps [simp del]
  match_reference2_tail.simps [simp del]

text \<open>
  \<open>parse_reference2\<close>: \<open>must< reference2_rest >\<close> behind the opening bracket.
\<close>

definition parse_reference2 ::
  "quoted_matcher \<Rightarrow> positions \<Rightarrow> string \<Rightarrow> error + (reference2 \<times> string)" where
  "parse_reference2 qf pos s =
     rbind (match_reference2_list qf pos s) (\<lambda>l.
       case l of
         None \<Rightarrow> Inl (Syntax_error ''reference2_rest'')
       | Some (r, n) \<Rightarrow>
           (case drop n s of
              d # rest \<Rightarrow>
                if d = CHR '')'' then Inr (r, rest) else Inl (Syntax_error ''reference2_rest'')
            | [] \<Rightarrow> Inl (Syntax_error ''reference2_rest'')))"

text \<open>
  \<open>to_string\<close>. On an empty vector the code dereferences \<open>end()\<close>; the constructor of
  \<open>entry\<close> and the grammar exclude it, and the model prints an empty pair of brackets.
\<close>

fun reference2_part_to_string :: "reference2_part \<Rightarrow> string"
  and reference2_to_string :: "reference2 \<Rightarrow> string"
  and reference2_tail_to_string :: "reference2 \<Rightarrow> string" where
  "reference2_part_to_string (R2_name n p) = n"
| "reference2_part_to_string (R2_index i p) = nat_to_string i"
| "reference2_part_to_string (R2_vector r p) = reference2_to_string r"
| "reference2_to_string [] = ''()''"
| "reference2_to_string (x # xs) =
     ''('' @ reference2_part_to_string x @ reference2_tail_to_string xs @ '')''"
| "reference2_tail_to_string [] = []"
| "reference2_tail_to_string (x # xs) =
     ''.'' @ reference2_part_to_string x @ reference2_tail_to_string xs"

section \<open>Indices fit into std::size_t\<close>

fun k1_index_ok :: "key1_part \<Rightarrow> bool" where
  "k1_index_ok (K1_index i p) = (i < 10 ^ 15)"
| "k1_index_ok part = True"

lemma match_key1_part_index:
  "match_key1_part qf pos s = Inr (Some (p, n)) \<Longrightarrow> k1_index_ok p \<and> key1_part_kind p \<noteq> KEY1_append"
  by (auto simp: match_key1_part_def res_simps dest: match_index_value
      split: option.splits list.splits if_splits)

lemma match_key1_tail_index:
  "match_key1_tail qf pos s = Inr (k, n) \<Longrightarrow>
     \<forall>p \<in> set k. k1_index_ok p \<and> key1_part_kind p \<noteq> KEY1_append"
proof (induction qf pos s arbitrary: k n rule: match_key1_tail.induct)
  case (1 qf pos s)
  show ?case
  proof (cases "\<exists>cs. s = CHR ''.'' # cs")
    case True
    then obtain cs where s: "s = CHR ''.'' # cs" by blast
    with 1(2) obtain p m ps j where *: "match_key1_part qf pos cs = Inr (Some (p, m))"
      "match_key1_tail qf pos (drop m cs) = Inr (ps, j)" "k = p # ps"
      by (subst (asm) match_key1_tail.simps) (auto simp: res_simps split: option.splits)
    have "\<forall>q \<in> set ps. k1_index_ok q \<and> key1_part_kind q \<noteq> KEY1_append"
      by (rule 1(1) [OF s refl *(1) refl refl *(2)])
    with match_key1_part_index [OF *(1)] *(3) show ?thesis by simp
  next
    case False
    with 1(2) show ?thesis
      by (subst (asm) match_key1_tail.simps) (auto split: list.splits if_splits)
  qed
qed

lemma parse_key1_parts:
  assumes "parse_key1 qf pos s = Inr (k, rest)"
  shows "k \<noteq> [] \<and> (\<forall>p \<in> set k. k1_index_ok p \<and> key1_part_kind p \<noteq> KEY1_append)"
proof -
  obtain p n ps j where *: "match_key1_part qf pos s = Inr (Some (p, n))"
    "match_key1_tail qf pos (drop n s) = Inr (ps, j)" "k = p # ps"
    using assms by (auto simp: parse_key1_def res_simps split: option.splits)
  then show ?thesis
    using match_key1_part_index [OF *(1)] match_key1_tail_index [OF *(2)] by simp
qed

section \<open>Properties\<close>

text \<open>A key in a config file has at least one part, its indices are below ten to the
  fifteenth, and the grammar never produces an append: appends come from the operator
  \<open>+=\<close> only.\<close>

theorem parse_key1_bounds:
  "parse_key1 qf pos s = Inr (k, rest) \<Longrightarrow>
     k \<noteq> [] \<and> (\<forall>p \<in> set k. k1_index_ok p \<and> key1_part_kind p \<noteq> KEY1_append)"
  by (rule parse_key1_parts)

lemma example_key1:
  "parse_key1 plain_quoted (\<lambda>n. no_position) ''a.7.* = 1'' =
     Inr ([K1_name ''a'' no_position, K1_index 7 no_position, K1_asterisk no_position], '' = 1'')"
  by code_simp

theorem parse_key1_bounds_witness: "k1_index_ok (K1_index 7 no_position)"
  using parse_key1_bounds [OF example_key1] by simp

end
