(* ===== verification/Config_Phase1.thy ===== *)
theory Config_Phase1
  imports Config_Key1
begin

text \<open>
  Phase one's store, \<open>phase1_append.hpp\<close>: a change, the parameter \<open>thing\<close>, is applied to
  the concat that an internal key designates below the root, and everything on the way is
  created as needed. The model keeps the functions of the code, one per kind of key part;
  the references that the code changes in place are rebuilt on the way back.
\<close>

datatype phase1_mode = Phase1_implicit | Phase1_manifest

definition global_nesting_limit :: nat where
  "global_nesting_limit = 96"

definition set_implicit :: "bool \<Rightarrow> concat \<Rightarrow> concat" where
  "set_implicit b c = Concat ((head c)\<lparr>implicit := b\<rparr>) (concat_list c)"

text \<open>The flag that both functions for names compute for the member they visit.\<close>

definition still_implicit :: "phase1_mode \<Rightarrow> bool \<Rightarrow> concat \<Rightarrow> bool" where
  "still_implicit mode inserted c \<longleftrightarrow>
     mode = Phase1_implicit \<and> (inserted \<or> implicit (head c))"

function phase1_append :: "concat \<Rightarrow> key1 \<Rightarrow> (concat \<Rightarrow> concat) \<Rightarrow> phase1_mode \<Rightarrow> error + concat"
  and phase1_append_asterisk ::
    "concat \<Rightarrow> position \<Rightarrow> key1 \<Rightarrow> (concat \<Rightarrow> concat) \<Rightarrow> phase1_mode \<Rightarrow> error + concat"
  and phase1_append_name ::
    "concat \<Rightarrow> position \<Rightarrow> string \<Rightarrow> key1 \<Rightarrow> (concat \<Rightarrow> concat) \<Rightarrow> phase1_mode \<Rightarrow> error + concat"
  and phase1_append_index ::
    "entry list \<Rightarrow> position \<Rightarrow> nat \<Rightarrow> key1 \<Rightarrow> (concat \<Rightarrow> concat) \<Rightarrow> phase1_mode \<Rightarrow> error + entry list"
  and phase1_append_append ::
    "concat \<Rightarrow> position \<Rightarrow> u64 \<Rightarrow> key1 \<Rightarrow> (concat \<Rightarrow> concat) \<Rightarrow> phase1_mode \<Rightarrow> error + concat" where
  "phase1_append c path thing mode =
     (case path of
        [] \<Rightarrow> Inr (thing c)
      | K1_asterisk p # rest \<Rightarrow> phase1_append_asterisk c p rest thing mode
      | K1_name n p # rest \<Rightarrow> phase1_append_name c p n rest thing mode
      | K1_index i p # rest \<Rightarrow>
          rbind (phase1_append_index (concat_list c) p i rest thing mode)
            (\<lambda>es. Inr (Concat (head c) es))
      | K1_append g p # rest \<Rightarrow>
          if g = 0 then Inl (Assert_failed ''**s > 0'')
          else phase1_append_append c p g rest thing mode)"
| "phase1_append_asterisk c p path thing mode =
     (let es = back_ensure_init (asterisk_init p) (concat_list c) in
      case last es of
        ASTERISK d \<Rightarrow>
          rbind (phase1_append d path thing mode)
            (\<lambda>d'. Inr (Concat (head c) (butlast es @ [ASTERISK d'])))
      | _ \<Rightarrow> Inl (Undefined_behaviour ''get_asterisk''))"
| "phase1_append_name c p name path thing mode =
     (let es = back_ensure_init (object_init p) (concat_list c) in
      case last es of
        OBJECT (Object ms q) \<Rightarrow>
          (case try_emplace name (concat_init p) ms of
             (ms', d, inserted) \<Rightarrow>
               rbind (phase1_append (set_implicit (still_implicit mode inserted d) d) path thing mode)
                 (\<lambda>d'. Inr (Concat (head c) (butlast es @ [OBJECT (Object (om_put name d' ms') q)]))))
      | _ \<Rightarrow> Inl (Undefined_behaviour ''get_object''))"
| "phase1_append_index [] p n path thing mode = Inl (Parse_error ''index out of range'' p)"
| "phase1_append_index (e # es) p n path thing mode =
     (case e of
        ARRAY (Array f cs q) \<Rightarrow>
          if length cs > n then
            rbind (phase1_append (cs ! n) path thing mode)
              (\<lambda>d. Inr (ARRAY (Array f (cs[n := d]) q) # es))
          else rbind (phase1_append_index es p (n - length cs) path thing mode) (\<lambda>es'. Inr (e # es'))
      | OBJECT x \<Rightarrow> Inl (Parse_error ''cannot index (across) object'' p)
      | ASTERISK d \<Rightarrow> Inl (Parse_error ''cannot index (across) asterisk'' p)
      | REFERENCE r \<Rightarrow> Inl (Parse_error ''cannot index (across) reference'' p)
      | _ \<Rightarrow> Inl (Parse_error ''cannot index (across) value'' p))"
| "phase1_append_append c p g path thing mode =
     (let es = back_ensure_init (array_init p) (concat_list c) in
      case last es of
        ARRAY (Array f cs q) \<Rightarrow>
          if g > generation (head c) then
            rbind (phase1_append (concat_init p) path thing mode)
              (\<lambda>d. Inr (Concat ((head c)\<lparr>generation := g\<rparr>) (butlast es @ [ARRAY (Array f (cs @ [d]) q)])))
          else if cs = [] then Inl (Assert_failed ''!a.array.empty()'')
          else
            rbind (phase1_append (last cs) path thing mode)
              (\<lambda>d. Inr (Concat (head c) (butlast es @ [ARRAY (Array f (butlast cs @ [d]) q)])))
      | _ \<Rightarrow> Inl (Undefined_behaviour ''get_array''))"
  by pat_completeness auto
termination
  by (relation "measures
        [case_sum (case_sum (\<lambda>(c, path, t, m). 2 * length path)
                            (\<lambda>(c, p, path, t, m). 2 * length path + 1))
                  (case_sum (\<lambda>(c, p, n, path, t, m). 2 * length path + 1)
                            (case_sum (\<lambda>(es, p, n, path, t, m). 2 * length path + 1)
                                      (\<lambda>(c, p, g, path, t, m). 2 * length path + 1))),
         case_sum (\<lambda>_. 0) (case_sum (\<lambda>_. 0) (case_sum (\<lambda>(es, p, n, path, t, m). length es) (\<lambda>_. 0)))]")
    auto

lemmas phase1_simps = phase1_append.simps phase1_append_asterisk.simps phase1_append_name.simps
  phase1_append_index.simps phase1_append_append.simps

declare phase1_append.simps [simp del] phase1_append_asterisk.simps [simp del]
  phase1_append_name.simps [simp del] phase1_append_index.simps [simp del]
  phase1_append_append.simps [simp del]

text \<open>The entry point, on the root object.\<close>

definition phase1_append_object ::
  "object \<Rightarrow> key1 \<Rightarrow> (concat \<Rightarrow> concat) \<Rightarrow> phase1_mode \<Rightarrow> error + object" where
  "phase1_append_object x path thing mode =
     (case path of
        [] \<Rightarrow> Inl (Assert_failed ''!path.empty()'')
      | part # rest \<Rightarrow>
          if length path > global_nesting_limit then
            Inl (Parse_error ''nesting depth exceeded'' (k1_position (path ! global_nesting_limit)))
          else
            (case part of
               K1_name name p \<Rightarrow>
                 (case try_emplace name (concat_init p) (object_map x) of
                    (ms', d, inserted) \<Rightarrow>
                      rbind (phase1_append (set_implicit (still_implicit mode inserted d) d) rest thing mode)
                        (\<lambda>d'. Inr (Object (om_put name d' ms') (object_position x))))
             | _ \<Rightarrow> Inl (Parse_error ''expected name'' (k1_position part))))"

section \<open>The steps as equivalences\<close>

lemma phase1_append_Nil [simp]: "phase1_append c [] thing mode = Inr (thing c)"
  by (simp add: phase1_simps)

lemma last_back_ensure_init:
  "\<exists>ms q. last (back_ensure_init (object_init p) es) = OBJECT (Object ms q)"
  "\<exists>d. last (back_ensure_init (asterisk_init p) es) = ASTERISK d"
  "\<exists>f cs q. last (back_ensure_init (array_init p) es) = ARRAY (Array f cs q)"
  using kind_last_back_ensure_init [of "object_init p" es]
    kind_last_back_ensure_init [of "asterisk_init p" es]
    kind_last_back_ensure_init [of "array_init p" es]
  by (auto simp del: kind_last_back_ensure_init) (metis array.exhaust object.exhaust)+

lemma phase1_name_iff:
  "phase1_append c (K1_name n p # path) thing mode = Inr c' \<longleftrightarrow>
     (\<exists>ms q ms' d b d'.
        last (back_ensure_init (object_init p) (concat_list c)) = OBJECT (Object ms q) \<and>
        try_emplace n (concat_init p) ms = (ms', d, b) \<and>
        phase1_append (set_implicit (still_implicit mode b d) d) path thing mode = Inr d' \<and>
        c' = Concat (head c) (butlast (back_ensure_init (object_init p) (concat_list c)) @
                              [OBJECT (Object (om_put n d' ms') q)]))"
  using last_back_ensure_init(1) [of p "concat_list c"]
  by (auto simp: phase1_append.simps [of c "K1_name n p # path"] phase1_append_name.simps Let_def
      res_simps split: prod.splits)

lemma phase1_asterisk_iff:
  "phase1_append c (K1_asterisk p # path) thing mode = Inr c' \<longleftrightarrow>
     (\<exists>d d'.
        last (back_ensure_init (asterisk_init p) (concat_list c)) = ASTERISK d \<and>
        phase1_append d path thing mode = Inr d' \<and>
        c' = Concat (head c) (butlast (back_ensure_init (asterisk_init p) (concat_list c)) @ [ASTERISK d']))"
  using last_back_ensure_init(2) [of p "concat_list c"]
  by (auto simp: phase1_append.simps [of c "K1_asterisk p # path"] phase1_append_asterisk.simps
      Let_def res_simps)

lemma phase1_index_iff:
  "phase1_append c (K1_index i p # path) thing mode = Inr c' \<longleftrightarrow>
     (\<exists>es. phase1_append_index (concat_list c) p i path thing mode = Inr es \<and> c' = Concat (head c) es)"
  by (auto simp: phase1_append.simps [of c "K1_index i p # path"] res_simps)

lemma phase1_index_Cons_iff:
  "phase1_append_index (e # es) p i path thing mode = Inr fs \<longleftrightarrow>
     (\<exists>f cs q. e = ARRAY (Array f cs q) \<and>
        (if i < length cs
         then \<exists>d. phase1_append (cs ! i) path thing mode = Inr d \<and>
                  fs = ARRAY (Array f (cs[i := d]) q) # es
         else \<exists>es'. phase1_append_index es p (i - length cs) path thing mode = Inr es' \<and> fs = e # es'))"
  by (cases e) (auto simp: phase1_append_index.simps res_simps split: array.splits)

lemma phase1_append_iff:
  "phase1_append c (K1_append g p # path) thing mode = Inr c' \<longleftrightarrow>
     g \<noteq> 0 \<and> (\<exists>f cs q.
        last (back_ensure_init (array_init p) (concat_list c)) = ARRAY (Array f cs q) \<and>
        (if g > generation (head c)
         then \<exists>d. phase1_append (concat_init p) path thing mode = Inr d \<and>
                c' = Concat ((head c)\<lparr>generation := g\<rparr>)
                       (butlast (back_ensure_init (array_init p) (concat_list c)) @
                        [ARRAY (Array f (cs @ [d]) q)])
         else cs \<noteq> [] \<and> (\<exists>d. phase1_append (last cs) path thing mode = Inr d \<and>
                c' = Concat (head c)
                       (butlast (back_ensure_init (array_init p) (concat_list c)) @
                        [ARRAY (Array f (butlast cs @ [d]) q)]))))"
proof -
  obtain f cs q where "last (back_ensure_init (array_init p) (concat_list c)) = ARRAY (Array f cs q)"
    using last_back_ensure_init(3) by blast
  then show ?thesis
    by (cases "g > generation (head c)")
      (auto simp: phase1_append.simps [of c "K1_append g p # path"] phase1_append_append.simps
        Let_def res_simps)
qed

lemmas phase1_iffs = phase1_name_iff phase1_asterisk_iff phase1_index_iff phase1_append_iff

section \<open>The concat that a key designates\<close>

text \<open>
  \<open>designated path c\<close> is the concat that the functions above reach from \<open>c\<close> without
  creating anything: names, asterisks and appends go into the last entry, indices count
  across the arrays of the concat.
\<close>

fun index_find :: "entry list \<Rightarrow> nat \<Rightarrow> concat option" where
  "index_find (ARRAY (Array f cs q) # es) i =
     (if i < length cs then Some (cs ! i) else index_find es (i - length cs))"
| "index_find es i = None"

fun step_into :: "key1_part \<Rightarrow> concat \<Rightarrow> concat option" where
  "step_into (K1_name n p) c =
     (if concat_list c = [] then None
      else case last (concat_list c) of OBJECT (Object ms q) \<Rightarrow> om_find n ms | _ \<Rightarrow> None)"
| "step_into (K1_asterisk p) c =
     (if concat_list c = [] then None
      else case last (concat_list c) of ASTERISK d \<Rightarrow> Some d | _ \<Rightarrow> None)"
| "step_into (K1_index i p) c = index_find (concat_list c) i"
| "step_into (K1_append g p) c =
     (if concat_list c = [] then None
      else case last (concat_list c) of
        ARRAY (Array f cs q) \<Rightarrow>
          if g \<le> generation (head c) \<and> cs \<noteq> [] then Some (last cs) else None
      | _ \<Rightarrow> None)"

fun designated :: "key1 \<Rightarrow> concat \<Rightarrow> concat option" where
  "designated [] c = Some c"
| "designated (part # path) c =
     (case step_into part c of None \<Rightarrow> None | Some d \<Rightarrow> designated path d)"

text \<open>
  What \<open>thing\<close> is applied to: the concat designated before, up to its implicit flag, or a
  fresh one.
\<close>

definition found_or_fresh :: "concat option \<Rightarrow> concat \<Rightarrow> bool" where
  "found_or_fresh old d \<longleftrightarrow>
     (\<exists>b. case old of
            Some d0 \<Rightarrow> d = set_implicit b d0
          | None \<Rightarrow> \<exists>p. d = set_implicit b (concat_init p))"

lemma set_implicit_simps [simp]:
  "concat_list (set_implicit b c) = concat_list c"
  "head (set_implicit b c) = (head c)\<lparr>implicit := b\<rparr>"
  "set_implicit (implicit (head c)) c = c"
  "set_implicit b (set_implicit b' c) = set_implicit b c"
  by (cases c; simp add: set_implicit_def)+

lemma step_into_set_implicit [simp]: "step_into part (set_implicit b c) = step_into part c"
  by (cases part) (auto split: entry.split array.split)

lemma designated_set_implicit:
  "path \<noteq> [] \<Longrightarrow> designated path (set_implicit b c) = designated path c"
  by (cases path) auto

lemma designated_fresh: "path \<noteq> [] \<Longrightarrow> designated path (concat_init p) = None"
proof (cases path)
  case (Cons part rest)
  then show ?thesis by (cases part) (auto simp: concat_init_def)
qed simp

lemma found_or_fresh_self: "found_or_fresh (Some c) c"
  unfolding found_or_fresh_def by (auto intro!: exI [of _ "implicit (head c)"])

lemma found_or_fresh_set_implicit:
  "found_or_fresh (designated path (set_implicit b c)) d \<Longrightarrow> found_or_fresh (designated path c) d"
  by (cases path) (auto simp: found_or_fresh_def)

lemma found_or_fresh_init:
  "found_or_fresh (designated path (set_implicit b (concat_init p))) d \<Longrightarrow> found_or_fresh None d"
proof (cases path)
  case (Cons part rest)
  then show "found_or_fresh (designated path (set_implicit b (concat_init p))) d \<Longrightarrow> ?thesis"
    by (simp add: designated_set_implicit designated_fresh del: designated.simps)
qed (auto simp: found_or_fresh_def)

lemma step_into_Concat [simp]:
  "step_into (K1_name n p) (Concat h (es @ [OBJECT (Object ms q)])) = om_find n ms"
  "step_into (K1_asterisk p) (Concat h (es @ [ASTERISK d])) = Some d"
  "step_into (K1_index i p) (Concat h es) = index_find es i"
  "step_into (K1_append g p) (Concat h (es @ [ARRAY (Array f cs q)])) =
     (if g \<le> generation h \<and> cs \<noteq> [] then Some (last cs) else None)"
  by auto

text \<open>What is designated before a step, in terms of the entry that the step uses.\<close>

lemma step_into_before_name:
  assumes "last (back_ensure_init (object_init p) (concat_list c)) = OBJECT (Object ms q)"
  shows "step_into (K1_name n p') c = om_find n ms"
  by (rule back_ensure_init_cases [of "concat_list c" "object_init p"])
    (use assms in \<open>auto simp: object_init_def split: entry.split object.split\<close>)

lemma step_into_before_asterisk:
  assumes "last (back_ensure_init (asterisk_init p) (concat_list c)) = ASTERISK d"
  shows "step_into (K1_asterisk p') c = Some d \<or>
    step_into (K1_asterisk p') c = None \<and> d = concat_init p"
  by (rule back_ensure_init_cases [of "concat_list c" "asterisk_init p"])
    (use assms in \<open>auto simp: asterisk_init_def split: entry.split\<close>)

lemma step_into_before_append:
  assumes "last (back_ensure_init (array_init p) (concat_list c)) = ARRAY (Array f cs q)"
  shows "step_into (K1_append g p') c =
       (if g \<le> generation (head c) \<and> cs \<noteq> [] then Some (last cs) else None)"
  by (rule back_ensure_init_cases [of "concat_list c" "array_init p"])
    (use assms in \<open>auto simp: array_init_def split: entry.split array.split\<close>)

lemma found_or_fresh_bind:
  assumes "found_or_fresh (designated path d) x"
    and "step_into part c = Some d \<or> step_into part c = None \<and> (\<exists>b p. d = set_implicit b (concat_init p))"
  shows "found_or_fresh (designated (part # path) c) x"
  using assms(2)
proof
  assume "step_into part c = Some d"
  with assms(1) show ?thesis by simp
next
  assume "step_into part c = None \<and> (\<exists>b p. d = set_implicit b (concat_init p))"
  with assms(1) found_or_fresh_init show ?thesis by (metis designated.simps(2) option.case(1))
qed

text \<open>The loop over the entries of the concat, given the claim for its elements.\<close>

lemma phase1_append_index_designated:
  assumes "\<And>c c'. phase1_append c path thing mode = Inr c' \<Longrightarrow>
      \<exists>d. designated path c' = Some (thing d) \<and> found_or_fresh (designated path c) d"
    and "phase1_append_index es p i path thing mode = Inr fs"
  shows "\<exists>e0 e1 d. index_find es i = Some e0 \<and> index_find fs i = Some e1 \<and>
      designated path e1 = Some (thing d) \<and> found_or_fresh (designated path e0) d"
  using assms(2)
proof (induction es arbitrary: i fs)
  case (Cons e es)
  then obtain f cs q where e: "e = ARRAY (Array f cs q)"
    by (auto simp: phase1_index_Cons_iff)
  show ?case
  proof (cases "i < length cs")
    case True
    with Cons.prems e obtain d where d: "phase1_append (cs ! i) path thing mode = Inr d"
      "fs = ARRAY (Array f (cs[i := d]) q) # es"
      by (auto simp: phase1_index_Cons_iff)
    with assms(1) [OF d(1)] e True show ?thesis by auto
  next
    case False
    with Cons.prems e Cons.IH show ?thesis by (auto simp: phase1_index_Cons_iff)
  qed
qed (simp add: phase1_simps)

lemma append_step_designated:
  assumes IH: "\<And>c c'. phase1_append c path thing mode = Inr c' \<Longrightarrow>
      \<exists>d. designated path c' = Some (thing d) \<and> found_or_fresh (designated path c) d"
    and "phase1_append c (K1_append g p # path) thing mode = Inr c'"
  shows "\<exists>x. designated (K1_append g p # path) c' = Some (thing x) \<and>
      found_or_fresh (designated (K1_append g p # path) c) x"
proof -
  obtain f cs q where es:
    "last (back_ensure_init (array_init p) (concat_list c)) = ARRAY (Array f cs q)"
    using assms(2) by (auto simp: phase1_append_iff)
  note before = step_into_before_append [OF es, of g p]
  show ?thesis
  proof (cases "g > generation (head c)")
    case True
    with assms(2) es obtain d where d: "phase1_append (concat_init p) path thing mode = Inr d"
      "c' = Concat ((head c)\<lparr>generation := g\<rparr>)
             (butlast (back_ensure_init (array_init p) (concat_list c)) @ [ARRAY (Array f (cs @ [d]) q)])"
      by (auto simp: phase1_append_iff)
    obtain x where x: "designated path d = Some (thing x)"
      "found_or_fresh (designated path (concat_init p)) x"
      using IH [OF d(1)] by blast
    have "step_into (K1_append g p) c = None \<and> (\<exists>b p'. concat_init p = set_implicit b (concat_init p'))"
      using before True set_implicit_simps(3) [of "concat_init p"]
      by (metis linorder_not_le)
    then have "found_or_fresh (designated (K1_append g p # path) c) x"
      by (intro found_or_fresh_bind [OF x(2)] disjI2)
    then show ?thesis using x(1) d(2) by (auto simp del: step_into.simps)
  next
    case False
    with assms(2) es obtain d where d: "cs \<noteq> []" "phase1_append (last cs) path thing mode = Inr d"
      "c' = Concat (head c)
             (butlast (back_ensure_init (array_init p) (concat_list c)) @
              [ARRAY (Array f (butlast cs @ [d]) q)])"
      by (auto simp: phase1_append_iff)
    obtain x where x: "designated path d = Some (thing x)"
      "found_or_fresh (designated path (last cs)) x"
      using IH [OF d(2)] by blast
    have "step_into (K1_append g p) c = Some (last cs)" using before False d(1) by auto
    then have "found_or_fresh (designated (K1_append g p # path) c) x"
      by (intro found_or_fresh_bind [OF x(2)] disjI1)
    then show ?thesis using x(1) d(3) False by (auto simp del: step_into.simps)
  qed
qed

lemma name_step_designated:
  assumes IH: "\<And>c c'. phase1_append c path thing mode = Inr c' \<Longrightarrow>
      \<exists>d. designated path c' = Some (thing d) \<and> found_or_fresh (designated path c) d"
    and "try_emplace n (concat_init p) ms = (ms', d, b)"
    and "phase1_append (set_implicit (still_implicit mode b d) d) path thing mode = Inr d'"
    and before: "step_into part c = om_find n ms"
  shows "\<exists>x. designated path d' = Some (thing x) \<and> found_or_fresh (designated (part # path) c) x"
proof -
  obtain x where x: "designated path d' = Some (thing x)"
    "found_or_fresh (designated path (set_implicit (still_implicit mode b d) d)) x"
    using IH [OF assms(3)] by blast
  have "om_find n ms = Some d \<or> om_find n ms = None \<and> d = concat_init p"
    using assms(2) by (auto simp: try_emplace_def split: option.splits)
  then have "step_into part c = Some d \<or>
    step_into part c = None \<and> (\<exists>b p. d = set_implicit b (concat_init p))"
    using before set_implicit_simps(3) [of "concat_init p"] by metis
  then have "found_or_fresh (designated (part # path) c) x"
    by (rule found_or_fresh_bind [OF found_or_fresh_set_implicit [OF x(2)]])
  with x(1) show ?thesis by blast
qed

lemma phase1_append_reaches:
  "phase1_append c path thing mode = Inr c' \<Longrightarrow>
     \<exists>d. designated path c' = Some (thing d) \<and> found_or_fresh (designated path c) d"
proof (induction path arbitrary: c c')
  case Nil
  then show ?case using found_or_fresh_self by auto
next
  case (Cons part path)
  show ?case
  proof (cases part)
    case (K1_name n p)
    with Cons.prems obtain ms q ms' d b d' where *:
      "last (back_ensure_init (object_init p) (concat_list c)) = OBJECT (Object ms q)"
      "try_emplace n (concat_init p) ms = (ms', d, b)"
      "phase1_append (set_implicit (still_implicit mode b d) d) path thing mode = Inr d'"
      "c' = Concat (head c) (butlast (back_ensure_init (object_init p) (concat_list c)) @
                            [OBJECT (Object (om_put n d' ms') q)])"
      by (auto simp: phase1_name_iff)
    from name_step_designated [OF Cons.IH *(2) *(3) step_into_before_name [OF *(1), of n p]]
    show ?thesis using *(4) K1_name by (auto simp: om_find_put simp del: step_into.simps)
  next
    case (K1_index i p)
    with Cons.prems obtain es' where *: "phase1_append_index (concat_list c) p i path thing mode = Inr es'"
      "c' = Concat (head c) es'" by (auto simp: phase1_index_iff)
    from phase1_append_index_designated [OF Cons.IH *(1)] *(2) K1_index show ?thesis by auto
  next
    case (K1_asterisk p)
    with Cons.prems obtain d d' where *:
      "last (back_ensure_init (asterisk_init p) (concat_list c)) = ASTERISK d"
      "phase1_append d path thing mode = Inr d'"
      "c' = Concat (head c) (butlast (back_ensure_init (asterisk_init p) (concat_list c)) @ [ASTERISK d'])"
      by (auto simp: phase1_asterisk_iff)
    obtain x where x: "designated path d' = Some (thing x)" "found_or_fresh (designated path d) x"
      using Cons.IH [OF *(2)] by blast
    have "step_into (K1_asterisk p) c = Some d \<or>
      step_into (K1_asterisk p) c = None \<and> (\<exists>b p. d = set_implicit b (concat_init p))"
      using step_into_before_asterisk [OF *(1), of p] set_implicit_simps(3) [of "concat_init p"] by metis
    then have "found_or_fresh (designated (K1_asterisk p # path) c) x"
      by (rule found_or_fresh_bind [OF x(2)])
    then show ?thesis using x(1) *(3) K1_asterisk by (auto simp del: step_into.simps)
  next
    case (K1_append g p)
    with Cons.prems append_step_designated [OF Cons.IH] show ?thesis by blast
  qed
qed

section \<open>Well-formed maps\<close>

lemma wf_try_emplace:
  assumes "om_inv ms" "\<forall>(k, c) \<in> set ms. wf_concat c" "try_emplace n (concat_init p) ms = (ms', d, b)"
  shows "wf_concat d" and "om_inv ms'" and "\<forall>(k, c) \<in> set ms'. wf_concat c"
proof -
  have "wf_concat (concat_init p)" by (simp add: concat_init_def)
  with assms show "wf_concat d" "om_inv ms'" "\<forall>(k, c) \<in> set ms'. wf_concat c"
    using set_om_put [of n "concat_init p" ms]
    by (auto simp: try_emplace_def om_inv_put dest!: om_find_in split: option.splits)
qed

lemma wf_om_put:
  assumes "om_inv ms" "\<forall>(k, c) \<in> set ms. wf_concat c" "wf_concat d"
  shows "wf_object (Object (om_put n d ms) q)"
  using assms set_om_put [of n d ms] by (auto simp: om_inv_put)

lemma wf_set_implicit [simp]: "wf_concat (set_implicit b c) = wf_concat c"
  by (cases c) (simp add: set_implicit_def)

lemma wf_back_ensure_init:
  "wf_entry init \<Longrightarrow> wf_concat c \<Longrightarrow>
     \<forall>e \<in> set (back_ensure_init init (concat_list c)). wf_entry e"
  by (auto simp: back_ensure_init_def wf_concat_iff)

lemma wf_inits [simp]:
  "wf_entry (array_init p)" "wf_entry (object_init p)" "wf_entry (asterisk_init p)"
  "wf_concat (concat_init p)"
  by (simp_all add: array_init_def object_init_def asterisk_init_def concat_init_def om_inv_def)

lemma wf_replace_last:
  assumes "wf_entry init" "wf_concat c" "wf_entry e"
  shows "wf_concat (Concat h (butlast (back_ensure_init init (concat_list c)) @ [e]))"
  using wf_back_ensure_init [OF assms(1,2)] assms(3) by (auto dest: in_set_butlastD)

lemma wf_last_back:
  assumes "wf_entry init" "wf_concat c" "last (back_ensure_init init (concat_list c)) = e"
  shows "wf_entry e"
  using wf_back_ensure_init [OF assms(1,2)] assms(3) last_in_set back_ensure_init_nonempty by blast

lemma phase1_append_index_wf:
  assumes "\<And>c c'. phase1_append c path thing mode = Inr c' \<Longrightarrow> wf_concat c \<Longrightarrow> wf_concat c'"
    and "phase1_append_index es p i path thing mode = Inr fs" "\<forall>e \<in> set es. wf_entry e"
  shows "\<forall>e \<in> set fs. wf_entry e"
  using assms(2,3)
proof (induction es arbitrary: i fs)
  case (Cons e es)
  then obtain f cs q where e: "e = ARRAY (Array f cs q)"
    by (auto simp: phase1_index_Cons_iff)
  show ?case
  proof (cases "i < length cs")
    case True
    with Cons.prems e obtain d where d: "phase1_append (cs ! i) path thing mode = Inr d"
      "fs = ARRAY (Array f (cs[i := d]) q) # es"
      by (auto simp: phase1_index_Cons_iff)
    moreover have "wf_concat d" using assms(1) [OF d(1)] Cons.prems(2) e True by auto
    ultimately show ?thesis using Cons.prems(2) e by (auto dest!: set_update_subset_insert [THEN subsetD])
  next
    case False
    with Cons.prems e Cons.IH show ?thesis by (auto simp: phase1_index_Cons_iff)
  qed
qed (simp add: phase1_simps)

lemma phase1_append_wf:
  assumes "\<And>d. wf_concat d \<Longrightarrow> wf_concat (thing d)"
  shows "phase1_append c path thing mode = Inr c' \<Longrightarrow> wf_concat c \<Longrightarrow> wf_concat c'"
proof (induction path arbitrary: c c')
  case Nil
  with assms show ?case by auto
next
  case (Cons part path)
  show ?case
  proof (cases part)
    case (K1_name n p)
    with Cons.prems(1) obtain ms q ms' d b d' where *:
      "last (back_ensure_init (object_init p) (concat_list c)) = OBJECT (Object ms q)"
      "try_emplace n (concat_init p) ms = (ms', d, b)"
      "phase1_append (set_implicit (still_implicit mode b d) d) path thing mode = Inr d'"
      "c' = Concat (head c) (butlast (back_ensure_init (object_init p) (concat_list c)) @
                            [OBJECT (Object (om_put n d' ms') q)])"
      by (auto simp: phase1_name_iff)
    have ms: "om_inv ms" "\<forall>(k, c) \<in> set ms. wf_concat c"
      using wf_last_back [OF _ Cons.prems(2) *(1)] by auto
    note ms' = wf_try_emplace [OF ms *(2)]
    have "wf_object (Object (om_put n d' ms') q)"
      using wf_om_put ms' Cons.IH [OF *(3)] by simp
    then show ?thesis unfolding *(4) using Cons.prems(2) by (intro wf_replace_last) auto
  next
    case (K1_index i p)
    with Cons.prems(1) obtain es' where *: "phase1_append_index (concat_list c) p i path thing mode = Inr es'"
      "c' = Concat (head c) es'" by (auto simp: phase1_index_iff)
    have "\<forall>e \<in> set (concat_list c). wf_entry e" using Cons.prems(2) by (simp add: wf_concat_iff)
    then have "\<forall>e \<in> set es'. wf_entry e"
      by (rule phase1_append_index_wf [rotated 2]) (rule Cons.IH *(1); assumption)+
    then show ?thesis unfolding *(2) by simp
  next
    case (K1_asterisk p)
    with Cons.prems(1) obtain d d' where *:
      "last (back_ensure_init (asterisk_init p) (concat_list c)) = ASTERISK d"
      "phase1_append d path thing mode = Inr d'"
      "c' = Concat (head c) (butlast (back_ensure_init (asterisk_init p) (concat_list c)) @ [ASTERISK d'])"
      by (auto simp: phase1_asterisk_iff)
    have "wf_concat d" using wf_last_back [OF _ Cons.prems(2) *(1)] by auto
    with Cons.IH [OF *(2)] show ?thesis unfolding *(3) using Cons.prems(2) by (intro wf_replace_last) auto
  next
    case (K1_append g p)
    then obtain f cs q where es:
      "last (back_ensure_init (array_init p) (concat_list c)) = ARRAY (Array f cs q)"
      using last_back_ensure_init(3) by blast
    have cs: "\<forall>d \<in> set cs. wf_concat d" using wf_last_back [OF _ Cons.prems(2) es] by auto
    obtain h ds where c': "c' = Concat h (butlast (back_ensure_init (array_init p) (concat_list c)) @
        [ARRAY (Array f ds q)])" and ds: "\<forall>d \<in> set ds. wf_concat d"
    proof (cases "g > generation (head c)")
      case True
      with Cons.prems(1) K1_append es obtain d where
        "phase1_append (concat_init p) path thing mode = Inr d"
        "c' = Concat ((head c)\<lparr>generation := g\<rparr>)
               (butlast (back_ensure_init (array_init p) (concat_list c)) @ [ARRAY (Array f (cs @ [d]) q)])"
        by (auto simp: phase1_append_iff)
      with that cs Cons.IH show thesis by auto
    next
      case False
      with Cons.prems(1) K1_append es obtain d where "cs \<noteq> []"
        "phase1_append (last cs) path thing mode = Inr d"
        "c' = Concat (head c) (butlast (back_ensure_init (array_init p) (concat_list c)) @
               [ARRAY (Array f (butlast cs @ [d]) q)])"
        by (auto simp: phase1_append_iff)
      with that cs Cons.IH show thesis by (auto dest: in_set_butlastD)
    qed
    show ?thesis unfolding c' using ds Cons.prems(2) by (intro wf_replace_last) auto
  qed
qed

section \<open>The root object\<close>

lemma phase1_append_object_iff:
  "phase1_append_object x path thing mode = Inr y \<longleftrightarrow>
     length path \<le> global_nesting_limit \<and>
     (\<exists>n p rest ms' d b d'. path = K1_name n p # rest \<and>
        try_emplace n (concat_init p) (object_map x) = (ms', d, b) \<and>
        phase1_append (set_implicit (still_implicit mode b d) d) rest thing mode = Inr d' \<and>
        y = Object (om_put n d' ms') (object_position x))"
  by (cases path)
    (auto simp: phase1_append_object_def res_simps split: key1_part.splits prod.splits)

fun designated_object :: "key1 \<Rightarrow> object \<Rightarrow> concat option" where
  "designated_object (K1_name n p # path) x =
     (case om_find n (object_map x) of None \<Rightarrow> None | Some c \<Rightarrow> designated path c)"
| "designated_object path x = None"

text \<open>Two keys diverge when they differ in a name and are the same chain of names before it.\<close>

fun diverges :: "key1 \<Rightarrow> key1 \<Rightarrow> bool" where
  "diverges (K1_name n p # k) (K1_name m q # l) \<longleftrightarrow> (if n = m then diverges k l else True)"
| "diverges k l \<longleftrightarrow> False"

lemma designated_name_before:
  assumes "last (back_ensure_init (object_init p) (concat_list c)) = OBJECT (Object ms q)"
  shows "designated (K1_name n p' # path) c =
    (case om_find n ms of None \<Rightarrow> None | Some d \<Rightarrow> designated path d)"
  using step_into_before_name [OF assms, of n p'] by simp

lemma designated_name_after:
  "designated (K1_name n p # path) (Concat h (es @ [OBJECT (Object ms q)])) =
    (case om_find n ms of None \<Rightarrow> None | Some d \<Rightarrow> designated path d)"
  by simp

lemma diverges_fresh:
  "diverges path other \<Longrightarrow> designated other (set_implicit b c) = designated other c"
  by (cases "(path, other)" rule: diverges.cases) (auto split: if_splits)

lemma try_emplace_find:
  "try_emplace n v ms = (ms', d, b) \<Longrightarrow> om_find m (om_put n d' ms') = (if m = n then Some d' else om_find m ms)"
  "try_emplace n v ms = (ms', d, b) \<Longrightarrow> om_find n ms = Some d \<or> om_find n ms = None \<and> d = v"
  by (auto simp: try_emplace_def om_find_put split: option.splits)

lemma diverges_init:
  "diverges path other \<Longrightarrow> designated other (concat_init p) = None"
  by (rule designated_fresh) (cases "(path, other)" rule: diverges.cases; simp)

lemma phase1_name_frame:
  assumes IH: "\<And>c c'. diverges path other \<Longrightarrow> phase1_append c path thing mode = Inr c' \<Longrightarrow>
      designated other c' = designated other c"
    and "try_emplace n (concat_init p) ms = (ms', d, b)"
    and "phase1_append (set_implicit (still_implicit mode b d) d) path thing mode = Inr d'"
    and "diverges (K1_name n p # path) (K1_name m p' # other)"
  shows "(case om_find m (om_put n d' ms') of None \<Rightarrow> None | Some d \<Rightarrow> designated other d) =
      (case om_find m ms of None \<Rightarrow> None | Some d \<Rightarrow> designated other d)"
proof (cases "m = n")
  case True
  then have div: "diverges path other" using assms(4) by simp
  then have "designated other d' = designated other d"
    using IH [OF div assms(3)] diverges_fresh by metis
  with True div try_emplace_find [OF assms(2)] diverges_init [OF div] show ?thesis by auto
next
  case False
  with try_emplace_find(1) [OF assms(2)] show ?thesis by simp
qed

lemma phase1_append_frame:
  "diverges path other \<Longrightarrow> phase1_append c path thing mode = Inr c' \<Longrightarrow>
     designated other c' = designated other c"
proof (induction path arbitrary: other c c')
  case (Cons part path)
  then obtain n p m p' rest where parts: "part = K1_name n p" "other = K1_name m p' # rest"
    by (cases "(part # path, other)" rule: diverges.cases) auto
  with Cons.prems(2) obtain ms q ms' d b d' where *:
    "last (back_ensure_init (object_init p) (concat_list c)) = OBJECT (Object ms q)"
    "try_emplace n (concat_init p) ms = (ms', d, b)"
    "phase1_append (set_implicit (still_implicit mode b d) d) path thing mode = Inr d'"
    "c' = Concat (head c) (butlast (back_ensure_init (object_init p) (concat_list c)) @
                          [OBJECT (Object (om_put n d' ms') q)])"
    by (auto simp: phase1_name_iff)
  show ?case unfolding *(4) parts(2) designated_name_after designated_name_before [OF *(1)]
    by (rule phase1_name_frame [OF Cons.IH *(2,3)]) (use Cons.prems(1) parts in auto)
qed simp

lemma phase1_append_object_frame:
  assumes "diverges path other" "phase1_append_object x path thing mode = Inr y"
  shows "designated_object other y = designated_object other x"
proof -
  obtain n p rest ms' d b d' where *: "path = K1_name n p # rest"
    "try_emplace n (concat_init p) (object_map x) = (ms', d, b)"
    "phase1_append (set_implicit (still_implicit mode b d) d) rest thing mode = Inr d'"
    "y = Object (om_put n d' ms') (object_position x)"
    using assms(2) by (auto simp: phase1_append_object_iff)
  with assms(1) obtain m p' l where "other = K1_name m p' # l"
    by (cases "(path, other)" rule: diverges.cases) auto
  with phase1_name_frame [OF phase1_append_frame *(2,3)] assms(1) * show ?thesis by simp
qed

lemma phase1_append_object_wf:
  assumes "\<And>d. wf_concat d \<Longrightarrow> wf_concat (thing d)"
    and "phase1_append_object x path thing mode = Inr y" "wf_object x"
  shows "wf_object y"
proof -
  obtain n p rest ms' d b d' where *:
    "try_emplace n (concat_init p) (object_map x) = (ms', d, b)"
    "phase1_append (set_implicit (still_implicit mode b d) d) rest thing mode = Inr d'"
    "y = Object (om_put n d' ms') (object_position x)"
    using assms(2) by (auto simp: phase1_append_object_iff)
  have ms: "om_inv (object_map x)" "\<forall>(k, c) \<in> set (object_map x). wf_concat c"
    using assms(3) by (cases x; simp)+
  have "wf_concat d'"
    by (rule phase1_append_wf [OF assms(1) *(2)]) (simp_all add: wf_try_emplace(1) [OF ms *(1)])
  then show ?thesis unfolding *(3) by (rule wf_om_put [OF wf_try_emplace(2,3) [OF ms *(1)]])
qed

lemma phase1_append_object_reaches:
  assumes "phase1_append_object x path thing mode = Inr y"
  shows "\<exists>d. designated_object path y = Some (thing d) \<and> found_or_fresh (designated_object path x) d"
proof -
  obtain n p rest ms' d b d' where *: "path = K1_name n p # rest"
    "try_emplace n (concat_init p) (object_map x) = (ms', d, b)"
    "phase1_append (set_implicit (still_implicit mode b d) d) rest thing mode = Inr d'"
    "y = Object (om_put n d' ms') (object_position x)"
    using assms by (auto simp: phase1_append_object_iff)
  obtain e where e: "designated rest d' = Some (thing e)"
    "found_or_fresh (designated rest (set_implicit (still_implicit mode b d) d)) e"
    using phase1_append_reaches [OF *(3)] by blast
  have "found_or_fresh (designated_object path x) e"
    using try_emplace_find(2) [OF *(2)] found_or_fresh_set_implicit [OF e(2)]
      found_or_fresh_init [of rest "still_implicit mode b d" p] e(2) *(1) by auto
  with e(1) * show ?thesis by (auto simp: om_find_put)
qed

section \<open>The nesting limit\<close>

definition nesting_error :: "error + 'a \<Rightarrow> bool" where
  "nesting_error r \<longleftrightarrow> (\<exists>p. r = Inl (Parse_error ''nesting depth exceeded'' p))"

lemma nesting_error_simps [simp]:
  "\<not> nesting_error (Inr a)"
  "nesting_error (Inl e) \<longleftrightarrow> (\<exists>p. e = Parse_error ''nesting depth exceeded'' p)"
  "nesting_error (rbind m (\<lambda>x. Inr (f x))) \<longleftrightarrow> nesting_error m"
  by (cases m; auto simp: nesting_error_def)+

lemma phase1_append_not_nesting_error:
  "\<not> nesting_error (phase1_append c path thing mode)"
  "\<not> nesting_error (phase1_append_asterisk c p path thing mode)"
  "\<not> nesting_error (phase1_append_name c p n path thing mode)"
  "\<not> nesting_error (phase1_append_index es p i path thing mode)"
  "\<not> nesting_error (phase1_append_append c p g path thing mode)"
proof (induction c path thing mode and c p path thing mode and c p n path thing mode
    and es p i path thing mode and c p g path thing mode
    rule: phase1_append_phase1_append_asterisk_phase1_append_name_phase1_append_index_phase1_append_append.induct)
qed (auto simp: phase1_simps Let_def split: list.splits key1_part.splits entry.splits
      object.splits array.splits prod.splits)

lemma phase1_append_object_nesting:
  "nesting_error (phase1_append_object x path thing mode) \<longleftrightarrow> length path > global_nesting_limit"
  by (cases path)
    (auto simp: phase1_append_object_def phase1_append_not_nesting_error
      split: key1_part.splits prod.splits)

section \<open>Properties\<close>

text \<open>C15: Phase one reaches the concat that the key designates: after a successful store,
  the key designates the result of the change, applied to the concat that the same key
  designated before (up to its implicit flag), or to a fresh one when there was none.\<close>

theorem phase1_store_reaches:
  "phase1_append_object x path thing mode = Inr y \<Longrightarrow>
     \<exists>d. designated_object path y = Some (thing d) \<and> found_or_fresh (designated_object path x) d"
  by (rule phase1_append_object_reaches)

abbreviation example_path :: key1 where
  "example_path \<equiv> [K1_name ''a'' no_position, K1_asterisk no_position, K1_append 1 no_position]"

abbreviation example_thing :: "concat \<Rightarrow> concat" where
  "example_thing \<equiv> \<lambda>c. Concat (head c) (concat_list c @ [NULL no_position])"

lemma example_store:
  "phase1_append_object (Object [] no_position) example_path example_thing Phase1_manifest =
     Inr (Object [(''a'', Concat (head (concat_init no_position))
       [ASTERISK (Concat ((head (concat_init no_position))\<lparr>generation := 1\<rparr>)
         [ARRAY (Array '''' [Concat (head (concat_init no_position)) [NULL no_position]] no_position)])])]
       no_position)"
  by code_simp

theorem phase1_store_reaches_witness:
  "\<exists>d y. designated_object example_path y = Some (example_thing d)"
  using phase1_store_reaches [OF example_store] by blast

text \<open>Frame: a store leaves the concat of every key alone whose names diverge from the
  key of the store.\<close>

theorem phase1_store_frame:
  "diverges path other \<Longrightarrow> phase1_append_object x path thing mode = Inr y \<Longrightarrow>
     designated_object other y = designated_object other x"
  by (rule phase1_append_object_frame)

theorem phase1_store_frame_witness:
  "\<exists>y. designated_object [K1_name ''b'' no_position] y =
     designated_object [K1_name ''b'' no_position] (Object [] no_position)"
  by (rule exI, rule phase1_store_frame [OF _ example_store]) simp

text \<open>A store keeps every map of the representation sorted and without duplicates when
  the change itself does.\<close>

theorem phase1_store_wf:
  "(\<And>d. wf_concat d \<Longrightarrow> wf_concat (thing d)) \<Longrightarrow> phase1_append_object x path thing mode = Inr y \<Longrightarrow>
     wf_object x \<Longrightarrow> wf_object y"
  by (rule phase1_append_object_wf)

theorem phase1_store_wf_witness:
  "\<exists>y. phase1_append_object (Object [] no_position) example_path example_thing Phase1_manifest = Inr y \<and>
     wf_object y"
proof (intro exI conjI)
  have "wf_concat (example_thing d)" if "wf_concat d" for d using that by (auto simp: wf_concat_iff)
  then show "wf_object (Object [(''a'', Concat (head (concat_init no_position))
       [ASTERISK (Concat ((head (concat_init no_position))\<lparr>generation := 1\<rparr>)
         [ARRAY (Array '''' [Concat (head (concat_init no_position)) [NULL no_position]] no_position)])])]
       no_position)"
    by (rule phase1_store_wf [OF _ example_store]) simp_all
qed (rule example_store)

text \<open>The nesting limit: a store reports that the nesting depth is exceeded exactly when
  its key has more than 96 parts.\<close>

theorem phase1_nesting_limit:
  "(\<exists>p. phase1_append_object x path thing mode = Inl (Parse_error ''nesting depth exceeded'' p)) \<longleftrightarrow>
   length path > 96"
  using phase1_append_object_nesting [of x path thing mode]
  by (simp add: nesting_error_def global_nesting_limit_def)

end
