(* ===== verification/Config_Jaxn.thy ===== *)
theory Config_Jaxn
  imports Config_Entry Complex_Main
begin

text \<open>
  JAXN values (\<open>jaxn_to_entry.hpp\<close>, \<open>jaxn_action.hpp\<close>): the consumer that
  builds an entry on a stack from the events of a JAXN parse, and the actions that turn
  the matches of the grammar rules into events, numbers included. The grammar, the
  unescaping of strings and the final conversion of a number belong to taoJSON: a parse
  is the list of the matches whose actions run, strings occur unescaped, and
  \<open>jaxn_json\<close> holds the functions and constants of taoJSON that the actions use.

  The lemmas show that the sequence of matches of a JAXN value leaves the entry of that
  value and an unchanged stack (the stack machine refines the recursive definition
  \<open>jaxn_entry\<close>), what happens to keys that occur twice, which hexadecimal numbers are
  accepted, and that the mantissa and the exponent collected from a decimal number
  truncate its value, exactly when no digit was dropped.
\<close>

section \<open>The consumer\<close>

text \<open>
  \<open>value\<close> is a \<open>std::optional\<close>; after \<open>std::move( value ).value()\<close> it still holds
  an entry, in the unspecified state of a moved-from object.
\<close>

datatype slot = No_value | Held entry | Moved_from

record jaxn_to_entry =
  jstack :: "entry list"
  jkeys :: "string list"
  jvalue :: slot

definition jaxn_to_entry_init :: jaxn_to_entry where
  "jaxn_to_entry_init = \<lparr>jstack = [], jkeys = [], jvalue = No_value\<rparr>"

type_synonym consumer_op = "jaxn_to_entry \<Rightarrow> error + jaxn_to_entry"

definition jx_emplace :: "entry \<Rightarrow> consumer_op" where
  "jx_emplace e st = Inr (st\<lparr>jvalue := Held e\<rparr>)"

text \<open>\<open>std::move( value ).value()\<close>.\<close>

definition jx_take_value :: "jaxn_to_entry \<Rightarrow> error + entry \<times> jaxn_to_entry" where
  "jx_take_value st =
     (case jvalue st of
        No_value \<Rightarrow> Inl (Logic_error ''bad optional access'')
      | Moved_from \<Rightarrow> Inl (Undefined_behaviour ''moved-from value'')
      | Held e \<Rightarrow> Inr (e, st\<lparr>jvalue := Moved_from\<rparr>))"

definition jx_begin_array :: "position \<Rightarrow> consumer_op" where
  "jx_begin_array p st = Inr (st\<lparr>jstack := jstack st @ [array_init p]\<rparr>)"

definition jx_begin_object :: "position \<Rightarrow> consumer_op" where
  "jx_begin_object p st = Inr (st\<lparr>jstack := jstack st @ [object_init p]\<rparr>)"

text \<open>A new concat with the flag \<open>remove\<close> and one more entry.\<close>

definition jx_concat_add :: "concat \<Rightarrow> entry \<Rightarrow> concat" where
  "jx_concat_add c e = Concat ((head c)\<lparr>remove := True\<rparr>) (concat_list c @ [e])"

definition jx_element :: "position \<Rightarrow> consumer_op" where
  "jx_element p st =
     (if jstack st = [] then Inl (Undefined_behaviour ''back of an empty vector'')
      else case last (jstack st) of
        ARRAY (Array f cs q) \<Rightarrow>
          rbind (jx_take_value st) (\<lambda>(e, st).
            Inr (st\<lparr>jstack := butlast (jstack st) @
                       [ARRAY (Array f (cs @ [jx_concat_add (concat_init p) e]) q)]\<rparr>))
      | _ \<Rightarrow> Inl (Assert_failed ''is_array()''))"

definition jx_key :: "string \<Rightarrow> consumer_op" where
  "jx_key k st = Inr (st\<lparr>jkeys := jkeys st @ [k]\<rparr>)"

definition jx_member :: "position \<Rightarrow> consumer_op" where
  "jx_member p st =
     (if jstack st = [] then Inl (Undefined_behaviour ''back of an empty vector'')
      else case last (jstack st) of
        OBJECT (Object xs q) \<Rightarrow>
          (if jkeys st = [] then Inl (Undefined_behaviour ''back of an empty vector'')
           else
             let k = last (jkeys st); (xs, c, b) = try_emplace k (concat_init p) xs in
             rbind (jx_take_value (st\<lparr>jkeys := butlast (jkeys st)\<rparr>)) (\<lambda>(e, st).
               Inr (st\<lparr>jstack := butlast (jstack st) @
                          [OBJECT (Object (om_put k (jx_concat_add c e) xs) q)]\<rparr>)))
      | _ \<Rightarrow> Inl (Assert_failed ''is_object()''))"

text \<open>\<open>end_array\<close> and \<open>end_object\<close> have the same body.\<close>

definition jx_end :: "consumer_op" where
  "jx_end st =
     (if jstack st = [] then Inl (Undefined_behaviour ''back of an empty vector'')
      else Inr (st\<lparr>jvalue := Held (last (jstack st)), jstack := butlast (jstack st)\<rparr>))"

section \<open>Numbers\<close>

text \<open>
  \<open>json::internal::number_state\<close>, as far as the actions use it. The digits live in a
  buffer, of which the first \<open>msize\<close> characters are in use.
\<close>

record number_state =
  mantissa :: string
  exponent10 :: int
  msize :: nat
  isfp :: bool
  eneg :: bool
  dropped :: bool

datatype number_value = Number_signed i64 | Number_unsigned u64 | Number_double double

fun jx_number :: "number_value \<Rightarrow> position \<Rightarrow> consumer_op" where
  "jx_number (Number_signed v) p = jx_emplace (SIGNED v p)"
| "jx_number (Number_unsigned v) p = jx_emplace (UNSIGNED v p)"
| "jx_number (Number_double v) p = jx_emplace (DOUBLE v p)"

record jaxn_json =
  hex_value :: "char \<Rightarrow> byte"  \<comment> \<open>\<open>hex_char_to_integer\<close>\<close>
  max_mantissa_digits :: nat
  number_init :: number_state
  number_success :: "bool \<Rightarrow> number_state \<Rightarrow> string + number_value"  \<comment> \<open>the text of its exception\<close>

definition esign_action :: "char \<Rightarrow> number_state \<Rightarrow> number_state" where
  "esign_action c r = r\<lparr>eneg := (c = CHR ''-'')\<rparr>"

definition nonzero_digit :: "char \<Rightarrow> bool" where
  "nonzero_digit c \<longleftrightarrow> c \<noteq> CHR ''0''"

definition idigits_action ::
  "nat \<Rightarrow> string \<Rightarrow> position \<Rightarrow> number_state \<Rightarrow> error + number_state" where
  "idigits_action max_digits s p r =
     (if length s = 1 \<and> hd s = CHR ''0'' then Inr r
      else if length s > 2 ^ 20 then
        Inl (Parse_error ''JSON number with 1 megabyte digits'' p)
      else
        let c = min (length s) max_digits in
        Inr (r\<lparr>mantissa := take c s,
               exponent10 := exponent10 r + int (length s - c),
               msize := c,
               dropped := dropped r \<or> list_ex nonzero_digit (drop c s)\<rparr>))"

definition strip_leading :: "string \<Rightarrow> string" where
  "strip_leading s = dropWhile (\<lambda>c. c = CHR ''0'') s"

definition strip_trailing :: "string \<Rightarrow> string" where
  "strip_trailing s = rev (dropWhile (\<lambda>c. c = CHR ''0'') (rev s))"

text \<open>
  With more than the maximum of digits in the buffer the difference of the two sizes would
  wrap around and \<open>memcpy\<close> leave the buffer.
\<close>

definition fdigits_action :: "nat \<Rightarrow> string \<Rightarrow> number_state \<Rightarrow> error + number_state" where
  "fdigits_action max_digits s r =
     (let e = strip_trailing s;
          b = (if msize r = 0 then strip_leading e else e);
          zeros = length e - length b in
      if max_digits < msize r then Inl (Undefined_behaviour ''mantissa'')
      else
        let c = min (length b) (max_digits - msize r) in
        Inr (r\<lparr>isfp := True,
               mantissa := take (msize r) (mantissa r) @ take c b,
               exponent10 := exponent10 r - int zeros - int c,
               msize := msize r + c,
               dropped := dropped r \<or> list_ex nonzero_digit (drop c b)\<rparr>))"

definition edigits_action :: "string \<Rightarrow> position \<Rightarrow> number_state \<Rightarrow> error + number_state" where
  "edigits_action s p r =
     (let b = strip_leading s in
      if length b > 9 then
        Inl (Parse_error ''JSON exponent has more than 9 significant digits'' p)
      else
        let x = foldl (\<lambda>x c. x * 10 + int (digit_value c)) 0 b in
        Inr (r\<lparr>isfp := True,
               exponent10 := exponent10 r + (if eneg r then - x else x)\<rparr>))"

datatype number_match = Esign char | Idigits string | Fdigits string | Edigits string

fun number_action ::
  "jaxn_json \<Rightarrow> number_match \<times> position \<Rightarrow> number_state \<Rightarrow> error + number_state" where
  "number_action js (Esign c, p) r = Inr (esign_action c r)"
| "number_action js (Idigits s, p) r = idigits_action (max_mantissa_digits js) s p r"
| "number_action js (Fdigits s, p) r = fdigits_action (max_mantissa_digits js) s r"
| "number_action js (Edigits s, p) r = edigits_action s p r"

fun hex_digits :: "(char \<Rightarrow> byte) \<Rightarrow> string \<Rightarrow> position \<Rightarrow> u64 \<Rightarrow> error + u64" where
  "hex_digits hex [] p v = Inr v"
| "hex_digits hex (c # s) p v =
     (if and v 0xF000000000000000 \<noteq> 0 then
        Inl (Parse_error ''JAXN hexadecimal number too large'' p)
      else hex_digits hex s p (push_bit 4 v + ucast (hex c)))"

definition hexnum_action :: "(char \<Rightarrow> byte) \<Rightarrow> bool \<Rightarrow> string \<Rightarrow> position \<Rightarrow> error + number_value" where
  "hexnum_action hex neg s p =
     rbind (hex_digits hex s p 0) (\<lambda>v.
       if neg then
         if v < 9223372036854775808 then Inr (Number_signed (- v))
         else if v = 9223372036854775808 then Inr (Number_signed (- 9223372036854775807 - 1))
         else Inl (Parse_error ''JAXN hexadecimal number too large to negate'' p)
       else Inr (Number_unsigned v))"

section \<open>The actions\<close>

text \<open>
  One constructor per rule with an action. The two boolean arguments are the template
  parameter \<open>NEG\<close>; the string rules come with their unescaped value.
\<close>

datatype jaxn_scalar =
    Kw_null | Kw_true | Kw_false
  | Hexnum bool string
  | Zero bool | Kw_nan | Kw_infinity bool
  | Number bool "(number_match \<times> position) list"
  | String_value string | Binary_value "byte list"

datatype jaxn_match =
    Scalar jaxn_scalar
  | Identifier string
  | Key string
  | Array_begin | Array_element | Array_end
  | Object_begin | Object_element | Object_end

text \<open>The actions of the numbers without digits, and the \<open>success\<close> functions.\<close>

definition nan_action :: "position \<Rightarrow> consumer_op" where
  [simp]: "nan_action p = jx_number (Number_double 0x7FF8000000000000) p"

definition infinity_action :: "bool \<Rightarrow> position \<Rightarrow> consumer_op" where
  [simp]: "infinity_action neg p =
     jx_number (Number_double (if neg then 0xFFF0000000000000 else 0x7FF0000000000000)) p"

definition number_rule_action ::
  "jaxn_json \<Rightarrow> bool \<Rightarrow> (number_match \<times> position) list \<Rightarrow> position \<Rightarrow> consumer_op" where
  [simp]: "number_rule_action js neg ms p st =
     rbind (fold_res (number_action js) ms (number_init js)) (\<lambda>r.
       case number_success js neg r of
         Inl m \<Rightarrow> Inl (Parse_error m p)
       | Inr v \<Rightarrow> jx_number v p st)"

definition string_success :: "position \<Rightarrow> string \<Rightarrow> consumer_op" where
  [simp]: "string_success p s = jx_emplace (STRING s p)"

definition key_success :: "position \<Rightarrow> string \<Rightarrow> consumer_op" where
  [simp]: "key_success p s = jx_key s"

definition binary_success :: "position \<Rightarrow> byte list \<Rightarrow> consumer_op" where
  [simp]: "binary_success p b = jx_emplace (BINARY b p)"

fun jaxn_action :: "jaxn_json \<Rightarrow> jaxn_match \<times> position \<Rightarrow> consumer_op" where
  "jaxn_action js (Scalar Kw_null, p) st = jx_emplace (NULL p) st"
| "jaxn_action js (Scalar Kw_true, p) st = jx_emplace (BOOLEAN True p) st"
| "jaxn_action js (Scalar Kw_false, p) st = jx_emplace (BOOLEAN False p) st"
| "jaxn_action js (Identifier s, p) st = jx_key s st"
| "jaxn_action js (Scalar (Hexnum neg s), p) st =
     rbind (hexnum_action (hex_value js) neg s p) (\<lambda>v. jx_number v p st)"
| "jaxn_action js (Array_begin, p) st = jx_begin_array p st"
| "jaxn_action js (Array_element, p) st = jx_element p st"
| "jaxn_action js (Array_end, p) st = jx_end st"
| "jaxn_action js (Object_begin, p) st = jx_begin_object p st"
| "jaxn_action js (Object_element, p) st = jx_member p st"
| "jaxn_action js (Object_end, p) st = jx_end st"
| "jaxn_action js (Scalar (Zero neg), p) st =
     jx_number (if neg then Number_signed 0 else Number_unsigned 0) p st"
| "jaxn_action js (Scalar Kw_nan, p) st = nan_action p st"
| "jaxn_action js (Scalar (Kw_infinity neg), p) st = infinity_action neg p st"
| "jaxn_action js (Scalar (Number neg ms), p) st = number_rule_action js neg ms p st"
| "jaxn_action js (Scalar (String_value s), p) st = string_success p s st"
| "jaxn_action js (Key s, p) st = key_success p s st"
| "jaxn_action js (Scalar (Binary_value b), p) st = binary_success p b st"

definition jaxn_run :: "jaxn_json \<Rightarrow> (jaxn_match \<times> position) list \<Rightarrow> consumer_op" where
  "jaxn_run js = fold_res (jaxn_action js)"

section \<open>The value that a parse stands for\<close>

text \<open>
  The syntax tree of a JAXN value with the positions of its matches; the key of a member is
  an identifier or a quoted string.
\<close>

datatype jaxn =
    J_scalar jaxn_scalar position
  | J_array position "(jaxn \<times> position) list" position
  | J_object position "((bool \<times> string \<times> position) \<times> jaxn \<times> position) list" position

definition key_match :: "bool \<times> string \<times> position \<Rightarrow> jaxn_match \<times> position" where
  "key_match = (\<lambda>(quoted, k, p). (if quoted then Key k else Identifier k, p))"

definition key_name :: "bool \<times> string \<times> position \<Rightarrow> string" where
  "key_name = (\<lambda>(quoted, k, p). k)"

fun matches :: "jaxn \<Rightarrow> (jaxn_match \<times> position) list"
  and element_matches :: "(jaxn \<times> position) list \<Rightarrow> (jaxn_match \<times> position) list"
  and member_matches ::
    "((bool \<times> string \<times> position) \<times> jaxn \<times> position) list \<Rightarrow> (jaxn_match \<times> position) list"
where
  "matches (J_scalar x p) = [(Scalar x, p)]"
| "matches (J_array p es q) = (Array_begin, p) # element_matches es @ [(Array_end, q)]"
| "matches (J_object p ms q) = (Object_begin, p) # member_matches ms @ [(Object_end, q)]"
| "element_matches [] = []"
| "element_matches ((v, p) # es) = matches v @ (Array_element, p) # element_matches es"
| "member_matches [] = []"
| "member_matches ((k, v, p) # ms) =
     key_match k # matches v @ (Object_element, p) # member_matches ms"

fun number_entry :: "number_value \<Rightarrow> position \<Rightarrow> entry" where
  "number_entry (Number_signed v) p = SIGNED v p"
| "number_entry (Number_unsigned v) p = UNSIGNED v p"
| "number_entry (Number_double v) p = DOUBLE v p"

fun scalar_entry :: "jaxn_json \<Rightarrow> jaxn_scalar \<Rightarrow> position \<Rightarrow> error + entry" where
  "scalar_entry js Kw_null p = Inr (NULL p)"
| "scalar_entry js Kw_true p = Inr (BOOLEAN True p)"
| "scalar_entry js Kw_false p = Inr (BOOLEAN False p)"
| "scalar_entry js (Hexnum neg s) p =
     rbind (hexnum_action (hex_value js) neg s p) (\<lambda>v. Inr (number_entry v p))"
| "scalar_entry js (Zero neg) p = Inr (if neg then SIGNED 0 p else UNSIGNED 0 p)"
| "scalar_entry js Kw_nan p = Inr (DOUBLE 0x7FF8000000000000 p)"
| "scalar_entry js (Kw_infinity neg) p =
     Inr (DOUBLE (if neg then 0xFFF0000000000000 else 0x7FF0000000000000) p)"
| "scalar_entry js (Number neg ms) p =
     rbind (fold_res (number_action js) ms (number_init js)) (\<lambda>r.
       case number_success js neg r of
         Inl m \<Rightarrow> Inl (Parse_error m p)
       | Inr v \<Rightarrow> Inr (number_entry v p))"
| "scalar_entry js (String_value s) p = Inr (STRING s p)"
| "scalar_entry js (Binary_value b) p = Inr (BINARY b p)"

definition element_concat :: "entry \<Rightarrow> position \<Rightarrow> concat" where
  "element_concat e p = jx_concat_add (concat_init p) e"

text \<open>A member joins the concat of its key, which is new or from an earlier member.\<close>

definition add_member ::
  "string \<Rightarrow> position \<Rightarrow> entry \<Rightarrow> (string, concat) omap \<Rightarrow> (string, concat) omap" where
  "add_member k p e xs =
     om_put k (jx_concat_add
       (case om_find k xs of None \<Rightarrow> concat_init p | Some c \<Rightarrow> c) e) xs"

fun jaxn_entry :: "jaxn_json \<Rightarrow> jaxn \<Rightarrow> error + entry"
  and jaxn_elements :: "jaxn_json \<Rightarrow> (jaxn \<times> position) list \<Rightarrow> concat list \<Rightarrow> error + concat list"
  and jaxn_members ::
    "jaxn_json \<Rightarrow> ((bool \<times> string \<times> position) \<times> jaxn \<times> position) list \<Rightarrow>
       (string, concat) omap \<Rightarrow> error + (string, concat) omap"
where
  "jaxn_entry js (J_scalar x p) = scalar_entry js x p"
| "jaxn_entry js (J_array p es q) =
     rbind (jaxn_elements js es []) (\<lambda>cs. Inr (ARRAY (Array '''' cs p)))"
| "jaxn_entry js (J_object p ms q) =
     rbind (jaxn_members js ms []) (\<lambda>xs. Inr (OBJECT (Object xs p)))"
| "jaxn_elements js [] cs = Inr cs"
| "jaxn_elements js ((v, p) # es) cs =
     rbind (jaxn_entry js v) (\<lambda>e. jaxn_elements js es (cs @ [element_concat e p]))"
| "jaxn_members js [] xs = Inr xs"
| "jaxn_members js ((k, v, p) # ms) xs =
     rbind (jaxn_entry js v) (\<lambda>e. jaxn_members js ms (add_member (key_name k) p e xs))"

section \<open>The stack machine refines the value\<close>

lemma om_put_again: "om_inv m \<Longrightarrow> om_put k v (om_put k w m) = om_put k v m"
  by (induction m) auto

lemma add_member_try_emplace:
  assumes "om_inv xs" "try_emplace k (concat_init p) xs = (ys, c, b)"
  shows "om_put k (jx_concat_add c e) ys = add_member k p e xs"
  using assms
  by (auto simp: add_member_def try_emplace_def om_put_again split: option.splits)

lemma add_member_inv: "om_inv xs \<Longrightarrow> om_inv (add_member k p e xs)"
  by (simp add: add_member_def om_inv_put)

lemma jx_number_entry [simp]: "jx_number v p = jx_emplace (number_entry v p)"
  by (cases v) (simp_all add: fun_eq_iff)

lemma jaxn_action_scalar [simp]:
  "jaxn_action js (Scalar x, p) st =
     rbind (scalar_entry js x p) (\<lambda>e. Inr (st\<lparr>jvalue := Held e\<rparr>))"
  by (cases x)
    (auto simp: jx_emplace_def rbind_assoc intro!: rbind_cong split: sum.split)

lemma jaxn_action_key [simp]:
  "jaxn_action js (key_match k) st = Inr (st\<lparr>jkeys := jkeys st @ [key_name k]\<rparr>)"
  by (cases k) (auto simp: key_match_def key_name_def jx_key_def)

lemma jaxn_action_element:
  assumes "jstack st = s @ [ARRAY (Array '''' cs q)]" "jvalue st = Held e"
  shows "jaxn_action js (Array_element, p) st =
    Inr (st\<lparr>jstack := s @ [ARRAY (Array '''' (cs @ [element_concat e p]) q)],
            jvalue := Moved_from\<rparr>)"
  using assms by (simp add: jx_element_def jx_take_value_def element_concat_def)

lemma jaxn_action_member:
  assumes "jstack st = s @ [OBJECT (Object xs q)]" "jvalue st = Held e"
    and "jkeys st = ks @ [k]" "om_inv xs"
  shows "jaxn_action js (Object_element, p) st =
    Inr (st\<lparr>jstack := s @ [OBJECT (Object (add_member k p e xs) q)],
            jkeys := ks, jvalue := Moved_from\<rparr>)"
proof -
  obtain ys c b where *: "try_emplace k (concat_init p) xs = (ys, c, b)"
    by (cases "try_emplace k (concat_init p) xs") auto
  with assms show ?thesis
    by (simp add: jx_member_def jx_take_value_def add_member_try_emplace [OF assms(4) *])
qed

lemma jaxn_action_brackets [simp]:
  "jaxn_action js (Array_begin, p) st = Inr (st\<lparr>jstack := jstack st @ [array_init p]\<rparr>)"
  "jaxn_action js (Object_begin, p) st = Inr (st\<lparr>jstack := jstack st @ [object_init p]\<rparr>)"
  "jstack st = s @ [e] \<Longrightarrow>
     jaxn_action js (Array_end, p) st = Inr (st\<lparr>jstack := s, jvalue := Held e\<rparr>)"
  "jstack st = s @ [e] \<Longrightarrow>
     jaxn_action js (Object_end, p) st = Inr (st\<lparr>jstack := s, jvalue := Held e\<rparr>)"
  by (simp_all add: jx_begin_array_def jx_begin_object_def jx_end_def)

declare jaxn_action.simps [simp del]

lemma jaxn_run_simps [simp]:
  "jaxn_run js [] st = Inr st"
  "jaxn_run js (x # xs) st = rbind (jaxn_action js x st) (jaxn_run js xs)"
  "jaxn_run js (xs @ ys) st = rbind (jaxn_run js xs st) (jaxn_run js ys)"
  by (simp_all add: jaxn_run_def fun_eq_iff)

lemma jaxn_elements_run:
  assumes "\<And>v st. v \<in> fst ` set es \<Longrightarrow> jaxn_run js (matches v) st =
      rbind (jaxn_entry js v) (\<lambda>e. Inr (st\<lparr>jvalue := Held e\<rparr>))"
    and "jstack st = s @ [ARRAY (Array '''' cs q)]"
  shows "jaxn_run js (element_matches es) st =
    rbind (jaxn_elements js es cs) (\<lambda>cs'. Inr (st\<lparr>
      jstack := s @ [ARRAY (Array '''' cs' q)],
      jvalue := (if es = [] then jvalue st else Moved_from)\<rparr>))"
  using assms
proof (induction es arbitrary: st cs)
  case Nil
  then show ?case by simp
next
  case (Cons x es)
  obtain v p where x: "x = (v, p)" by (cases x)
  show ?case
  proof (cases "jaxn_entry js v")
    case (Inr e)
    with Cons.prems x show ?thesis
      by (simp add: jaxn_action_element Cons.IH)
  qed (use Cons.prems x in simp)
qed

lemma jaxn_members_run:
  assumes "\<And>v st. v \<in> (\<lambda>x. fst (snd x)) ` set ms \<Longrightarrow> jaxn_run js (matches v) st =
      rbind (jaxn_entry js v) (\<lambda>e. Inr (st\<lparr>jvalue := Held e\<rparr>))"
    and "jstack st = s @ [OBJECT (Object xs q)]" "om_inv xs"
  shows "jaxn_run js (member_matches ms) st =
    rbind (jaxn_members js ms xs) (\<lambda>xs'. Inr (st\<lparr>
      jstack := s @ [OBJECT (Object xs' q)],
      jvalue := (if ms = [] then jvalue st else Moved_from)\<rparr>))"
  using assms
proof (induction ms arbitrary: st xs)
  case Nil
  then show ?case by simp
next
  case (Cons x ms)
  obtain k v p where x: "x = (k, v, p)" by (cases x)
  show ?case
  proof (cases "jaxn_entry js v")
    case (Inr e)
    with Cons.prems x show ?thesis
      by (simp add: jaxn_action_member [where ks = "jkeys st"] add_member_inv Cons.IH)
  qed (use Cons.prems x in simp)
qed

lemma jaxn_run_matches:
  "jaxn_run js (matches v) st = rbind (jaxn_entry js v) (\<lambda>e. Inr (st\<lparr>jvalue := Held e\<rparr>))"
proof (induction v arbitrary: st)
  case (J_scalar x p)
  show ?case by (cases "scalar_entry js x p") simp_all
next
  case (J_array p es q)
  have "\<And>v st. v \<in> fst ` set es \<Longrightarrow> jaxn_run js (matches v) st =
      rbind (jaxn_entry js v) (\<lambda>e. Inr (st\<lparr>jvalue := Held e\<rparr>))"
    using J_array by (force simp: prod_set_simps)
  note run = jaxn_elements_run [OF this, where s = "jstack st" and cs = "[]" and q = p]
  show ?case
    by (cases "jaxn_elements js es []") (simp_all add: array_init_def run)
next
  case (J_object p ms q)
  have "\<And>v st. v \<in> (\<lambda>x. fst (snd x)) ` set ms \<Longrightarrow> jaxn_run js (matches v) st =
      rbind (jaxn_entry js v) (\<lambda>e. Inr (st\<lparr>jvalue := Held e\<rparr>))"
    using J_object by (force simp: prod_set_simps)
  note run = jaxn_members_run [OF this, where s = "jstack st" and xs = "[]" and q = p]
  show ?case
    by (cases "jaxn_members js ms []") (simp_all add: object_init_def run)
qed

text \<open>The entries of the members with a given key, in the order of the text.\<close>

definition entries_of ::
  "string \<Rightarrow> ((bool \<times> string \<times> position) \<times> jaxn \<times> position) list \<Rightarrow> entry list \<Rightarrow> entry list" where
  "entries_of k ms es = map snd (filter (\<lambda>(m, e). key_name (fst m) = k) (zip ms es))"

lemma entries_of_simps [simp]:
  "entries_of k [] es = []" "entries_of k ms [] = []"
  "entries_of k (m # ms) (e # es) =
     (if key_name (fst m) = k then [e] else []) @ entries_of k ms es"
  by (simp_all add: entries_of_def)

definition found_entries :: "concat option \<Rightarrow> entry list" where
  "found_entries x = (case x of None \<Rightarrow> [] | Some c \<Rightarrow> concat_list c)"

definition added_concat :: "concat \<Rightarrow> bool" where
  "added_concat c \<longleftrightarrow> remove (head c) \<and> \<not> implicit (head c) \<and> \<not> temporary (head c) \<and> concat_list c \<noteq> []"

lemma found_entries_add:
  "found_entries (om_find k (add_member k' p e xs)) =
     found_entries (om_find k xs) @ (if k' = k then [e] else [])"
  by (auto simp: add_member_def om_find_put found_entries_def jx_concat_add_def concat_init_def
      split: option.splits)

lemma om_put_in: "om_inv m \<Longrightarrow> x \<in> set (om_put k v m) \<Longrightarrow> x = (k, v) \<or> x \<in> set m"
  using set_om_put [of k v m] by auto

lemma added_add_member:
  assumes "om_inv xs" "\<forall>(k, c) \<in> set xs. added_concat c"
  shows "\<forall>(k, c) \<in> set (add_member k' p e xs). added_concat c"
proof -
  have "added_concat (jx_concat_add (case om_find k' xs of None \<Rightarrow> concat_init p | Some c \<Rightarrow> c) e)"
    using assms by (auto simp: added_concat_def jx_concat_add_def concat_init_def
        dest!: om_find_in split: option.splits)
  with assms show ?thesis by (auto simp: add_member_def dest!: om_put_in)
qed

lemma jaxn_members_found:
  assumes "jaxn_members js ms xs = Inr ys" "om_inv xs" "\<forall>(k, c) \<in> set xs. added_concat c"
  shows "\<exists>es. list_all2 (\<lambda>m e. jaxn_entry js (fst (snd m)) = Inr e) ms es \<and>
    (\<forall>k. found_entries (om_find k ys) = found_entries (om_find k xs) @ entries_of k ms es) \<and>
    om_inv ys \<and> (\<forall>(k, c) \<in> set ys. added_concat c)"
  using assms
proof (induction ms arbitrary: xs)
  case Nil
  then show ?case by simp
next
  case (Cons m ms)
  obtain k v p where m: "m = (k, v, p)" by (cases m)
  with Cons.prems obtain e where e: "jaxn_entry js v = Inr e"
    "jaxn_members js ms (add_member (key_name k) p e xs) = Inr ys"
    by (auto simp: res_simps)
  from Cons.IH [OF e(2) add_member_inv added_add_member] Cons.prems obtain es where
    "list_all2 (\<lambda>m e. jaxn_entry js (fst (snd m)) = Inr e) ms es"
    "\<forall>k'. found_entries (om_find k' ys) =
       found_entries (om_find k' (add_member (key_name k) p e xs)) @ entries_of k' ms es"
    "om_inv ys" "\<forall>(k, c) \<in> set ys. added_concat c"
    by auto
  with e m show ?case
    by (intro exI [of _ "e # es"]) (auto simp: found_entries_add)
qed

text \<open>C33: reading a JAXN value leaves the entry of the value and nothing else: whatever is on
  the stacks of the consumer stays there, no operation meets an empty stack, a missing value
  or an entry of the wrong kind, and the only exceptions are those of the numbers.\<close>

theorem jaxn_value_entry:
  "jaxn_run js (matches v) st = rbind (jaxn_entry js v) (\<lambda>e. Inr (st\<lparr>jvalue := Held e\<rparr>))"
  by (rule jaxn_run_matches)

text \<open>C34: the members of a JAXN object: every member is the list of the entries that the text
  gives for its key, in their order, so that a key which occurs twice leaves the sum of its
  values; no member is empty, implicit or temporary, and the map is sorted.\<close>

theorem jaxn_object_members:
  assumes "jaxn_run js (matches (J_object p ms q)) jaxn_to_entry_init = Inr st"
  shows "\<exists>xs es. jvalue st = Held (OBJECT (Object xs p)) \<and>
    list_all2 (\<lambda>m e. jaxn_entry js (fst (snd m)) = Inr e) ms es \<and>
    (\<forall>k. found_entries (om_find k xs) = entries_of k ms es) \<and>
    om_inv xs \<and> (\<forall>(k, c) \<in> set xs. added_concat c)"
proof -
  from assms obtain xs where xs: "jaxn_members js ms [] = Inr xs"
    "jvalue st = Held (OBJECT (Object xs p))"
    unfolding jaxn_run_matches by (auto simp: res_simps)
  with jaxn_members_found [OF xs(1)] show ?thesis by (auto simp: found_entries_def)
qed

text \<open>A concrete instance of the functions of taoJSON for the examples.\<close>

definition number_zero :: number_state where
  "number_zero = \<lparr>mantissa = '''', exponent10 = 0, msize = 0, isfp = False, eneg = False,
                  dropped = False\<rparr>"

definition hex_example :: "char \<Rightarrow> byte" where
  "hex_example c = of_nat (if is_digit c then digit_value c else of_char c mod 32 + 9)"

definition json_example :: jaxn_json where
  "json_example = \<lparr>hex_value = hex_example, max_mantissa_digits = 3, number_init = number_zero,
     number_success = \<lambda>neg r. Inr (Number_unsigned (of_nat (stoul (mantissa r))))\<rparr>"

theorem jaxn_object_members_witness:
  "\<exists>xs es st. jaxn_run json_example (matches (J_object no_position
      [((False, ''a'', no_position), J_scalar Kw_true no_position, no_position),
       ((True, ''a'', no_position), J_scalar Kw_null no_position, no_position)] no_position))
      jaxn_to_entry_init = Inr st \<and>
    jvalue st = Held (OBJECT (Object xs no_position)) \<and>
    found_entries (om_find ''a'' xs) = [BOOLEAN True no_position, NULL no_position]"
proof -
  let ?ms = "[((False, ''a'', no_position), J_scalar Kw_true no_position, no_position),
       ((True, ''a'', no_position), J_scalar Kw_null no_position, no_position)]"
  obtain st where st: "jaxn_run json_example (matches (J_object no_position ?ms no_position))
      jaxn_to_entry_init = Inr st"
    unfolding jaxn_run_matches by simp
  obtain xs es where *: "jvalue st = Held (OBJECT (Object xs no_position))"
    "list_all2 (\<lambda>m e. jaxn_entry json_example (fst (snd m)) = Inr e) ?ms es"
    "\<forall>k. found_entries (om_find k xs) = entries_of k ?ms es"
    using jaxn_object_members [OF st] by blast
  from *(2) have "es = [BOOLEAN True no_position, NULL no_position]"
    by (auto simp: list_all2_Cons1)
  with * st show ?thesis by (auto simp: key_name_def intro!: exI [of _ st])
qed

section \<open>Hexadecimal numbers\<close>

lemma top_nibble: "and v 0xF000000000000000 = (0 :: 64 word) \<longleftrightarrow> v < 2 ^ 60"
proof -
  have m: "(0xF000000000000000 :: 64 word) = push_bit 60 (mask 4)" by (simp add: mask_eq_exp_minus_1 push_bit_eq_mult)
  have 1: "and v (push_bit 60 (mask 4)) = push_bit 60 (drop_bit 60 v)"
    by (rule bit_word_eqI) (auto simp: bit_simps)
  have "push_bit 60 (drop_bit 60 v) = 0 \<longleftrightarrow> uint v div 2 ^ 60 = 0"
  proof -
    have "push_bit 60 (drop_bit 60 v) = v - take_bit 60 v"
      using bits_ident [of 60 v] by (simp add: algebra_simps)
    then have "push_bit 60 (drop_bit 60 v) = 0 \<longleftrightarrow> take_bit 60 v = v" by auto
    also have "\<dots> \<longleftrightarrow> take_bit 60 (uint v) = uint v"
      by (metis unsigned_take_bit_eq word_uint_eq_iff)
    also have "\<dots> \<longleftrightarrow> uint v div 2 ^ 60 = 0" 
      using uint_nonnegative [of v] by (auto simp: take_bit_int_eq_self_iff div_pos_pos_trivial dest: zdiv_mono1 [of "2 ^ 60" _ "2 ^ 60"])
    finally show ?thesis .
  qed
  moreover have "uint v div 2 ^ 60 = 0 \<longleftrightarrow> uint v < 2 ^ 60" by (auto simp: zdiv_eq_0_iff)
  ultimately show ?thesis by (simp add: m 1 word_less_alt)
qed
lemma next_digit: "v < (2 ^ 60 :: 64 word) \<Longrightarrow> unat (d :: 8 word) < 16 \<Longrightarrow>
  unat (push_bit 4 v + ucast d) = 16 * unat v + unat d"
  by (simp add: push_bit_eq_mult word_less_nat_alt unat_word_ariths unsigned_ucast_eq take_bit_eq_mod)

text \<open>The number that a string of hexadecimal digits denotes, from a prefix with value \<open>n\<close>.\<close>

definition hex_number :: "(char \<Rightarrow> byte) \<Rightarrow> string \<Rightarrow> nat \<Rightarrow> nat" where
  "hex_number hex s n = foldl (\<lambda>n c. 16 * n + unat (hex c)) n s"

lemma hex_number_ge: "n \<le> hex_number hex s n"
proof (induction s arbitrary: n)
  case (Cons c s)
  from Cons [of "16 * n + unat (hex c)"] show ?case by (simp add: hex_number_def)
qed (simp add: hex_number_def)

lemma hex_digits_value:
  assumes "\<forall>c \<in> set s. unat (hex c) < 16"
  shows "hex_digits hex s p v =
    (if hex_number hex s (unat v) < 2 ^ 64 then Inr (of_nat (hex_number hex s (unat v)))
     else Inl (Parse_error ''JAXN hexadecimal number too large'' p))"
  using assms
proof (induction s arbitrary: v)
  case Nil
  then show ?case using unsigned_less [of v] by (simp add: hex_number_def)
next
  case (Cons c s)
  have step: "hex_number hex (c # s) n = hex_number hex s (16 * n + unat (hex c))" for n
    by (simp add: hex_number_def)
  show ?case
  proof (cases "v < 2 ^ 60")
    case True
    with Cons show ?thesis by (simp add: top_nibble next_digit step)
  next
    case False
    then have "2 ^ 60 \<le> unat v" by (simp add: word_less_nat_alt)
    then have "2 ^ 64 \<le> hex_number hex (c # s) (unat v)"
      using hex_number_ge [of "16 * unat v + unat (hex c)" hex s] step by simp
    with False show ?thesis by (simp add: top_nibble)
  qed
qed

lemma sint_minus_of_nat: "n \<le> 2 ^ 63 \<Longrightarrow> sint (- of_nat n :: 64 word) = - int n"
proof -
  assume "n \<le> 2 ^ 63"
  have "sint (- of_nat n :: 64 word) = signed_take_bit 63 (- int n)"
    using sint_sbintrunc' [of "- int n", where 'a = 64] by simp
  also have "\<dots> = - int n"
    using \<open>n \<le> 2 ^ 63\<close> by (simp add: signed_take_bit_int_eq_self_iff)
  finally show ?thesis .
qed

text \<open>C35: a hexadecimal number is read exactly or rejected: without a sign every value below
  $2^{64}$ becomes an unsigned integer, with a minus sign every value up to $2^{63}$ becomes the
  negated signed integer, and larger ones raise one of two errors.\<close>

theorem hexnum_exact:
  assumes "\<forall>c \<in> set s. unat (hex c) < 16" and "n = hex_number hex s 0"
  shows "hexnum_action hex False s p =
      (if n < 2 ^ 64 then Inr (Number_unsigned (of_nat n))
       else Inl (Parse_error ''JAXN hexadecimal number too large'' p)) \<and>
    (\<exists>w. hexnum_action hex True s p =
      (if n \<le> 2 ^ 63 then Inr (Number_signed w)
       else if n < 2 ^ 64 then Inl (Parse_error ''JAXN hexadecimal number too large to negate'' p)
       else Inl (Parse_error ''JAXN hexadecimal number too large'' p)) \<and>
      (n \<le> 2 ^ 63 \<longrightarrow> sint w = - int n))"
proof -
  have d: "hex_digits hex s p 0 = (if n < 2 ^ 64 then Inr (of_nat n)
      else Inl (Parse_error ''JAXN hexadecimal number too large'' p))"
    using hex_digits_value [OF assms(1), of p 0] assms(2) by simp
  consider "n < 2 ^ 63" | "n = 2 ^ 63" | "2 ^ 63 < n" "n < 2 ^ 64" | "2 ^ 64 \<le> n" by linarith
  then show ?thesis
  proof cases
    case 1
    then have "(of_nat n :: u64) < 9223372036854775808"
      by (simp add: word_less_nat_alt unat_of_nat)
    with 1 d show ?thesis
      by (auto simp: hexnum_action_def sint_minus_of_nat intro!: exI [of _ "- of_nat n"])
  next
    case 2
    with d show ?thesis by (simp add: hexnum_action_def)
  next
    case 3
    then have "\<not> (of_nat n :: u64) \<le> 9223372036854775808"
      by (simp add: word_le_nat_alt unat_of_nat)
    with 3 d show ?thesis by (auto simp: hexnum_action_def)
  next
    case 4
    with d show ?thesis by (simp add: hexnum_action_def)
  qed
qed

theorem hexnum_exact_witness:
  "hexnum_action hex_example True ''1F'' no_position = Inr (Number_signed (- 31))"
proof -
  have "\<forall>c \<in> set ''1F''. unat (hex_example c) < 16"
    by (simp add: hex_example_def is_digit_def digit_value_def less_eq_char_def)
  moreover have "hex_number hex_example ''1F'' 0 = 31"
    by (simp add: hex_number_def hex_example_def is_digit_def digit_value_def less_eq_char_def)
  ultimately obtain w where w: "hexnum_action hex_example True ''1F'' no_position = Inr (Number_signed w)"
    "sint w = - 31"
    using hexnum_exact [of "''1F''" hex_example 31 no_position] by auto
  then have "sint w = sint (- 31 :: i64)" by simp
  then have "w = - 31" by (rule signed_word_eqI)
  with w show ?thesis by simp
qed

section \<open>Decimal numbers\<close>

lemma stoul_Nil [simp]: "stoul [] = 0"
  by (simp add: stoul_def)

lemma stoul_append: "stoul (s @ t) = stoul s * 10 ^ length t + stoul t"
proof (induction t rule: rev_induct)
  case (snoc c t)
  then show ?case using stoul_snoc [of "s @ t" c] by (simp add: stoul_snoc)
qed simp

lemma stoul_zeros: "list_all (\<lambda>c. c = CHR ''0'') s \<Longrightarrow> stoul s = 0"
  by (induction s rule: rev_induct) (auto simp: stoul_snoc digit_value_def)

lemma digit_nonzero: "is_digit c \<Longrightarrow> nonzero_digit c \<longleftrightarrow> 0 < digit_value c"
proof -
  assume "is_digit c"
  then have "48 \<le> (of_char c :: nat)" by (simp add: is_digit_def less_eq_char_def)
  moreover have "nonzero_digit c \<longleftrightarrow> (of_char c :: nat) \<noteq> of_char (CHR ''0'')"
    unfolding nonzero_digit_def of_char_eq_iff ..
  ultimately show ?thesis by (simp add: digit_value_def) linarith
qed

lemma stoul_pos: "list_all is_digit s \<Longrightarrow> 0 < stoul s \<longleftrightarrow> list_ex nonzero_digit s"
  by (induction s rule: rev_induct) (auto simp: stoul_snoc digit_nonzero)

lemma strip_leading_split:
  obtains z where "s = z @ strip_leading s" "list_all (\<lambda>c. c = CHR ''0'') z"
  using that [of "takeWhile (\<lambda>c. c = CHR ''0'') s"]
  by (auto simp: strip_leading_def list_all_iff dest: set_takeWhileD)


lemma stoul_strip_leading [simp]: "stoul (strip_leading s) = stoul s"
proof -
  obtain z where "s = z @ strip_leading s" "list_all (\<lambda>c. c = CHR ''0'') z"
    by (rule strip_leading_split)
  then show ?thesis by (metis stoul_append stoul_zeros add_0 mult_zero_left)
qed

text \<open>
  A state \<open>truncates\<close> a number when its digits and exponent are the number without some of
  its last digits, and \<open>dropped\<close> tells whether these were all zero.
\<close>

definition state_value :: "number_state \<Rightarrow> rat" where
  "state_value r = of_nat (stoul (mantissa r)) * 10 powi exponent10 r"

definition truncates :: "nat \<Rightarrow> number_state \<Rightarrow> rat \<Rightarrow> bool" where
  "truncates max_digits r v \<longleftrightarrow>
     length (mantissa r) = msize r \<and> msize r \<le> max_digits \<and> list_all is_digit (mantissa r) \<and>
     state_value r \<le> v \<and> v < state_value r + 10 powi exponent10 r \<and>
     (dropped r \<longleftrightarrow> state_value r < v)"

lemma powi_add_nat: "(10 :: rat) powi (x + int n) = 10 powi x * 10 ^ n"
  by (simp add: power_int_add)

lemma truncates_take:
  assumes "list_all is_digit s" "c \<le> length s" "c \<le> max_digits"
    and "mantissa r = take c s" "msize r = c" "exponent10 r = x + int (length s - c)"
    and "dropped r = list_ex nonzero_digit (drop c s)"
  shows "truncates max_digits r (of_nat (stoul s) * 10 powi x)"
proof -
  define A B n where "A = stoul (take c s)" and "B = stoul (drop c s)" and "n = length s - c"
  have digits: "list_all is_digit (take c s)" "list_all is_digit (drop c s)"
    using assms(1) by (auto simp: list_all_iff dest: in_set_takeD in_set_dropD)
  have s: "stoul s = A * 10 ^ n + B"
    using stoul_append [of "take c s" "drop c s"] by (simp add: A_def B_def n_def)
  have B: "B < 10 ^ n" "dropped r \<longleftrightarrow> 0 < B"
    using stoul_bound [OF digits(2)] stoul_pos [OF digits(2)] assms(7)
    by (simp_all add: B_def n_def)
  have v: "state_value r = of_nat (A * 10 ^ n) * 10 powi x"
    unfolding state_value_def assms(4,6) powi_add_nat by (simp add: A_def n_def)
  have pos: "(0 :: rat) < 10 powi x" by simp
  have "(of_nat (A * 10 ^ n + B) :: rat) < of_nat (A * 10 ^ n + 10 ^ n)"
    unfolding of_nat_less_iff using B(1) by simp
  from mult_strict_right_mono [OF this pos]
  have "(of_nat (A * 10 ^ n + B) :: rat) * 10 powi x < of_nat (A * 10 ^ n + 10 ^ n) * 10 powi x" .
  then have "of_nat (stoul s) * 10 powi x < state_value r + 10 powi exponent10 r"
    unfolding s v assms(6) powi_add_nat by (simp add: n_def algebra_simps)
  moreover have sum: "of_nat (stoul s) * 10 powi x = state_value r + of_nat B * 10 powi x"
    unfolding s v by (simp add: algebra_simps)
  moreover have "0 < of_nat B * (10 powi x :: rat) \<longleftrightarrow> 0 < B" "0 \<le> of_nat B * (10 powi x :: rat)"
    using pos by (simp_all add: zero_less_mult_iff)
  ultimately show ?thesis
    using assms digits B(2) unfolding truncates_def by (auto simp: min_def)
qed

lemma idigits_truncates:
  assumes "idigits_action max_digits s p r = Inr r'" "list_all is_digit s"
    and "mantissa r = []" "msize r = 0" "exponent10 r = 0" "\<not> dropped r"
  shows "truncates max_digits r' (of_nat (stoul s)) \<and> 0 \<le> exponent10 r' \<and>
    (msize r' = max_digits \<or> exponent10 r' = 0 \<and> \<not> dropped r') \<and> isfp r' = isfp r \<and>
    eneg r' = eneg r"
proof (cases "length s = 1 \<and> hd s = CHR ''0''")
  case True
  then have s: "s = ''0''" by (cases s) auto
  with assms have "r' = r" by (simp add: idigits_action_def)
  moreover have "stoul ''0'' = 0" by (simp add: stoul_def digit_value_def)
  ultimately show ?thesis using assms s by (simp add: truncates_def state_value_def)
next
  case False
  let ?c = "min (length s) max_digits"
  from False assms(1,5,6) have r': "r' = r\<lparr>mantissa := take ?c s, exponent10 := int (length s - ?c),
      msize := ?c, dropped := list_ex nonzero_digit (drop ?c s)\<rparr>"
    by (auto simp: idigits_action_def Let_def split: if_splits)
  have "truncates max_digits r' (of_nat (stoul s) * 10 powi 0)"
    by (rule truncates_take [OF assms(2), where c = ?c]) (simp_all add: r')
  then show ?thesis by (auto simp: r' min_def)
qed







text \<open>
  The matches of a decimal number: the integer digits, the fractional digits if there is a
  point, and the sign and digits of the exponent if there is one.
\<close>

definition exponent_literal ::
  "(char \<times> position) option \<Rightarrow> string \<times> position \<Rightarrow> (number_match \<times> position) list" where
  "exponent_literal sign e =
     (case sign of None \<Rightarrow> [] | Some (c, p) \<Rightarrow> [(Esign c, p)]) @ [(Edigits (fst e), snd e)]"

definition number_literal ::
  "string \<times> position \<Rightarrow> (string \<times> position) option \<Rightarrow>
     ((char \<times> position) option \<times> string \<times> position) option \<Rightarrow> (number_match \<times> position) list" where
  "number_literal i f e =
     (Idigits (fst i), snd i) #
     (case f of None \<Rightarrow> [] | Some (s, p) \<Rightarrow> [(Fdigits s, p)]) @
     (case e of None \<Rightarrow> [] | Some (sign, x) \<Rightarrow> exponent_literal sign x)"


definition exponent_value :: "((char \<times> position) option \<times> string \<times> position) option \<Rightarrow> int" where
  "exponent_value e =
     (case e of
        None \<Rightarrow> 0
      | Some (sign, s, p) \<Rightarrow>
          (case sign of
             None \<Rightarrow> int (stoul s)
           | Some (c, q) \<Rightarrow> if c = CHR ''-'' then - int (stoul s) else int (stoul s)))"


text \<open>The digits of the parts, which the grammar guarantees, and the initial state.\<close>

definition literal_digits ::
  "string \<times> position \<Rightarrow> (string \<times> position) option \<Rightarrow>
     ((char \<times> position) option \<times> string \<times> position) option \<Rightarrow> bool" where
  "literal_digits i f e \<longleftrightarrow>
     list_all is_digit (fst i) \<and>
     (case f of None \<Rightarrow> True | Some (s, p) \<Rightarrow> list_all is_digit s) \<and>
     (case e of None \<Rightarrow> True | Some (sign, s, p) \<Rightarrow> list_all is_digit s)"

definition number_start :: "number_state \<Rightarrow> bool" where
  "number_start r \<longleftrightarrow>
     mantissa r = [] \<and> msize r = 0 \<and> exponent10 r = 0 \<and> \<not> dropped r \<and> \<not> eneg r \<and> \<not> isfp r"






text \<open>A decimal number is rejected in two cases only: more than $2^{20}$ digits before the
  point, or an exponent with more than nine digits after its leading zeros; so the exponent of
  an accepted number fits into an \<open>int\<close>.\<close>

theorem number_accepted:
  assumes "literal_digits i f e" "number_start (number_init js)" "0 < max_mantissa_digits js"
  shows "(is_ok (fold_res (number_action js) (number_literal i f e) (number_init js)) \<longleftrightarrow>
      length (fst i) \<le> 2 ^ 20 \<and>
      (case e of None \<Rightarrow> True | Some (sign, s, p) \<Rightarrow> length (strip_leading s) \<le> 9)) \<and>
    (is_ok (fold_res (number_action js) (number_literal i f e) (number_init js)) \<longrightarrow>
      \<bar>exponent_value e\<bar> < 10 ^ 9)"
proof -
  let ?run = "\<lambda>e. fold_res (number_action js) (number_literal i f e) (number_init js)"
  have split: "?run e = rbind (?run None) (fold_res (number_action js)
      (case e of None \<Rightarrow> [] | Some (sign, x) \<Rightarrow> exponent_literal sign x))"
    by (cases "idigits_action (max_mantissa_digits js) (fst i) (snd i) (number_init js)")
      (simp_all add: number_literal_def)
  have i: "is_ok (?run None) \<longleftrightarrow> length (fst i) \<le> 2 ^ 20"
  proof (cases "idigits_action (max_mantissa_digits js) (fst i) (snd i) (number_init js)")
    case (Inl x)
    then show ?thesis by (auto simp: number_literal_def idigits_action_def Let_def split: if_splits)
  next
    case (Inr q)
    then have "length (fst i) \<le> 2 ^ 20" by (auto simp: idigits_action_def Let_def split: if_splits)
    moreover have "truncates (max_mantissa_digits js) q (of_nat (stoul (fst i)))"
      using idigits_truncates [OF Inr] assms(1,2) by (simp add: literal_digits_def number_start_def)
    then have "is_ok (fdigits_action (max_mantissa_digits js) s q)" for s
      by (simp add: fdigits_action_def truncates_def Let_def)
    ultimately show ?thesis
      using Inr by (auto simp: number_literal_def is_ok_rbind is_ok_iff split: option.splits)
  qed
  have e: "is_ok (fold_res (number_action js) (exponent_literal sign (s, p)) q) \<longleftrightarrow>
      length (strip_leading s) \<le> 9" for sign s p q
    by (auto simp: exponent_literal_def edigits_action_def Let_def split: option.splits)
  have ok: "is_ok (?run e) \<longleftrightarrow> length (fst i) \<le> 2 ^ 20 \<and>
      (case e of None \<Rightarrow> True | Some (sign, s, p) \<Rightarrow> length (strip_leading s) \<le> 9)"
    unfolding split using i by (cases "?run None") (auto simp: e split: option.splits)
  have "\<bar>exponent_value e\<bar> < 10 ^ 9" if run: "is_ok (?run e)"
  proof (cases e)
    case (Some x)
    obtain sign s p where x: "x = (sign, s, p)" by (cases x)
    with Some assms(1) have "list_all is_digit s" by (simp add: literal_digits_def)
    then have "list_all is_digit (strip_leading s)"
      by (auto simp: strip_leading_def list_all_iff dest: set_dropWhileD)
    from stoul_bound [OF this] have "stoul s < 10 ^ length (strip_leading s)" by simp
    also have "\<dots> \<le> 10 ^ 9" using run ok Some x by (intro power_increasing) auto
    finally show ?thesis using Some x by (auto simp: exponent_value_def split: option.splits)
  qed (simp add: exponent_value_def)
  with ok show ?thesis by blast
qed

theorem number_accepted_witness:
  "\<not> is_ok (fold_res (number_action json_example)
      (number_literal (''1'', no_position) None
         (Some (None, ''0001234567890'', no_position))) (number_init json_example))"
proof -
  let ?e = "Some (None, ''0001234567890'', no_position)"
  have "literal_digits (''1'', no_position) None ?e" "number_start (number_init json_example)"
    "0 < max_mantissa_digits json_example"
    by (simp_all add: literal_digits_def is_digit_def less_eq_char_def number_start_def
        json_example_def number_zero_def)
  from number_accepted [OF this] show ?thesis by (simp add: strip_leading_def)
qed

end
