(* ===== verification/Config_Parser.thy ===== *)
theory Config_Parser
  imports Config_Phase1 Config_Jaxn
begin

text \<open>
  Reading a config file: the state of a parse (\<open>state.hpp\<close>), the guard that moves between
  the levels of a file (\<open>key1_guard.hpp\<close>), the grammar (\<open>config_grammar.hpp\<close>) with its
  three hand-written rules, and the actions (\<open>config_action.hpp\<close>), which store into the
  representation while the text is matched.

  A rule takes the state and the remaining input. Rules that can fail locally return an
  option; a rule under \<open>must\<close> that does not match raises \<open>Syntax_error\<close>. The rules of
  taoJSON that the grammar uses are fields of \<open>config_env\<close>, as is the file system; \<open>pos\<close>
  gives the position for the number of bytes that remain. A rule of taoJSON returns how many
  bytes it consumed; these rules consume something, and \<open>take_rule\<close> takes any other number as
  no match.

  The recursion of values and of include files uses the C++ stack: \<open>depth\<close> is the number
  of levels that it has room for. Loops are total; they stop with an error in the case in
  which PEGTL's loop would not end, an iteration that consumes nothing, and the lemmas show
  that there is no such iteration.
\<close>

section \<open>State and environment\<close>

record state =
  st_prefix :: key1
  st_suffix :: key1
  st_member :: key1
  st_root :: object
  include_is_optional :: bool
  st_generation :: u64

text \<open>The flag for includes has no initial value in the code: it is an argument.\<close>

definition state_init :: "bool \<Rightarrow> state" where
  "state_init b =
     \<lparr>st_prefix = [], st_suffix = [], st_member = [],
      st_root = Object [] \<lparr>byte_count = 1, line = 1, column = 1, source = ''(root)''\<rparr>,
      include_is_optional = b, st_generation = 1\<rparr>"

record config_env =
  quoted_rule :: quoted_matcher
  ws_rule :: "string \<Rightarrow> nat option"
  begin_array_rule :: "string \<Rightarrow> nat option"
  end_array_rule :: "string \<Rightarrow> nat option"
  begin_object_rule :: "string \<Rightarrow> nat option"
  end_object_rule :: "string \<Rightarrow> nat option"
  single_value_rule :: "positions \<Rightarrow> string \<Rightarrow> (jaxn_match \<times> position) list \<times> (string + nat)"
  json_env :: jaxn_json
  open_file :: "string \<Rightarrow> (nat \<times> string) + (string \<times> positions)"  \<comment> \<open>\<open>errno\<close> and its text, or the file\<close>

type_synonym rule = "state \<Rightarrow> string \<Rightarrow> error + (state \<times> string)"
type_synonym opt_rule = "state \<Rightarrow> string \<Rightarrow> error + (state \<times> string) option"

section \<open>Rules without actions\<close>

definition take_rule :: "(string \<Rightarrow> nat option) \<Rightarrow> string \<Rightarrow> string option" where
  "take_rule m s =
     (case m s of
        Some n \<Rightarrow> if 0 < n \<and> n \<le> length s then Some (drop n s) else None
      | None \<Rightarrow> None)"

definition one_rule :: "char list \<Rightarrow> string \<Rightarrow> string option" where
  "one_rule cs s = (case s of [] \<Rightarrow> None | c # r \<Rightarrow> if c \<in> set cs then Some r else None)"

fun string_rule :: "string \<Rightarrow> string \<Rightarrow> string option" where
  "string_rule [] s = Some s"
| "string_rule (c # cs) s =
     (case s of [] \<Rightarrow> None | d # r \<Rightarrow> if c = d then string_rule cs r else None)"

definition eof_rule :: "string \<Rightarrow> string option" where
  "eof_rule s = (if s = [] then Some [] else None)"

lemma take_rule_less: "take_rule m s = Some r \<Longrightarrow> length r < length s"
  by (auto simp: take_rule_def split: option.splits if_splits)

lemma one_rule_less: "one_rule cs s = Some r \<Longrightarrow> length r < length s"
  by (auto simp: one_rule_def split: list.splits if_splits)

lemma string_rule_length: "string_rule t s = Some r \<Longrightarrow> length s = length t + length r"
  by (induction t s rule: string_rule.induct) (auto split: list.splits if_splits)

declare string_rule.simps [simp del]

function wss :: "config_env \<Rightarrow> string \<Rightarrow> string" where
  "wss env s = (case take_rule (ws_rule env) s of None \<Rightarrow> s | Some r \<Rightarrow> wss env r)"
  by pat_completeness auto
termination
  by (relation "measure (\<lambda>(env, s). length s)") (auto dest: take_rule_less)

declare wss.simps [simp del]

definition wsp :: "config_env \<Rightarrow> string \<Rightarrow> string option" where
  "wsp env s = map_option (wss env) (take_rule (ws_rule env) s)"

definition opt_comma :: "config_env \<Rightarrow> string \<Rightarrow> string" where
  "opt_comma env s = (case one_rule '','' s of None \<Rightarrow> s | Some r \<Rightarrow> wss env r)"

text \<open>\<open>pegtl::keyword\<close>: no identifier may go on behind the word.\<close>

definition identifier_other :: "char \<Rightarrow> bool" where
  "identifier_other c \<longleftrightarrow>
     in_range (CHR ''a'') (CHR ''z'') c \<or> in_range (CHR ''A'') (CHR ''Z'') c \<or>
     in_range (CHR ''0'') (CHR ''9'') c \<or> c = CHR ''_''"

definition remove_rule :: "string \<Rightarrow> string option" where
  "remove_rule s =
     (case string_rule ''delete'' s of
        None \<Rightarrow> None
      | Some r \<Rightarrow> if r \<noteq> [] \<and> identifier_other (hd r) then None else Some r)"

text \<open>\<open>until< U, ... >\<close>, with the body of its loop.\<close>

function until_loop :: "(string \<Rightarrow> string option) \<Rightarrow> rule \<Rightarrow> rule" where
  "until_loop stop body st s =
     (case stop s of
        Some r \<Rightarrow> Inr (st, r)
      | None \<Rightarrow>
          rbind (body st s) (\<lambda>(st', r).
            if length r < length s then until_loop stop body st' r
            else Inl (Undefined_behaviour ''endless loop'')))"
  by pat_completeness auto
termination
  by (relation "measure (\<lambda>(stop, body, st, s). length s)") auto

declare until_loop.simps [simp del]

section \<open>The guard and the actions\<close>

definition key1_guard :: "key1 \<Rightarrow> state \<Rightarrow> state" where
  "key1_guard suffix st =
     st\<lparr>st_prefix := st_prefix st @ st_suffix st, st_suffix := suffix\<rparr>"

definition key1_guard_append :: "position \<Rightarrow> state \<Rightarrow> state" where
  "key1_guard_append p st =
     st\<lparr>st_prefix := st_prefix st @ st_suffix st,
        st_suffix := [K1_append (st_generation st + 1) p],
        st_generation := st_generation st + 1\<rparr>"

text \<open>The destructor; \<open>m_size\<close> is the size of the prefix before the constructor.\<close>

definition key1_guard_leave :: "nat \<Rightarrow> state \<Rightarrow> error + state" where
  "key1_guard_leave m_size st =
     (if length (st_prefix st) < m_size then Inl (Assert_failed ''m_prefix.size() >= m_size'')
      else Inr (st\<lparr>st_suffix := drop m_size (st_prefix st),
                   st_prefix := take m_size (st_prefix st)\<rparr>))"

definition with_guard :: "(state \<Rightarrow> state) \<Rightarrow> rule \<Rightarrow> rule" where
  "with_guard enter body st s =
     rbind (body (enter st) s) (\<lambda>(st', r).
       rbind (key1_guard_leave (length (st_prefix st)) st') (\<lambda>st''. Inr (st'', r)))"

text \<open>\<open>phase1_append( st.root, st.prefix + st.suffix + ..., f, mode )\<close>.\<close>

definition store :: "key1 \<Rightarrow> (concat \<Rightarrow> concat) \<Rightarrow> phase1_mode \<Rightarrow> state \<Rightarrow> error + state" where
  "store extra f mode st =
     rbind (phase1_append_object (st_root st) (st_prefix st @ st_suffix st @ extra) f mode)
       (\<lambda>x. Inr (st\<lparr>st_root := x\<rparr>))"

definition clear_concat :: "concat \<Rightarrow> concat" where
  "clear_concat c = Concat ((head c)\<lparr>remove := True\<rparr>) []"

definition assign_head_action :: "state \<Rightarrow> error + state" where
  "assign_head_action = store [] clear_concat Phase1_implicit"

definition begin_array_action :: "position \<Rightarrow> state \<Rightarrow> error + state" where
  "begin_array_action p =
     store [] (\<lambda>c. Concat (head c) (back_ensure_init (array_init p) (concat_list c))) Phase1_manifest"

definition begin_object_action :: "position \<Rightarrow> state \<Rightarrow> error + state" where
  "begin_object_action p =
     store [] (\<lambda>c. Concat (head c) (back_ensure_init (object_init p) (concat_list c))) Phase1_manifest"

definition function_name_action :: "string \<Rightarrow> position \<Rightarrow> state \<Rightarrow> error + state" where
  "function_name_action s p = store [] (back_emplace_func s p) Phase1_manifest"

definition value_list_action :: "state \<Rightarrow> error + state" where
  "value_list_action st =
     (if st_suffix st = [] then Inl (Assert_failed ''!st.suffix.empty()'')
      else
        let g = st_generation st + 1 in
        rbind (set_generation g (last (st_suffix st))) (\<lambda>part.
          Inr (st\<lparr>st_suffix := butlast (st_suffix st) @ [part], st_generation := g\<rparr>)))"

definition key1_rule_action :: "key1 \<Rightarrow> state \<Rightarrow> error + state" where
  "key1_rule_action k st =
     (if st_member st \<noteq> [] then Inl (Assert_failed ''st.member.empty()'')
      else Inr (st\<lparr>st_member := k\<rparr>))"

definition set_temporary :: "bool \<Rightarrow> concat \<Rightarrow> concat" where
  "set_temporary b c = Concat ((head c)\<lparr>temporary := b\<rparr>) (concat_list c)"

definition temporary_action :: "state \<Rightarrow> error + state" where
  "temporary_action st =
     (if st_member st = [] then Inl (Assert_failed ''!st.member.empty()'')
      else rbind (store (st_member st) (set_temporary True) Phase1_implicit st)
        (\<lambda>st. Inr (st\<lparr>st_member := []\<rparr>)))"

definition permanent_action :: "state \<Rightarrow> error + state" where
  "permanent_action st =
     (if st_member st = [] then Inl (Assert_failed ''!st.member.empty()'')
      else rbind (store (st_member st) (set_temporary False) Phase1_implicit st)
        (\<lambda>st. Inr (st\<lparr>st_member := []\<rparr>)))"

definition include_action :: "state \<Rightarrow> state" where
  "include_action st = st\<lparr>include_is_optional := False\<rparr>"

definition inc_if_action :: "state \<Rightarrow> state" where
  "inc_if_action st = st\<lparr>include_is_optional := True\<rparr>"

definition ENOENT :: nat where
  "ENOENT = 2"

text \<open>
  The include: \<open>parse\<close> is the nested parse with the rule \<open>config_file\<close>. A
  \<open>system_error\<close> can only come from opening the file, because a nested include handles
  its own.
\<close>

definition inc_fn_action ::
  "config_env \<Rightarrow> (positions \<Rightarrow> rule) \<Rightarrow> string \<Rightarrow> position \<Rightarrow> state \<Rightarrow> error + state" where
  "inc_fn_action env parse name p st =
     (case open_file env name of
        Inr (content, pos) \<Rightarrow> rbind (parse pos st content) (\<lambda>(st, r). Inr st)
      | Inl (code, msg) \<Rightarrow>
          if \<not> include_is_optional st then Inl (Parse_error (''include error: '' @ msg) p)
          else if code \<noteq> ENOENT then Inl (Parse_error (''include optional error: '' @ msg) p)
          else Inr st)"

section \<open>Values\<close>

definition jaxn_value :: "config_env \<Rightarrow> positions \<Rightarrow> rule" where
  "jaxn_value env pos st s =
     (case single_value_rule env pos s of
        (ms, res) \<Rightarrow>
          rbind (jaxn_run (json_env env) ms jaxn_to_entry_init) (\<lambda>consumer.
            case res of
              Inl rule \<Rightarrow> Inl (Syntax_error rule)
            | Inr n \<Rightarrow>
                (case take_rule (\<lambda>_. Some n) s of
                   None \<Rightarrow> Inl (Syntax_error ''sor_single_value'')
                 | Some r \<Rightarrow>
                     (case jvalue consumer of
                        Held e \<Rightarrow>
                          rbind (store [] (\<lambda>c. Concat (head c) (concat_list c @ [e])) Phase1_manifest st)
                            (\<lambda>st. Inr (st, r))
                      | _ \<Rightarrow> Inl (Undefined_behaviour ''*consumer.value'')))))"

text \<open>\<open>at< reference2_rest >\<close>: a reference and its closing bracket lie ahead.\<close>

definition at_reference :: "config_env \<Rightarrow> positions \<Rightarrow> string \<Rightarrow> error + bool" where
  "at_reference env pos s =
     rbind (match_reference2_list (quoted_rule env) pos s) (\<lambda>l.
       case l of
         None \<Rightarrow> Inr False
       | Some (r, n) \<Rightarrow> Inr (one_rule '')'' (drop n s) \<noteq> None))"

definition reference_value :: "config_env \<Rightarrow> positions \<Rightarrow> rule" where
  "reference_value env pos st s =
     rbind (parse_reference2 (quoted_rule env) pos s) (\<lambda>(ref, r).
       rbind (store [] (\<lambda>c. Concat (head c) (concat_list c @ [REFERENCE ref])) Phase1_manifest st)
         (\<lambda>st. Inr (st, r)))"

text \<open>\<open>list< value_part, one< '+' >, ws >\<close> behind its first part.\<close>

function value_tail :: "config_env \<Rightarrow> rule \<Rightarrow> rule" where
  "value_tail env value_part st s =
     (case one_rule ''+'' (wss env s) of
        None \<Rightarrow> Inr (st, s)
      | Some r \<Rightarrow>
          rbind (value_part st (wss env r)) (\<lambda>(st', r').
            if length r' < length s then value_tail env value_part st' r'
            else Inl (Undefined_behaviour ''endless loop'')))"
  by pat_completeness auto
termination
  by (relation "measure (\<lambda>(env, v, st, s). length s)") auto

declare value_tail.simps [simp del]

definition value_list :: "config_env \<Rightarrow> rule \<Rightarrow> rule" where
  "value_list env value_part st s =
     rbind (value_part st s) (\<lambda>(st, r).
       rbind (value_tail env value_part st r) (\<lambda>(st, r).
         rbind (value_list_action st) (\<lambda>st. Inr (st, r))))"

text \<open>\<open>member_list_impl\<close> and \<open>element_list_impl\<close>: the loop body is \<open>U, wss, opt_comma\<close>.\<close>

definition list_body :: "config_env \<Rightarrow> rule \<Rightarrow> rule" where
  "list_body env item st s =
     rbind (item st s) (\<lambda>(st, r). Inr (st, opt_comma env (wss env r)))"

definition element_list ::
  "config_env \<Rightarrow> positions \<Rightarrow> (string \<Rightarrow> string option) \<Rightarrow> rule \<Rightarrow> rule" where
  "element_list env pos stop value_part st s =
     with_guard (key1_guard_append (pos (length s)))
       (until_loop stop (list_body env (value_list env value_part))) st s"

definition member_list :: "config_env \<Rightarrow> (string \<Rightarrow> string option) \<Rightarrow> rule \<Rightarrow> rule" where
  "member_list env stop member = until_loop stop (list_body env member)"

definition array_rule :: "config_env \<Rightarrow> positions \<Rightarrow> rule \<Rightarrow> opt_rule" where
  "array_rule env pos value_part st s =
     (case take_rule (begin_array_rule env) s of
        None \<Rightarrow> Inr None
      | Some r \<Rightarrow>
          rbind (begin_array_action (pos (length s)) st) (\<lambda>st.
            rbind (element_list env pos (take_rule (end_array_rule env)) value_part st r)
              (\<lambda>x. Inr (Some x))))"

definition object_rule :: "config_env \<Rightarrow> positions \<Rightarrow> rule \<Rightarrow> opt_rule" where
  "object_rule env pos member st s =
     (case take_rule (begin_object_rule env) s of
        None \<Rightarrow> Inr None
      | Some r \<Rightarrow>
          rbind (begin_object_action (pos (length s)) st) (\<lambda>st.
            rbind (member_list env (take_rule (end_object_rule env)) member st r)
              (\<lambda>x. Inr (Some x))))"

text \<open>\<open>function_name\<close> is an identifier and an optional question mark.\<close>

definition match_function_name :: "string \<Rightarrow> (string \<times> string) option" where
  "match_function_name s =
     (case match_ident s of
        None \<Rightarrow> None
      | Some (n, r) \<Rightarrow>
          (case one_rule ''?'' r of None \<Rightarrow> Some (n, r) | Some r \<Rightarrow> Some (n @ ''?'', r)))"

definition extension_value :: "config_env \<Rightarrow> positions \<Rightarrow> rule \<Rightarrow> rule" where
  "extension_value env pos value_part st s =
     (case match_function_name s of
        None \<Rightarrow> Inl (Syntax_error ''extension_value'')
      | Some (n, r) \<Rightarrow>
          rbind (function_name_action n (pos (length s)) st) (\<lambda>st.
            case wsp env r of
              None \<Rightarrow> Inl (Syntax_error ''extension_value'')
            | Some r \<Rightarrow> element_list env pos (one_rule '')'') value_part st r))"

definition bracketed_value :: "config_env \<Rightarrow> positions \<Rightarrow> rule \<Rightarrow> opt_rule" where
  "bracketed_value env pos value_part st s =
     (case one_rule ''('' s of
        None \<Rightarrow> Inr None
      | Some r \<Rightarrow>
          let r = wss env r in
          rbind (at_reference env pos r) (\<lambda>ahead.
            rbind (if ahead then reference_value env pos st r
                   else extension_value env pos value_part st r)
              (\<lambda>x. Inr (Some x))))"

definition sor :: "opt_rule \<Rightarrow> rule \<Rightarrow> rule" where
  "sor a b st s = rbind (a st s) (\<lambda>m. case m of Some x \<Rightarrow> Inr x | None \<Rightarrow> b st s)"

definition value_part_body :: "config_env \<Rightarrow> positions \<Rightarrow> rule \<Rightarrow> rule \<Rightarrow> rule" where
  "value_part_body env pos value_part member =
     sor (array_rule env pos value_part)
       (sor (object_rule env pos member)
         (sor (bracketed_value env pos value_part) (jaxn_value env pos)))"

section \<open>Members and files\<close>

definition assign_member :: "config_env \<Rightarrow> rule \<Rightarrow> opt_rule" where
  "assign_member env value_part st s =
     (case one_rule '':='' s of
        None \<Rightarrow> Inr None
      | Some r \<Rightarrow>
          rbind (assign_head_action st) (\<lambda>st.
            case remove_rule (wss env r) of
              Some r \<Rightarrow> Inr (Some (st, r))
            | None \<Rightarrow> rbind (value_list env value_part st (wss env r)) (\<lambda>x. Inr (Some x))))"

definition append_head :: "string \<Rightarrow> string option" where
  "append_head s =
     (case string_rule ''+='' s of
        Some r \<Rightarrow> Some r
      | None \<Rightarrow> if one_rule ''{['' s \<noteq> None then Some s else None)"

definition append_member :: "config_env \<Rightarrow> rule \<Rightarrow> opt_rule" where
  "append_member env value_part st s =
     (case append_head s of
        None \<Rightarrow> Inr None
      | Some r \<Rightarrow> rbind (value_list env value_part st (wss env r)) (\<lambda>x. Inr (Some x)))"

text \<open>\<open>must< wss, key_member >\<close>.\<close>

definition key_member :: "config_env \<Rightarrow> rule \<Rightarrow> rule" where
  "key_member env value_part st s =
     sor (assign_member env value_part)
       (sor (append_member env value_part) (\<lambda>st s. Inl (Syntax_error ''key_member'')))
       st (wss env s)"

definition member_key :: "config_env \<Rightarrow> positions \<Rightarrow> rule \<Rightarrow> rule" where
  "member_key env pos value_part st s =
     rbind (parse_key1 (quoted_rule env) pos s) (\<lambda>(k, r).
       with_guard (key1_guard k) (key_member env value_part) st r)"

definition not_quote :: "char \<Rightarrow> bool" where
  "not_quote c \<longleftrightarrow> c \<noteq> CHR 0x22"

text \<open>The quotation mark, the name with its action, and the closing quotation mark.\<close>

definition filename_rule :: "config_env \<Rightarrow> positions \<Rightarrow> (positions \<Rightarrow> rule) \<Rightarrow> rule" where
  "filename_rule env pos parse st s =
     (case one_rule [CHR 0x22] s of
        None \<Rightarrow> Inl (Syntax_error ''filename'')
      | Some r \<Rightarrow>
          let name = takeWhile not_quote r; r' = dropWhile not_quote r in
          if name = [] then Inl (Syntax_error ''filename'')
          else rbind (inc_fn_action env parse name (pos (length r)) st) (\<lambda>st.
            case one_rule [CHR 0x22] r' of
              None \<Rightarrow> Inl (Syntax_error ''filename'')
            | Some r \<Rightarrow> Inr (st, r)))"

definition include_extension :: "config_env \<Rightarrow> positions \<Rightarrow> (positions \<Rightarrow> rule) \<Rightarrow> opt_rule" where
  "include_extension env pos parse st s =
     (case string_rule ''include'' s of
        None \<Rightarrow> Inr None
      | Some r \<Rightarrow>
          let st = include_action st;
              (st, r) = (case one_rule ''?'' r of None \<Rightarrow> (st, r) | Some r \<Rightarrow> (inc_if_action st, r)) in
          (case wsp env r of
             None \<Rightarrow> Inl (Syntax_error ''wsp'')
           | Some r \<Rightarrow> rbind (filename_rule env pos parse st r) (\<lambda>x. Inr (Some x))))"

text \<open>\<open>if_must< word, wsp, key1_rule >\<close>, for \<open>temporary\<close> and \<open>permanent\<close>.\<close>

definition flag_extension ::
  "config_env \<Rightarrow> positions \<Rightarrow> string \<Rightarrow> (state \<Rightarrow> error + state) \<Rightarrow> opt_rule" where
  "flag_extension env pos word action st s =
     (case string_rule word s of
        None \<Rightarrow> Inr None
      | Some r \<Rightarrow>
          (case wsp env r of
             None \<Rightarrow> Inl (Syntax_error ''wsp'')
           | Some r \<Rightarrow>
               rbind (parse_key1 (quoted_rule env) pos r) (\<lambda>(k, r).
                 rbind (key1_rule_action k st) (\<lambda>st.
                   rbind (action st) (\<lambda>st. Inr (Some (st, r)))))))"

definition extension_member :: "config_env \<Rightarrow> positions \<Rightarrow> (positions \<Rightarrow> rule) \<Rightarrow> opt_rule" where
  "extension_member env pos parse st s =
     (case one_rule ''('' s of
        None \<Rightarrow> Inr None
      | Some r \<Rightarrow>
          rbind (sor (include_extension env pos parse)
                  (sor (flag_extension env pos ''temporary'' temporary_action)
                    (sor (flag_extension env pos ''permanent'' permanent_action)
                      (\<lambda>st s. Inl (Syntax_error ''extension_member'')))) st (wss env r))
            (\<lambda>(st, r).
              case one_rule '')'' (wss env r) of
                None \<Rightarrow> Inl (Syntax_error ''one'')
              | Some r \<Rightarrow> Inr (Some (st, r))))"

definition member_rule ::
  "config_env \<Rightarrow> positions \<Rightarrow> rule \<Rightarrow> (positions \<Rightarrow> rule) \<Rightarrow> rule" where
  "member_rule env pos value_part parse =
     sor (extension_member env pos parse) (member_key env pos value_part)"

text \<open>A file with or without braces around its members.\<close>

definition config_file_body ::
  "config_env \<Rightarrow> positions \<Rightarrow> rule \<Rightarrow> (positions \<Rightarrow> rule) \<Rightarrow> rule" where
  "config_file_body env pos value_part parse st s =
     (case take_rule (begin_object_rule env) (wss env s) of
        Some r \<Rightarrow>
          rbind (member_list env (take_rule (end_object_rule env))
                  (member_rule env pos value_part parse) st r) (\<lambda>(st, r).
            case eof_rule (wss env r) of
              None \<Rightarrow> Inl (Syntax_error ''eof'')
            | Some r \<Rightarrow> Inr (st, r))
      | None \<Rightarrow> member_list env eof_rule (member_rule env pos value_part parse) st (wss env s))"

text \<open>The recursive rules.\<close>

fun value_part :: "config_env \<Rightarrow> nat \<Rightarrow> positions \<Rightarrow> rule"
  and config_file :: "config_env \<Rightarrow> nat \<Rightarrow> positions \<Rightarrow> rule"
where
  "value_part env 0 pos st s = Inl Stack_exhausted"
| "value_part env (Suc depth) pos st s =
     value_part_body env pos (value_part env depth pos)
       (member_rule env pos (value_part env depth pos) (config_file env depth)) st s"
| "config_file env 0 pos st s = Inl Stack_exhausted"
| "config_file env (Suc depth) pos st s =
     config_file_body env pos (value_part env depth pos) (config_file env depth) st s"

text \<open>The rule \<open>value\<close>, of the function \<open>parse\<close>.\<close>

definition value_rule :: "config_env \<Rightarrow> nat \<Rightarrow> positions \<Rightarrow> rule" where
  "value_rule env depth pos st s =
     rbind (value_part env depth pos st (wss env s)) (\<lambda>(st, r).
       case eof_rule (wss env r) of
         None \<Rightarrow> Inl (Syntax_error ''eof'')
       | Some r \<Rightarrow> Inr (st, r))"

end
