(* ===== verification/Config_Parsing.thy ===== *)
theory Config_Parsing
  imports Config_Parser
begin

text \<open>
  What a parse does to its state. The locale \<open>parse_relation\<close> states, for a relation
  between the states before and after, what the operations that change the state must
  satisfy, and derives the relation for every rule of the grammar, includes and nested values
  of any depth included. \<open>Config_Reading\<close> interprets it.
\<close>

section \<open>The consumer of JAXN values\<close>

lemma number_rule_cases:
  assumes "scalar_entry js (Number neg ms) p = x"
  obtains e where "x = Inl e" "fold_res (number_action js) ms (number_init js) = Inl e"
  | m where "x = Inl (Parse_error m p)"
  | v where "x = Inr (number_entry v p)"
  using assms
  by (cases "fold_res (number_action js) ms (number_init js)") (auto split: sum.splits)

text \<open>
  What the entries of the consumer keep. The contract of a predicate on nodes: it holds of
  every node that the consumer builds, and tells that the maps are sorted.
\<close>

locale consumer_invariant =
  fixes Q :: "node \<Rightarrow> bool"
  assumes atom: "atomic e \<Longrightarrow> Q (Node_entry e)"
    and container: "Q (Node_entry (ARRAY a))" "Q (Node_entry (OBJECT x))" "Q (Node_concat c)"
    and array: "Q (Node_array (Array [] cs p))"
      "Q (Node_array (Array f cs p)) \<Longrightarrow> Q (Node_array (Array f cs' p))"
    and object: "Q (Node_object (Object ms p)) \<longleftrightarrow> om_inv ms"
begin

definition keeps :: "jaxn_to_entry \<Rightarrow> bool" where
  "keeps st \<longleftrightarrow>
     (\<forall>e \<in> set (jstack st). all_entry Q e) \<and> (\<forall>e. jvalue st = Held e \<longrightarrow> all_entry Q e)"

lemma keeps_emplace: "keeps st \<Longrightarrow> all_entry Q e \<Longrightarrow> keeps (st\<lparr>jvalue := Held e\<rparr>)"
  by (simp add: keeps_def)

lemma number_entry_keeps [simp]: "all_entry Q (number_entry v p)"
  by (cases v) (simp_all add: atom)

lemma scalar_entry_keeps: "scalar_entry js x p = Inr e \<Longrightarrow> all_entry Q e"
proof (cases x)
  case (Number neg ms)
  assume "scalar_entry js x p = Inr e"
  with Number have run: "scalar_entry js (Number neg ms) p = Inr e" by simp
  show ?thesis by (rule number_rule_cases [OF run]) simp_all
qed (auto simp: res_simps atom)

lemma concat_keeps: "all_concat Q c \<longleftrightarrow> (\<forall>e \<in> set (concat_list c). all_entry Q e)"
  by (cases c) (simp add: container)

lemma keeps_last: "xs \<noteq> [] \<Longrightarrow> \<forall>e \<in> set xs. all_entry Q e \<Longrightarrow> all_entry Q (last xs)"
  by simp

lemma keeps_butlast: "\<forall>e \<in> set xs. all_entry Q e \<Longrightarrow> \<forall>e \<in> set (butlast xs). all_entry Q e"
  by (metis in_set_butlastD)

lemma jx_concat_add_keeps: "all_concat Q c \<Longrightarrow> all_entry Q e \<Longrightarrow> all_concat Q (jx_concat_add c e)"
  by (auto simp: jx_concat_add_def concat_keeps container)

lemma jx_element_keeps:
  assumes "jx_element p st = Inr st'" "keeps st"
  shows "keeps st'"
proof -
  from assms(1) obtain f cs q e where *: "jstack st \<noteq> []" "last (jstack st) = ARRAY (Array f cs q)"
    "jvalue st = Held e" "st' = st\<lparr>jstack := butlast (jstack st) @
        [ARRAY (Array f (cs @ [jx_concat_add (concat_init p) e]) q)], jvalue := Moved_from\<rparr>"
    by (auto simp: jx_element_def jx_take_value_def res_simps
        split: if_splits entry.splits array.splits slot.splits)
  have "all_concat Q (concat_init p)" by (simp add: concat_init_def container)
  moreover have "all_entry Q (ARRAY (Array f cs q))" "all_entry Q e"
    using assms(2) * keeps_last [of "jstack st"] by (auto simp: keeps_def)
  moreover have "\<forall>e \<in> set (butlast (jstack st)). all_entry Q e"
    using assms(2) keeps_butlast by (auto simp: keeps_def)
  ultimately show ?thesis
    using * jx_concat_add_keeps [of "concat_init p" e] array(2) [of f cs q] by (simp add: keeps_def ball_Un container)
qed

lemma jx_member_keeps:
  assumes "jx_member p st = Inr st'" "keeps st"
  shows "keeps st'"
proof -
  from assms(1) obtain xs ys c b q e where *: "jstack st \<noteq> []" "last (jstack st) = OBJECT (Object xs q)"
    "try_emplace (last (jkeys st)) (concat_init p) xs = (ys, c, b)" "jvalue st = Held e"
    "st' = st\<lparr>jkeys := butlast (jkeys st), jvalue := Moved_from,
        jstack := butlast (jstack st) @
          [OBJECT (Object (om_put (last (jkeys st)) (jx_concat_add c e) ys) q)]\<rparr>"
    by (cases "try_emplace (last (jkeys st)) (concat_init p) (object_map (case last (jstack st) of OBJECT x \<Rightarrow> x))")
      (auto simp: jx_member_def jx_take_value_def res_simps Let_def
        split: if_splits entry.splits object.splits slot.splits)
  have "all_entry Q (OBJECT (Object xs q))" "all_entry Q e"
    using assms(2) * keeps_last [of "jstack st"] by (auto simp: keeps_def)
  then have xs: "om_inv xs" "\<forall>(k, c) \<in> set xs. all_concat Q c" by (auto simp: object)
  have "all_concat Q (concat_init p)" by (simp add: concat_init_def container)
  with xs *(3) have ys: "all_concat Q c" "om_inv ys" "\<forall>(k, c) \<in> set ys. all_concat Q c"
    using set_om_put [of "last (jkeys st)" "concat_init p" xs]
    by (auto simp: try_emplace_def om_inv_put dest!: om_find_in split: option.splits)
  have "all_object Q (Object (om_put (last (jkeys st)) (jx_concat_add c e) ys) q)"
    using ys(2,3) jx_concat_add_keeps [OF ys(1) \<open>all_entry Q e\<close>]
      set_om_put [of "last (jkeys st)" "jx_concat_add c e" ys]
    by (auto simp: om_inv_put object)
  moreover have "\<forall>e \<in> set (butlast (jstack st)). all_entry Q e"
    using assms(2) keeps_butlast by (auto simp: keeps_def)
  ultimately show ?thesis
    unfolding *(5) by (simp add: keeps_def ball_Un container)
qed

lemma jx_end_keeps: "jx_end st = Inr st' \<Longrightarrow> keeps st \<Longrightarrow> keeps st'"
  using keeps_butlast [of "jstack st"] by (auto simp: jx_end_def keeps_def split: if_splits)

lemma jaxn_action_keeps: "jaxn_action js x st = Inr st' \<Longrightarrow> keeps st \<Longrightarrow> keeps st'"
proof -
  assume run: "jaxn_action js x st = Inr st'" and keeps: "keeps st"
  obtain m p where x: "x = (m, p)" by (cases x)
  show ?thesis
  proof (cases m)
    case (Scalar y)
    with run keeps x show ?thesis by (auto simp: res_simps intro: keeps_emplace scalar_entry_keeps)
  next
    case Array_element
    with run keeps x show ?thesis using jx_element_keeps by (simp add: jaxn_action.simps)
  next
    case Object_element
    with run keeps x show ?thesis using jx_member_keeps by (simp add: jaxn_action.simps)
  next
    case Array_end
    with run keeps x show ?thesis using jx_end_keeps by (simp add: jaxn_action.simps)
  next
    case Object_end
    with run keeps x show ?thesis using jx_end_keeps by (simp add: jaxn_action.simps)
  qed (use run keeps x in \<open>auto simp: jaxn_action.simps keeps_def jx_key_def jx_begin_array_def
      jx_begin_object_def array_init_def object_init_def container array(1) object om_inv_def\<close>)
qed

lemma jaxn_run_keeps:
  assumes "jaxn_run js ms jaxn_to_entry_init = Inr st" "jvalue st = Held e"
  shows "all_entry Q e"
proof -
  have "keeps jaxn_to_entry_init" by (simp add: keeps_def jaxn_to_entry_init_def)
  from fold_res_invariant [OF assms(1) [unfolded jaxn_run_def], where P = keeps, OF this]
  have "keeps st" by (blast intro: jaxn_action_keeps)
  with assms(2) show ?thesis by (simp add: keeps_def)
qed

end

interpretation consumer_sorted: consumer_invariant sorted_node
  by unfold_locales (auto elim: atomic_cases)

text \<open>The errors of the consumer.\<close>

definition jaxn_error :: "error \<Rightarrow> bool" where
  "jaxn_error e \<longleftrightarrow>
     (case e of
        Parse_error m p \<Rightarrow> True
      | Logic_error m \<Rightarrow> True
      | Assert_failed a \<Rightarrow> a \<in> {''is_array()'', ''is_object()''}
      | Undefined_behaviour u \<Rightarrow>
          u \<in> {''back of an empty vector'', ''moved-from value'', ''mantissa''}
      | _ \<Rightarrow> False)"

lemma jaxn_error_simps [simp]:
  "jaxn_error (Parse_error m p)" "jaxn_error (Logic_error m)"
  "jaxn_error (Assert_failed ''is_array()'')" "jaxn_error (Assert_failed ''is_object()'')"
  "jaxn_error (Undefined_behaviour ''back of an empty vector'')"
  "jaxn_error (Undefined_behaviour ''moved-from value'')"
  "jaxn_error (Undefined_behaviour ''mantissa'')"
  by (simp_all add: jaxn_error_def)

lemma number_action_error: "number_action js x r = Inl e \<Longrightarrow> jaxn_error e"
  by (induction js x r rule: number_action.induct)
    (auto simp: idigits_action_def fdigits_action_def edigits_action_def Let_def
      split: if_splits)

lemma fold_res_error:
  "fold_res f xs s = Inl e \<Longrightarrow> (\<And>x u. f x u = Inl e \<Longrightarrow> E e) \<Longrightarrow> E e"
  by (induction xs arbitrary: s) (auto simp: rbind_Inl_iff)

lemma hexnum_error: "hexnum_action hex neg s p = Inl e \<Longrightarrow> jaxn_error e"
proof -
  have "hex_digits hex s p v = Inl e \<Longrightarrow> jaxn_error e" for v
    by (induction hex s p v rule: hex_digits.induct) (auto simp: split: if_splits)
  then show "hexnum_action hex neg s p = Inl e \<Longrightarrow> ?thesis"
    by (auto simp: hexnum_action_def rbind_Inl_iff split: if_splits)
qed

lemma scalar_entry_error: "scalar_entry js x p = Inl e \<Longrightarrow> jaxn_error e"
proof (cases x)
  case (Number neg ms)
  assume "scalar_entry js x p = Inl e"
  with Number have run: "scalar_entry js (Number neg ms) p = Inl e" by simp
  show ?thesis
    by (rule number_rule_cases [OF run]) (auto intro: fold_res_error number_action_error)
qed (auto simp: rbind_Inl_iff hexnum_error)

lemma jx_errors:
  "jx_end st = Inl e \<Longrightarrow> jaxn_error e"
  "jx_take_value st = Inl e \<Longrightarrow> jaxn_error e"
  by (auto simp: jx_end_def jx_take_value_def split: if_splits slot.splits)

lemma jx_element_error: "jx_element p st = Inl e \<Longrightarrow> jaxn_error e"
  by (cases "jstack st = []"; cases "last (jstack st)")
    (auto simp: jx_element_def rbind_Inl_iff jx_errors split: array.splits)

lemma jx_member_error: "jx_member p st = Inl e \<Longrightarrow> jaxn_error e"
  by (cases "jstack st = []"; cases "last (jstack st)"; cases "jkeys st = []")
    (auto simp: jx_member_def rbind_Inl_iff jx_errors Let_def
      split: object.splits prod.splits)

lemma jaxn_action_error: "jaxn_action js x st = Inl e \<Longrightarrow> jaxn_error e"
proof -
  assume run: "jaxn_action js x st = Inl e"
  obtain m p where x: "x = (m, p)" by (cases x)
  show ?thesis
  proof (cases m)
    case (Scalar y)
    with run x show ?thesis by (auto simp: rbind_Inl_iff scalar_entry_error)
  next
    case Array_element
    with run x show ?thesis using jx_element_error by (simp add: jaxn_action.simps)
  next
    case Object_element
    with run x show ?thesis using jx_member_error by (simp add: jaxn_action.simps)
  qed (use run x in \<open>simp_all add: jaxn_action.simps jx_key_def jx_begin_array_def
      jx_begin_object_def jx_errors\<close>)
qed

lemma jaxn_run_error: "jaxn_run js ms st = Inl e \<Longrightarrow> jaxn_error e"
  unfolding jaxn_run_def by (rule fold_res_error) (auto intro: jaxn_action_error)

text \<open>The errors of the matchers of keys and references.\<close>

lemma quoted_match_error: "quoted_match qf s = Inl e \<Longrightarrow> \<exists>m. e = Syntax_error m"
  by (auto simp: quoted_match_def split: if_splits option.splits)

lemma match_key1_part_error: "match_key1_part qf pos s = Inl e \<Longrightarrow> \<exists>m. e = Syntax_error m"
  by (auto simp: match_key1_part_def rbind_Inl_iff dest: quoted_match_error
      split: option.splits if_splits list.splits)

lemma match_key1_tail_error: "match_key1_tail qf pos s = Inl e \<Longrightarrow> \<exists>m. e = Syntax_error m"
proof (induction qf pos s rule: match_key1_tail.induct)
  case (1 qf pos s)
  then show ?case
    by (auto simp: match_key1_tail.simps [of qf pos s] rbind_Inl_iff dest: match_key1_part_error
        split: list.splits if_splits option.splits)
qed

lemma parse_key1_error: "parse_key1 qf pos s = Inl e \<Longrightarrow> \<exists>m. e = Syntax_error m"
  by (auto simp: parse_key1_def rbind_Inl_iff dest: match_key1_part_error match_key1_tail_error
      split: option.splits)

lemma not_Some_pair: "(\<forall>a b. x \<noteq> Some (a, b)) \<longleftrightarrow> x = None"
  by (cases x) auto

lemma match_reference2_error:
  "match_reference2_part qf pos s = Inl e \<Longrightarrow> \<exists>m. e = Syntax_error m"
  "match_reference2_list qf pos s = Inl e \<Longrightarrow> \<exists>m. e = Syntax_error m"
  "match_reference2_tail qf pos s = Inl e \<Longrightarrow> \<exists>m. e = Syntax_error m"
proof (induction qf pos s and qf pos s and qf pos s
    rule: match_reference2_part_match_reference2_list_match_reference2_tail.induct)
  case (1 qf pos s)
  then show ?case
    by (auto simp: match_reference2_part.simps [of qf pos s] not_Some_pair dest: quoted_match_error elim!: rbind_InlE
        split: list.splits if_splits option.splits)
next
  case (2 qf pos s)
  then show ?case
    by (auto simp: match_reference2_list.simps [of qf pos s] rbind_Inl_iff
        split: list.splits if_splits option.splits)
next
  case (3 qf pos s)
  then show ?case
    by (auto simp: match_reference2_tail.simps [of qf pos s] rbind_Inl_iff
        split: list.splits if_splits option.splits)
qed

lemma parse_reference2_error:
  assumes "parse_reference2 qf pos s = Inl e"
  shows "\<exists>m. e = Syntax_error m"
proof (cases "match_reference2_list qf pos s")
  case (Inl e)
  with assms match_reference2_error(2) [OF Inl] show ?thesis by (simp add: parse_reference2_def)
next
  case (Inr l)
  with assms show ?thesis
    by (cases l; cases "drop (snd (the l)) s")
      (auto simp: parse_reference2_def split: if_splits)
qed

section \<open>What the rules consume\<close>


lemma wss_length: "length (wss env s) \<le> length s"
proof (induction env s rule: wss.induct)
  case (1 env s)
  then show ?case
    by (cases "take_rule (ws_rule env) s") (auto simp: wss.simps [of env s] dest: take_rule_less)
qed

lemma wsp_less: "wsp env s = Some r \<Longrightarrow> length r < length s"
  by (auto simp: wsp_def dest!: take_rule_less intro: le_less_trans [OF wss_length])

lemma opt_comma_length: "length (opt_comma env s) \<le> length s"
proof (cases "one_rule '','' s")
  case (Some r)
  then have "length r < length s" by (rule one_rule_less)
  with wss_length [of env r] Some show ?thesis by (simp add: opt_comma_def)
qed (simp add: opt_comma_def)

lemma list_end_length: "length (opt_comma env (wss env s)) \<le> length s"
  using opt_comma_length wss_length le_trans by blast

lemma remove_rule_less: "remove_rule s = Some r \<Longrightarrow> length r < length s"
  by (auto simp: remove_rule_def dest: string_rule_length split: option.splits if_splits)

lemma append_head_length: "append_head s = Some r \<Longrightarrow> length r \<le> length s"
  by (auto simp: append_head_def dest: string_rule_length split: option.splits if_splits)

lemma parse_key1_rest: "parse_key1 qf pos s = Inr (k, r) \<Longrightarrow> k \<noteq> [] \<and> length r \<le> length s"
  by (auto simp: parse_key1_def res_simps split: option.splits)

lemma parse_reference2_rest:
  assumes "parse_reference2 qf pos s = Inr (k, r)"
  shows "length r \<le> length s"
proof -
  obtain l where "match_reference2_list qf pos s = Inr l"
    using assms by (cases "match_reference2_list qf pos s") (simp_all add: parse_reference2_def)
  with assms obtain n c where "drop n s = c # r"
    by (cases l; cases "drop (snd (the l)) s")
      (auto simp: parse_reference2_def split: if_splits)
  then have "length (drop n s) = Suc (length r)" by simp
  then show ?thesis by simp
qed

lemma function_name_length: "match_function_name s = Some (n, r) \<Longrightarrow> length r \<le> length s"
  by (auto simp: match_function_name_def dest!: match_ident_rest one_rule_less split: option.splits)


section \<open>Contracts of rules\<close>

text \<open>
  \<open>ends R E st n x\<close>: the result \<open>x\<close> of a rule started in \<open>st\<close> is an error in \<open>E\<close>, or
  a state related by \<open>R\<close> and a remaining input shorter than \<open>n\<close>. \<open>ends_opt\<close> also
  allows local failure, \<open>acts\<close> is for the actions.
\<close>

definition ends ::
  "(state \<Rightarrow> state \<Rightarrow> bool) \<Rightarrow> (error \<Rightarrow> bool) \<Rightarrow> state \<Rightarrow> nat \<Rightarrow> error + state \<times> string \<Rightarrow> bool" where
  "ends R E st n x \<longleftrightarrow>
     (case x of Inl e \<Rightarrow> E e | Inr (st', s') \<Rightarrow> R st st' \<and> length s' < n)"

definition ends_opt ::
  "(state \<Rightarrow> state \<Rightarrow> bool) \<Rightarrow> (error \<Rightarrow> bool) \<Rightarrow> state \<Rightarrow> nat \<Rightarrow>
     error + (state \<times> string) option \<Rightarrow> bool" where
  "ends_opt R E st n x \<longleftrightarrow>
     (case x of Inl e \<Rightarrow> E e | Inr None \<Rightarrow> True | Inr (Some (st', s')) \<Rightarrow> R st st' \<and> length s' < n)"

definition acts :: "(state \<Rightarrow> state \<Rightarrow> bool) \<Rightarrow> (error \<Rightarrow> bool) \<Rightarrow> state \<Rightarrow> error + state \<Rightarrow> bool" where
  "acts R E st x \<longleftrightarrow> (case x of Inl e \<Rightarrow> E e | Inr st' \<Rightarrow> R st st')"

definition rule_ok ::
  "(state \<Rightarrow> bool) \<Rightarrow> (state \<Rightarrow> state \<Rightarrow> bool) \<Rightarrow> (error \<Rightarrow> bool) \<Rightarrow> rule \<Rightarrow> bool" where
  "rule_ok P R E r \<longleftrightarrow> (\<forall>st s. P st \<longrightarrow> ends R E st (length s) (r st s))"

definition loop_ok ::
  "(state \<Rightarrow> bool) \<Rightarrow> (state \<Rightarrow> state \<Rightarrow> bool) \<Rightarrow> (error \<Rightarrow> bool) \<Rightarrow> rule \<Rightarrow> bool" where
  "loop_ok P R E r \<longleftrightarrow> (\<forall>st s. P st \<longrightarrow> ends R E st (Suc (length s)) (r st s))"

definition opt_rule_ok ::
  "(state \<Rightarrow> bool) \<Rightarrow> (state \<Rightarrow> state \<Rightarrow> bool) \<Rightarrow> (error \<Rightarrow> bool) \<Rightarrow> opt_rule \<Rightarrow> bool" where
  "opt_rule_ok P R E r \<longleftrightarrow> (\<forall>st s. P st \<longrightarrow> ends_opt R E st (length s) (r st s))"

lemma ends_simps [simp]:
  "ends R E st n (Inl e) = E e"
  "ends R E st n (Inr (st', s')) \<longleftrightarrow> R st st' \<and> length s' < n"
  "ends_opt R E st n (Inl e) = E e"
  "ends_opt R E st n (Inr None)"
  "ends_opt R E st n (Inr (Some (st', s'))) \<longleftrightarrow> R st st' \<and> length s' < n"
  "acts R E st (Inl e) = E e"
  "acts R E st (Inr st') \<longleftrightarrow> R st st'"
  by (simp_all add: ends_def ends_opt_def acts_def)

lemma ends_weaken: "ends R E st n x \<Longrightarrow> n \<le> k \<Longrightarrow> ends R E st k x"
  by (auto simp: ends_def split: sum.splits)

lemma ends_mono: "ends R E st n x \<Longrightarrow> (\<And>a b. R a b \<Longrightarrow> S a b) \<Longrightarrow> ends S E st n x"
  by (auto simp: ends_def split: sum.splits)

lemma acts_mono: "acts R E st x \<Longrightarrow> (\<And>a b. R a b \<Longrightarrow> S a b) \<Longrightarrow> acts S E st x"
  by (auto simp: acts_def split: sum.splits)

lemma ends_Some: "ends R E st n x \<Longrightarrow> ends_opt R E st n (rbind x (\<lambda>y. Inr (Some y)))"
  by (cases x) (auto simp: ends_def ends_opt_def)

lemma ends_bind:
  assumes "ends R E st n x" "\<And>a b c. R a b \<Longrightarrow> R b c \<Longrightarrow> R a c"
    and "\<And>st' s'. R st st' \<Longrightarrow> length s' < n \<Longrightarrow> ends R E st' k (f (st', s'))"
  shows "ends R E st k (rbind x f)"
proof (cases x)
  case (Inr y)
  obtain st' s' where y: "y = (st', s')" by (cases y)
  with Inr assms(1) have *: "R st st'" "length s' < n" by simp_all
  with assms(3) have "ends R E st' k (f (st', s'))" by blast
  with Inr y *(1) assms(2) show ?thesis by (cases "f (st', s')") (auto intro: assms(2))
qed (use assms(1) in simp)

lemma acts_bind:
  assumes "acts R E st x" "\<And>a b c. R a b \<Longrightarrow> R b c \<Longrightarrow> R a c"
    and "\<And>st'. x = Inr st' \<Longrightarrow> R st st' \<Longrightarrow> ends R E st' k (f st')"
  shows "ends R E st k (rbind x f)"
proof (cases x)
  case (Inr st')
  with assms(1,3) have "R st st'" "ends R E st' k (f st')" by auto
  with Inr assms(2) show ?thesis by (cases "f st'") auto
qed (use assms(1) in simp)

lemma acts_bind_opt:
  assumes "acts R E st x" "\<And>a b c. R a b \<Longrightarrow> R b c \<Longrightarrow> R a c"
    and "\<And>st'. x = Inr st' \<Longrightarrow> R st st' \<Longrightarrow> ends_opt R E st' k (f st')"
  shows "ends_opt R E st k (rbind x f)"
proof (cases x)
  case (Inr st')
  with assms(1,3) have "R st st'" "ends_opt R E st' k (f st')" by auto
  with Inr assms(2) show ?thesis
    by (cases "f st'") (auto simp: ends_opt_def split: option.splits)
qed (use assms(1) in simp)

lemma sor_ok:
  assumes "ends_opt R E st n (a st s)" "ends R E st n (b st s)"
  shows "ends R E st n (sor a b st s)"
  using assms by (cases "a st s") (auto simp: sor_def ends_opt_def split: option.splits)

lemma rule_okD: "rule_ok P R E r \<Longrightarrow> P st \<Longrightarrow> ends R E st (length s) (r st s)"
  by (simp add: rule_ok_def)

lemma loop_okD: "loop_ok P R E r \<Longrightarrow> P st \<Longrightarrow> ends R E st (Suc (length s)) (r st s)"
  by (simp add: loop_ok_def)

lemma rule_ok_mono:
  "rule_ok P R E r \<Longrightarrow> (\<And>a b. R a b \<Longrightarrow> S a b) \<Longrightarrow> rule_ok P S E r"
  by (auto simp: rule_ok_def ends_def split: sum.splits prod.splits)

lemma list_body_ok:
  assumes "rule_ok Q R E item"
  shows "rule_ok Q R E (list_body env item)"
  unfolding rule_ok_def list_body_def
proof (intro allI impI)
  fix st s
  assume "Q st"
  from rule_okD [OF assms this, of s]
  show "ends R E st (length s)
      (rbind (item st s) (\<lambda>(st, r). Inr (st, opt_comma env (wss env r))))"
    by (cases "item st s")
      (auto intro: le_less_trans [OF list_end_length])
qed

text \<open>Both loops: one more iteration and then the rest of the loop.\<close>

lemma loop_step:
  fixes s :: string
  assumes "ends R E st n x" "n \<le> length s" "Q st"
    and "\<And>a b c. R a b \<Longrightarrow> R b c \<Longrightarrow> R a c" "\<And>a b. Q a \<Longrightarrow> R a b \<Longrightarrow> Q b"
    and "\<And>st' r. length r < length s \<Longrightarrow> Q st' \<Longrightarrow> ends R E st' (Suc (length r)) (rest st' r)"
  shows "ends R E st (Suc (length s))
    (rbind x (\<lambda>(st', r). if length r < length s then rest st' r
       else Inl (Undefined_behaviour ''endless loop'')))"
proof (rule ends_bind [OF assms(1)])
  fix st' and s' :: string
  assume *: "R st st'" "length s' < n"
  with assms(2,3,5) have "ends R E st' (Suc (length s')) (rest st' s')" "length s' < length s"
    by (auto intro!: assms(6))
  then show "ends R E st' (Suc (length s)) (case (st', s') of (st', r) \<Rightarrow>
      if length r < length s then rest st' r else Inl (Undefined_behaviour ''endless loop''))"
    by (auto intro: ends_weaken)
qed (rule assms(4))

lemma until_loop_ok:
  assumes "rule_ok Q R E body" "\<And>a. R a a" "\<And>a b c. R a b \<Longrightarrow> R b c \<Longrightarrow> R a c"
    and "\<And>a b. Q a \<Longrightarrow> R a b \<Longrightarrow> Q b" "\<And>s r. stop s = Some r \<Longrightarrow> length r \<le> length s"
  shows "loop_ok Q R E (until_loop stop body)"
proof -
  have "Q st \<Longrightarrow> ends R E st (Suc (length s)) (until_loop stop body st s)" for st s
  proof (induction "length s" arbitrary: st s rule: less_induct)
    case less
    show ?case
    proof (cases "stop s")
      case (Some r)
      then show ?thesis using assms(2,5) by (simp add: until_loop.simps [of stop body st s] less_Suc_eq_le)
    next
      case None
      have "ends R E st (Suc (length s)) (rbind (body st s) (\<lambda>(st', r).
          if length r < length s then until_loop stop body st' r
          else Inl (Undefined_behaviour ''endless loop'')))"
        by (rule loop_step [where Q = Q, OF rule_okD [OF assms(1) less.prems, of s] le_refl less.prems])
          (use assms(3,4) less.hyps in blast)+
      with None show ?thesis by (simp add: until_loop.simps [of stop body st s])
    qed
  qed
  then show ?thesis unfolding loop_ok_def by blast
qed

section \<open>Relations that every rule respects\<close>

definition wf_change :: "(concat \<Rightarrow> concat) \<Rightarrow> bool" where
  "wf_change f \<longleftrightarrow> (\<forall>c. wf_concat c \<longrightarrow> wf_concat (f c))"

lemma wf_changes:
  "wf_change clear_concat" "wf_change (set_temporary b)" "wf_change (back_emplace_func n p)"
  "wf_entry init \<Longrightarrow> wf_change (\<lambda>c. Concat (head c) (back_ensure_init init (concat_list c)))"
  "wf_entry e \<Longrightarrow> wf_change (\<lambda>c. Concat (head c) (concat_list c @ [e]))"
proof -
  show "wf_change (back_emplace_func n p)"
    unfolding wf_change_def
  proof (intro allI impI)
    fix c
    assume wf: "wf_concat c"
    obtain f cs q where last: "last (back_ensure_init (array_init p) (concat_list c)) = ARRAY (Array f cs q)"
      using last_back_ensure_init(3) by blast
    have "wf_entry (ARRAY (Array f cs q))" by (rule wf_last_back [OF _ wf last]) simp
    then have "wf_entry (ARRAY (Array n cs q))" by simp
    from wf_replace_last [OF wf_inits(1) wf this] last show "wf_concat (back_emplace_func n p c)"
      by (simp add: back_emplace_func_def)
  qed
  show "wf_entry init \<Longrightarrow> wf_change (\<lambda>c. Concat (head c) (back_ensure_init init (concat_list c)))"
    unfolding wf_change_def
    by (intro allI impI, subst wf_concat_iff, simp only: concat.sel) (rule wf_back_ensure_init)
qed (auto simp: wf_change_def clear_concat_def set_temporary_def wf_concat_iff)

text \<open>
  \<open>P d\<close> is what the rules of values need when the stack has room for \<open>d\<close> levels,
  \<open>M d\<close> what the rules of members need; a store that succeeds leads from \<open>P\<close> to
  \<open>M\<close>, and a guard from \<open>M\<close> to \<open>P\<close> of the next level. \<open>K\<close> is the relation for
  these rules; \<open>I\<close> is the weaker one for a list of values, which moves the generation of
  the last key part on.
\<close>

locale parse_relation =
  fixes env :: config_env
    and P M :: "nat \<Rightarrow> state \<Rightarrow> bool"
    and K I :: "state \<Rightarrow> state \<Rightarrow> bool"
    and E :: "error \<Rightarrow> bool"
  assumes K_refl: "K a a"
    and K_trans: "K a b \<Longrightarrow> K b c \<Longrightarrow> K a c"
    and K_I: "K a b \<Longrightarrow> I a b"
    and I_trans: "I a b \<Longrightarrow> I b c \<Longrightarrow> I a c"
    and P_I: "P d a \<Longrightarrow> I a b \<Longrightarrow> P d b"
    and M_K: "M d a \<Longrightarrow> K a b \<Longrightarrow> M d b"
    and store_K: "wf_change f \<Longrightarrow> P d st \<Longrightarrow> acts K E st (store [] f mode st)"
    and store_M: "P d st \<Longrightarrow> store [] f mode st = Inr st' \<Longrightarrow> M d st'"
    and guard_P: "M (Suc d) st \<Longrightarrow> k \<noteq> [] \<Longrightarrow> P d (key1_guard k st)"
    and guard_append_P: "M (Suc d) st \<Longrightarrow> P d (key1_guard_append p st)"
    and guard_K: "I (key1_guard k st) st' \<Longrightarrow>
      acts (\<lambda>_. K st) E st' (key1_guard_leave (length (st_prefix st)) st')"
    and guard_append_K: "I (key1_guard_append p st) st' \<Longrightarrow>
      acts (\<lambda>_. K st) E st' (key1_guard_leave (length (st_prefix st)) st')"
    and value_list_I: "P d st \<Longrightarrow> acts I E st (value_list_action st)"
    and flag_K: "M d st \<Longrightarrow> k \<noteq> [] \<Longrightarrow> action \<in> {temporary_action, permanent_action} \<Longrightarrow>
      acts K E st (rbind (key1_rule_action k st) action)"
    and include_K: "K st (include_action st)" "K st (inc_if_action st)"
    and include_M: "M (Suc d) st \<Longrightarrow> open_file env name = Inr x \<Longrightarrow> M d st"
    and errors: "jaxn_error e \<Longrightarrow> E e" "E (Syntax_error m)"
      "E (Undefined_behaviour ''*consumer.value'')"
    and stack: "P 0 st \<Longrightarrow> E Stack_exhausted" "M 0 st \<Longrightarrow> E Stack_exhausted"

context parse_relation
begin

lemma parse_error_E: "E (Parse_error m p)"
  by (rule errors(1)) simp

lemma I_refl: "I a a"
  by (rule K_I [OF K_refl])

lemma value_tail_ok:
  assumes "rule_ok (P d) I E vp"
  shows "loop_ok (P d) I E (value_tail env vp)"
proof -
  have "P d st \<Longrightarrow> ends I E st (Suc (length s)) (value_tail env vp st s)" for st s
  proof (induction "length s" arbitrary: st s rule: less_induct)
    case less
    show ?case
    proof (cases "one_rule ''+'' (wss env s)")
      case None
      then show ?thesis by (simp add: value_tail.simps [of env vp st s] I_refl)
    next
      case (Some r)
      then have r: "length (wss env r) \<le> length s"
        using one_rule_less [OF Some] wss_length [of env r] wss_length [of env s] by simp
      have "ends I E st (Suc (length s)) (rbind (vp st (wss env r)) (\<lambda>(st', r').
          if length r' < length s then value_tail env vp st' r'
          else Inl (Undefined_behaviour ''endless loop'')))"
        by (rule loop_step [where Q = "P d", OF rule_okD [OF assms less.prems, of "wss env r"] r less.prems])
          (use I_trans P_I less.hyps in blast)+
      with Some show ?thesis by (simp add: value_tail.simps [of env vp st s])
    qed
  qed
  then show ?thesis unfolding loop_ok_def by blast
qed

lemma value_list_ok:
  assumes "rule_ok (P d) K E vp"
  shows "rule_ok (P d) I E (value_list env vp)"
  unfolding rule_ok_def value_list_def
proof (intro allI impI)
  fix st s
  assume P: "P d st"
  note vp = rule_ok_mono [OF assms K_I]
  show "ends I E st (length s) (rbind (vp st s) (\<lambda>(st, r).
      rbind (value_tail env vp st r) (\<lambda>(st, r). rbind (value_list_action st) (\<lambda>st. Inr (st, r)))))"
  proof (rule ends_bind [OF rule_okD [OF vp P] I_trans], simp_all)
    fix st1 and r1 :: string
    assume 1: "I st st1" "length r1 < length s"
    then have P1: "P d st1" using P P_I by blast
    show "ends I E st1 (length s) (rbind (value_tail env vp st1 r1)
        (\<lambda>(st, r). rbind (value_list_action st) (\<lambda>st. Inr (st, r))))"
    proof (rule ends_bind [OF loop_okD [OF value_tail_ok [OF vp] P1] I_trans], simp_all)
      fix st2 and r2 :: string
      assume 2: "I st1 st2" "length r2 < Suc (length r1)"
      then have "P d st2" using P1 P_I by blast
      from acts_bind [OF value_list_I [OF this] I_trans]
      show "ends I E st2 (length s) (rbind (value_list_action st2) (\<lambda>st. Inr (st, r2)))"
        using 1(2) 2(2) I_refl by simp
    qed
  qed
qed

lemma with_guard_K:
  assumes "ends I E (enter st) n (body (enter st) s)"
    and "\<And>st'. I (enter st) st' \<Longrightarrow>
      acts (\<lambda>_. K st) E st' (key1_guard_leave (length (st_prefix st)) st')"
  shows "ends K E st n (with_guard enter body st s)"
proof (cases "body (enter st) s")
  case (Inr x)
  obtain st1 r where x: "x = (st1, r)" by (cases x)
  with Inr assms(1) have "I (enter st) st1" "length r < n" by auto
  with Inr x assms(2) [of st1] show ?thesis
    by (cases "key1_guard_leave (length (st_prefix st)) st1") (auto simp: with_guard_def)
qed (use assms(1) in \<open>simp add: with_guard_def\<close>)

lemma element_list_ok:
  assumes "rule_ok (P d) K E vp" "\<And>s r. stop s = Some r \<Longrightarrow> length r \<le> length s"
  shows "loop_ok (M (Suc d)) K E (element_list env pos stop vp)"
proof -
  have loop: "loop_ok (P d) I E (until_loop stop (list_body env (value_list env vp)))"
    by (rule until_loop_ok [OF list_body_ok [OF value_list_ok [OF assms(1)]]])
      (use I_refl I_trans P_I assms(2) in blast)+
  show ?thesis
    unfolding loop_ok_def element_list_def
    by (auto intro!: with_guard_K loop_okD [OF loop] guard_append_P guard_append_K)
qed

lemma member_list_ok:
  assumes "rule_ok (M d) K E mem" "\<And>s r. stop s = Some r \<Longrightarrow> length r \<le> length s"
  shows "loop_ok (M d) K E (member_list env stop mem)"
  unfolding member_list_def
  by (rule until_loop_ok [OF list_body_ok [OF assms(1)]]) (use K_refl K_trans M_K assms(2) in blast)+

lemma jaxn_value_ok: "rule_ok (P d) K E (jaxn_value env pos)"
  unfolding rule_ok_def
proof (intro allI impI)
  fix st s
  assume P: "P d st"
  obtain ms res where v: "single_value_rule env pos s = (ms, res)"
    by (cases "single_value_rule env pos s")
  show "ends K E st (length s) (jaxn_value env pos st s)"
  proof (cases "jaxn_run (json_env env) ms jaxn_to_entry_init")
    case (Inl e)
    then show ?thesis using v errors(1) [OF jaxn_run_error] by (simp add: jaxn_value_def)
  next
    case (Inr c)
    note run = this
    show ?thesis
    proof (cases "\<exists>n r e. res = Inr n \<and> take_rule (\<lambda>_. Some n) s = Some r \<and> jvalue c = Held e")
      case True
      then obtain n r e where *: "res = Inr n" "take_rule (\<lambda>_. Some n) s = Some r" "jvalue c = Held e"
        by blast
      from acts_bind [OF store_K [OF wf_changes(5) [OF consumer_sorted.jaxn_run_keeps [OF run *(3)]] P] K_trans]
      show ?thesis
        using v Inr * take_rule_less [OF *(2)] K_refl by (simp add: jaxn_value_def)
    qed (use v Inr errors in \<open>auto simp: jaxn_value_def split: sum.split option.split slot.split\<close>)
  qed
qed

lemma reference_value_ok:
  assumes P: "P d st"
  shows "ends K E st (Suc (length s)) (reference_value env pos st s)"
proof (cases "parse_reference2 (quoted_rule env) pos s")
  case (Inl e)
  then show ?thesis using parse_reference2_error [OF Inl] errors(2) by (auto simp: reference_value_def)
next
  case (Inr x)
  obtain ref r where x: "x = (ref, r)" by (cases x)
  have "wf_entry (REFERENCE ref)" by simp
  from acts_bind [OF store_K [OF wf_changes(5) [OF this] P] K_trans]
  show ?thesis
    using Inr x parse_reference2_rest [OF Inr [unfolded x]] K_refl
    by (simp add: reference_value_def less_Suc_eq_le)
qed

lemma begin_array_K: "P d st \<Longrightarrow> acts K E st (begin_array_action p st)"
  unfolding begin_array_action_def by (rule store_K [OF wf_changes(4)]) simp

lemma begin_object_K: "P d st \<Longrightarrow> acts K E st (begin_object_action p st)"
  unfolding begin_object_action_def by (rule store_K [OF wf_changes(4)]) simp

lemma begin_M:
  "P d st \<Longrightarrow> begin_array_action p st = Inr st' \<Longrightarrow> M d st'"
  "P d st \<Longrightarrow> begin_object_action p st = Inr st' \<Longrightarrow> M d st'"
  "P d st \<Longrightarrow> function_name_action n p st = Inr st' \<Longrightarrow> M d st'"
  unfolding begin_array_action_def begin_object_action_def function_name_action_def
  by (rule store_M, assumption+)+

lemma array_rule_ok:
  assumes "rule_ok (P d) K E vp" "P (Suc d) st"
  shows "ends_opt K E st (length s) (array_rule env pos vp st s)"
proof (cases "take_rule (begin_array_rule env) s")
  case (Some r)
  let ?list = "element_list env pos (take_rule (end_array_rule env)) vp"
  have list: "loop_ok (M (Suc d)) K E ?list"
    by (rule element_list_ok [OF assms(1)]) (auto dest: take_rule_less)
  have "ends_opt K E st (length s)
      (rbind (begin_array_action (pos (length s)) st) (\<lambda>st. rbind (?list st r) (\<lambda>x. Inr (Some x))))"
  proof (rule acts_bind_opt [OF begin_array_K [OF assms(2)] K_trans], assumption)
    fix st'
    assume "begin_array_action (pos (length s)) st = Inr st'"
    with assms(2) have "M (Suc d) st'" by (rule begin_M)
    from ends_weaken [OF loop_okD [OF list this, of r]] take_rule_less [OF Some]
    show "ends_opt K E st' (length s) (rbind (?list st' r) (\<lambda>x. Inr (Some x)))"
      by (intro ends_Some) simp
  qed
  with Some show ?thesis by (simp add: array_rule_def)
qed (simp add: array_rule_def)

lemma object_rule_ok:
  assumes "rule_ok (M (Suc d)) K E mem" "P (Suc d) st"
  shows "ends_opt K E st (length s) (object_rule env pos mem st s)"
proof (cases "take_rule (begin_object_rule env) s")
  case (Some r)
  let ?list = "member_list env (take_rule (end_object_rule env)) mem"
  have list: "loop_ok (M (Suc d)) K E ?list"
    by (rule member_list_ok [OF assms(1)]) (auto dest: take_rule_less)
  have "ends_opt K E st (length s)
      (rbind (begin_object_action (pos (length s)) st) (\<lambda>st. rbind (?list st r) (\<lambda>x. Inr (Some x))))"
  proof (rule acts_bind_opt [OF begin_object_K [OF assms(2)] K_trans], assumption)
    fix st'
    assume "begin_object_action (pos (length s)) st = Inr st'"
    with assms(2) have "M (Suc d) st'" by (rule begin_M)
    from ends_weaken [OF loop_okD [OF list this, of r]] take_rule_less [OF Some]
    show "ends_opt K E st' (length s) (rbind (?list st' r) (\<lambda>x. Inr (Some x)))"
      by (intro ends_Some) simp
  qed
  with Some show ?thesis by (simp add: object_rule_def)
qed (simp add: object_rule_def)

lemma extension_value_ok:
  assumes "rule_ok (P d) K E vp" "P (Suc d) st"
  shows "ends K E st (Suc (length s)) (extension_value env pos vp st s)"
proof (cases "match_function_name s")
  case (Some x)
  obtain n r where x: "x = (n, r)" by (cases x)
  have r: "length r \<le> length s" using Some x function_name_length by simp
  have list: "loop_ok (M (Suc d)) K E (element_list env pos (one_rule '')'') vp)"
    by (rule element_list_ok [OF assms(1)]) (auto dest: one_rule_less)
  have name: "acts K E st (function_name_action n (pos (length s)) st)"
    unfolding function_name_action_def by (rule store_K [OF wf_changes(3) assms(2)])
  have "ends K E st (Suc (length s)) (rbind (function_name_action n (pos (length s)) st) (\<lambda>st.
      case wsp env r of
        None \<Rightarrow> Inl (Syntax_error ''extension_value'')
      | Some r \<Rightarrow> element_list env pos (one_rule '')'') vp st r))"
  proof (rule acts_bind [OF name K_trans], assumption)
    fix st'
    assume "function_name_action n (pos (length s)) st = Inr st'"
    with assms(2) have P': "M (Suc d) st'" by (rule begin_M)
    show "ends K E st' (Suc (length s)) (case wsp env r of
        None \<Rightarrow> Inl (Syntax_error ''extension_value'')
      | Some r \<Rightarrow> element_list env pos (one_rule '')'') vp st' r)"
    proof (cases "wsp env r")
      case (Some r')
      with wsp_less [OF Some] r ends_weaken [OF loop_okD [OF list P', of r'], of "Suc (length s)"]
      show ?thesis by simp
    qed (simp add: errors)
  qed
  with Some x show ?thesis by (simp add: extension_value_def)
qed (simp add: extension_value_def errors)

lemma bracketed_value_ok:
  assumes "rule_ok (P d) K E vp" "P (Suc d) st"
  shows "ends_opt K E st (length s) (bracketed_value env pos vp st s)"
proof (cases "one_rule ''('' s")
  case (Some r)
  have r: "Suc (length (wss env r)) \<le> length s"
    using one_rule_less [OF Some] wss_length [of env r] by simp
  show ?thesis
  proof (cases "at_reference env pos (wss env r)")
    case (Inl e)
    then have "\<exists>m. e = Syntax_error m"
      by (auto simp: at_reference_def dest: match_reference2_error(2) elim!: rbind_InlE split: option.splits)
    with Some Inl show ?thesis by (auto simp: bracketed_value_def errors)
  next
    case (Inr ahead)
    with Some show ?thesis
      using ends_weaken [OF reference_value_ok [OF assms(2)] r] ends_weaken [OF extension_value_ok [OF assms] r]
      by (cases ahead) (auto simp: bracketed_value_def intro: ends_Some)
  qed
qed (simp add: bracketed_value_def)

lemma value_part_body_ok:
  assumes "rule_ok (P d) K E vp" "rule_ok (M (Suc d)) K E mem"
  shows "rule_ok (P (Suc d)) K E (value_part_body env pos vp mem)"
  unfolding rule_ok_def value_part_body_def
  using assms by (auto intro!: sor_ok array_rule_ok object_rule_ok bracketed_value_ok
      rule_okD [OF jaxn_value_ok])

lemma ends_K_trans: "K a b \<Longrightarrow> ends K E b n x \<Longrightarrow> ends K E a n x"
  using K_trans by (auto simp: ends_def split: sum.splits)

lemma assign_member_ok:
  assumes "rule_ok (P d) K E vp" "P d st"
  shows "ends_opt I E st (length s) (assign_member env vp st s)"
proof (cases "one_rule '':='' s")
  case (Some r)
  have r: "length (wss env r) < length s"
    using one_rule_less [OF Some] wss_length [of env r] by simp
  have clear: "acts I E st (assign_head_action st)"
    unfolding assign_head_action_def
    by (rule acts_mono [OF store_K [OF wf_changes(1) assms(2)] K_I])
  have "ends_opt I E st (length s) (rbind (assign_head_action st) (\<lambda>st.
      case remove_rule (wss env r) of
        Some r \<Rightarrow> Inr (Some (st, r))
      | None \<Rightarrow> rbind (value_list env vp st (wss env r)) (\<lambda>x. Inr (Some x))))"
  proof (rule acts_bind_opt [OF clear I_trans], assumption)
    fix st'
    assume "I st st'"
    with assms(2) have P': "P d st'" by (rule P_I)
    show "ends_opt I E st' (length s) (case remove_rule (wss env r) of
        Some r \<Rightarrow> Inr (Some (st', r))
      | None \<Rightarrow> rbind (value_list env vp st' (wss env r)) (\<lambda>x. Inr (Some x)))"
    proof (cases "remove_rule (wss env r)")
      case None
      with ends_weaken [OF rule_okD [OF value_list_ok [OF assms(1)] P', of "wss env r"]] r
      show ?thesis by (auto intro: ends_Some)
    next
      case (Some r')
      with remove_rule_less [OF Some] r show ?thesis by (simp add: I_refl)
    qed
  qed
  with Some show ?thesis by (simp add: assign_member_def)
qed (simp add: assign_member_def)

lemma append_member_ok:
  assumes "rule_ok (P d) K E vp" "P d st"
  shows "ends_opt I E st (length s) (append_member env vp st s)"
proof (cases "append_head s")
  case (Some r)
  have "length (wss env r) \<le> length s"
    using append_head_length [OF Some] wss_length [of env r] by simp
  with ends_weaken [OF rule_okD [OF value_list_ok [OF assms(1)] assms(2), of "wss env r"]] Some
  show ?thesis by (simp add: append_member_def ends_Some)
qed (simp add: append_member_def)

lemma member_key_ok:
  assumes "rule_ok (P d) K E vp"
  shows "rule_ok (M (Suc d)) K E (member_key env pos vp)"
  unfolding rule_ok_def
proof (intro allI impI)
  fix st s
  assume M: "M (Suc d) st"
  show "ends K E st (length s) (member_key env pos vp st s)"
  proof (cases "parse_key1 (quoted_rule env) pos s")
    case (Inl e)
    then show ?thesis using parse_key1_error [OF Inl] by (auto simp: member_key_def errors)
  next
    case (Inr x)
    obtain k r where x: "x = (k, r)" by (cases x)
    note rest = parse_key1_rest [OF Inr [unfolded x]]
    have "ends I E (key1_guard k st) (length s) (key_member env vp (key1_guard k st) r)"
      unfolding key_member_def
      by (rule ends_weaken [where n = "length (wss env r)"])
        (use rest wss_length [of env r] guard_P [OF M] assms in
          \<open>auto intro!: sor_ok assign_member_ok append_member_ok simp: errors\<close>)
    then have "ends K E st (length s) (with_guard (key1_guard k) (key_member env vp) st r)"
      by (rule with_guard_K) (rule guard_K)
    with Inr x
    show ?thesis by (simp add: member_key_def)
  qed
qed

lemma inc_fn_ok:
  assumes "\<And>pos. loop_ok (M d) K E (parse pos)" "M (Suc d) st"
  shows "acts K E st (inc_fn_action env parse name p st)"
proof (cases "open_file env name")
  case (Inl e)
  then show ?thesis using parse_error_E K_refl by (cases e) (simp add: inc_fn_action_def)
next
  case (Inr f)
  obtain content pos where f: "f = (content, pos)" by (cases f)
  with Inr loop_okD [OF assms(1) [of pos] include_M [OF assms(2) Inr], of content] show ?thesis
    by (cases "parse pos st content") (auto simp: inc_fn_action_def)
qed

lemma filename_ok:
  assumes "\<And>pos. loop_ok (M d) K E (parse pos)" "M (Suc d) st"
  shows "ends K E st (length s) (filename_rule env pos parse st s)"
proof (cases "one_rule [CHR 0x22] s")
  case (Some r)
  let ?name = "takeWhile not_quote r" and ?r = "dropWhile not_quote r"
  have "ends K E st (length s) (rbind (inc_fn_action env parse ?name (pos (length r)) st) (\<lambda>st.
      case one_rule [CHR 0x22] ?r of None \<Rightarrow> Inl (Syntax_error ''filename'') | Some r \<Rightarrow> Inr (st, r)))"
  proof (rule acts_bind [OF inc_fn_ok [OF assms] K_trans], assumption)
    fix st'
    have "length r' < length s" if "one_rule [CHR 0x22] ?r = Some r'" for r'
      using one_rule_less [OF that] one_rule_less [OF Some] length_dropWhile_le [of not_quote r]
      by simp
    then show "ends K E st' (length s) (case one_rule [CHR 0x22] ?r of
        None \<Rightarrow> Inl (Syntax_error ''filename'') | Some r \<Rightarrow> Inr (st', r))"
      by (auto simp: errors K_refl split: option.split)
  qed
  with Some show ?thesis by (simp add: filename_rule_def Let_def errors)
qed (simp add: filename_rule_def errors)

lemma include_extension_ok:
  assumes "\<And>pos. loop_ok (M d) K E (parse pos)" "M (Suc d) st"
  shows "ends_opt K E st (length s) (include_extension env pos parse st s)"
proof (cases "string_rule ''include'' s")
  case (Some r)
  let ?x = "case one_rule ''?'' r of
      None \<Rightarrow> (include_action st, r) | Some r \<Rightarrow> (inc_if_action (include_action st), r)"
  obtain st' r' where x: "?x = (st', r')" by (cases ?x)
  have K: "K st st'" "length r' \<le> length r"
    using x include_K K_trans [OF include_K(1) include_K(2)] one_rule_less [of "''?''" r]
    by (auto split: option.splits)
  then have M': "M (Suc d) st'" using assms(2) M_K by blast
  show ?thesis
  proof (cases "wsp env r'")
    case None
    with Some x show ?thesis by (simp add: include_extension_def errors)
  next
    case (Some r2)
    have "length r2 \<le> length s"
      using wsp_less [OF Some] K(2) string_rule_length [OF \<open>string_rule ''include'' s = Some r\<close>] by simp
    from ends_K_trans [OF K(1) ends_weaken [OF filename_ok [OF assms(1) M', where s = r2] this]]
      Some \<open>string_rule ''include'' s = Some r\<close> x
    show ?thesis by (simp add: include_extension_def ends_Some)
  qed
qed (simp add: include_extension_def)

lemma flag_extension_ok:
  assumes "M d st" "action \<in> {temporary_action, permanent_action}" "word \<noteq> []"
  shows "ends_opt K E st (length s) (flag_extension env pos word action st s)"
proof (cases "string_rule word s")
  case (Some r)
  show ?thesis
  proof (cases "wsp env r")
    case None
    with Some show ?thesis by (simp add: flag_extension_def errors)
  next
    case (Some r2)
    note w = this
    show ?thesis
    proof (cases "parse_key1 (quoted_rule env) pos r2")
      case (Inl e)
      then show ?thesis
        using parse_key1_error [OF Inl] w \<open>string_rule word s = Some r\<close>
        by (auto simp: flag_extension_def errors)
    next
      case (Inr x)
      obtain k r3 where x: "x = (k, r3)" by (cases x)
      note rest = parse_key1_rest [OF Inr [unfolded x]]
      have r3: "length r3 < length s"
        using rest wsp_less [OF w] string_rule_length [OF \<open>string_rule word s = Some r\<close>] by simp
      have "ends_opt K E st (length s)
          (rbind (rbind (key1_rule_action k st) action) (\<lambda>st. Inr (Some (st, r3))))"
        by (rule acts_bind_opt [OF flag_K [OF assms(1) _ assms(2)] K_trans])
          (use rest r3 K_refl in auto)
      then show ?thesis
        using Inr x w \<open>string_rule word s = Some r\<close> by (simp add: flag_extension_def rbind_assoc)
    qed
  qed
qed (simp add: flag_extension_def)

lemma extension_member_ok:
  assumes "\<And>pos. loop_ok (M d) K E (parse pos)" "M (Suc d) st"
  shows "ends_opt K E st (length s) (extension_member env pos parse st s)"
proof (cases "one_rule ''('' s")
  case (Some r)
  let ?alt = "sor (include_extension env pos parse)
    (sor (flag_extension env pos ''temporary'' temporary_action)
      (sor (flag_extension env pos ''permanent'' permanent_action)
        (\<lambda>st s. Inl (Syntax_error ''extension_member''))))"
  let ?rest = "\<lambda>(st, r). case one_rule '')'' (wss env r) of
      None \<Rightarrow> Inl (Syntax_error ''one'') | Some r \<Rightarrow> Inr (Some (st, r))"
  have alt: "ends K E st (length (wss env r)) (?alt st (wss env r))"
    by (intro sor_ok include_extension_ok [OF assms] flag_extension_ok [OF assms(2)]) (simp_all add: errors)
  have "ends_opt K E st (length s) (rbind (?alt st (wss env r)) ?rest)"
  proof (cases "?alt st (wss env r)")
    case (Inl e)
    with alt show ?thesis by simp
  next
    case (Inr x)
    obtain st' r' where x: "x = (st', r')" by (cases x)
    have "length r2 < length s" if "one_rule '')'' (wss env r') = Some r2" for r2
      using one_rule_less [OF that] wss_length [of env r'] alt Inr x wss_length [of env r]
        one_rule_less [OF Some] by simp
    with alt Inr x show ?thesis by (auto simp: errors split: option.split)
  qed
  with Some show ?thesis by (simp add: extension_member_def)
qed (simp add: extension_member_def)

lemma member_rule_ok:
  assumes "rule_ok (P d) K E vp" "\<And>pos. loop_ok (M d) K E (parse pos)"
  shows "rule_ok (M (Suc d)) K E (member_rule env pos vp parse)"
  unfolding rule_ok_def member_rule_def
  using assms by (auto intro!: sor_ok extension_member_ok rule_okD [OF member_key_ok])

lemma config_file_body_ok:
  assumes "rule_ok (P d) K E vp" "\<And>pos. loop_ok (M d) K E (parse pos)"
  shows "loop_ok (M (Suc d)) K E (config_file_body env pos vp parse)"
  unfolding loop_ok_def
proof (intro allI impI)
  fix st s
  assume M: "M (Suc d) st"
  note member = member_rule_ok [OF assms, of pos]
  show "ends K E st (Suc (length s)) (config_file_body env pos vp parse st s)"
  proof (cases "take_rule (begin_object_rule env) (wss env s)")
    case None
    have "loop_ok (M (Suc d)) K E (member_list env eof_rule (member_rule env pos vp parse))"
      by (rule member_list_ok [OF member]) (auto simp: eof_rule_def split: if_splits)
    from ends_weaken [OF loop_okD [OF this M, of "wss env s"], of "Suc (length s)"] None
    show ?thesis by (simp add: config_file_body_def wss_length)
  next
    case (Some r)
    let ?list = "member_list env (take_rule (end_object_rule env)) (member_rule env pos vp parse)"
    have "loop_ok (M (Suc d)) K E ?list"
      by (rule member_list_ok [OF member]) (auto dest: take_rule_less)
    from loop_okD [OF this M, of r] Some take_rule_less [OF Some] wss_length [of env s]
    show ?thesis
      by (cases "?list st r")
        (auto simp: config_file_body_def errors eof_rule_def split: option.split if_splits)
  qed
qed

lemma parse_rules_ok:
  "(\<forall>pos. rule_ok (P depth) K E (value_part env depth pos)) \<and>
   (\<forall>pos. loop_ok (M depth) K E (config_file env depth pos))"
proof (induction depth)
  case 0
  then show ?case by (simp add: rule_ok_def loop_ok_def stack)
next
  case (Suc depth)
  then have vp: "\<And>pos. rule_ok (P depth) K E (value_part env depth pos)"
    and parse: "\<And>pos. loop_ok (M depth) K E (config_file env depth pos)" by blast+
  have "rule_ok (P (Suc depth)) K E (value_part env (Suc depth) pos)" for pos
    using value_part_body_ok [OF vp member_rule_ok [OF vp parse]] by (simp add: rule_ok_def)
  moreover have "loop_ok (M (Suc depth)) K E (config_file env (Suc depth) pos)" for pos
    using config_file_body_ok [OF vp parse] by (simp add: loop_ok_def)
  ultimately show ?case by blast
qed

lemma value_part_ends: "P depth st \<Longrightarrow> ends K E st (length s) (value_part env depth pos st s)"
  using parse_rules_ok by (simp add: rule_ok_def)

lemma config_file_ends:
  "M depth st \<Longrightarrow> ends K E st (Suc (length s)) (config_file env depth pos st s)"
  using parse_rules_ok by (simp add: loop_ok_def)

end

end
