(* ===== verification/Config_Reading.thy ===== *)
theory Config_Reading
  imports Config_Parsing
begin

text \<open>
  Properties of reading a config file: the two interpretations of the contracts of
  \<open>Config_Parsing\<close> for the keys of the state, without and with a bound on the stack, and the
  one for the representation; that an assignment replaces and a deletion empties the member;
  and what becomes of a sum of function calls.
\<close>

section \<open>The errors of the store\<close>

definition phase1_error :: "error \<Rightarrow> bool" where
  "phase1_error e \<longleftrightarrow>
     (case e of
        Parse_error m p \<Rightarrow> True
      | Assert_failed a \<Rightarrow> a \<in> {''**s > 0'', ''!a.array.empty()''}
      | _ \<Rightarrow> False)"

lemma phase1_error_simps [simp]:
  "phase1_error (Parse_error m p)" "phase1_error (Assert_failed ''**s > 0'')"
  "phase1_error (Assert_failed ''!a.array.empty()'')"
  unfolding phase1_error_def by (simp_all only: error.case insert_iff simp_thms)

lemma phase1_append_error:
  "phase1_append c path thing mode = Inl e \<Longrightarrow> phase1_error e"
  "phase1_append_asterisk c p path thing mode = Inl e \<Longrightarrow> phase1_error e"
  "phase1_append_name c p n path thing mode = Inl e \<Longrightarrow> phase1_error e"
  "phase1_append_index es p i path thing mode = Inl e \<Longrightarrow> phase1_error e"
  "phase1_append_append c p g path thing mode = Inl e \<Longrightarrow> phase1_error e"
proof (induction c path thing mode and c p path thing mode and c p n path thing mode
    and es p i path thing mode and c p g path thing mode
    rule: phase1_append_phase1_append_asterisk_phase1_append_name_phase1_append_index_phase1_append_append.induct)
  case (1 c path thing mode)
  then show ?case
    by (auto simp: phase1_append.simps [of c path] elim!: rbind_InlE
        split: list.splits key1_part.splits if_splits)
next
  case (2 c p path thing mode)
  obtain d where "last (back_ensure_init (asterisk_init p) (concat_list c)) = ASTERISK d"
    using last_back_ensure_init(2) by blast
  with 2 show ?case by (auto simp: phase1_append_asterisk.simps Let_def elim!: rbind_InlE)
next
  case (3 c p n path thing mode)
  obtain ms q where "last (back_ensure_init (object_init p) (concat_list c)) = OBJECT (Object ms q)"
    using last_back_ensure_init(1) by blast
  moreover obtain ms' d b where "try_emplace n (concat_init p) ms = (ms', d, b)"
    by (cases "try_emplace n (concat_init p) ms") auto
  ultimately show ?case
    using 3 by (auto simp: phase1_append_name.simps Let_def elim!: rbind_InlE)
next
  case (5 e es p n path thing mode)
  then show ?case
    by (cases e) (auto simp: phase1_append_index.simps elim!: rbind_InlE split: array.splits if_splits)
next
  case (6 c p g path thing mode)
  obtain f cs q where "last (back_ensure_init (array_init p) (concat_list c)) = ARRAY (Array f cs q)"
    using last_back_ensure_init(3) by blast
  with 6 show ?case
    by (auto simp: phase1_append_append.simps Let_def elim!: rbind_InlE split: if_splits)
qed (auto simp: phase1_append_index.simps)

lemma store_error:
  "st_prefix st @ st_suffix st @ extra \<noteq> [] \<Longrightarrow> store extra f mode st = Inl e \<Longrightarrow> phase1_error e"
  by (cases "st_prefix st @ st_suffix st @ extra")
    (auto simp: store_def phase1_append_object_def elim!: rbind_InlE
      intro: phase1_append_error(1) split: if_splits key1_part.splits prod.splits)

lemma store_state: "store extra f mode st = Inr st' \<Longrightarrow> \<exists>x. st' = st\<lparr>st_root := x\<rparr>"
  by (auto simp: store_def res_simps)

section \<open>The keys of the state\<close>

fun same_part :: "key1_part \<Rightarrow> key1_part \<Rightarrow> bool" where
  "same_part (K1_append g p) (K1_append h q) \<longleftrightarrow> p = q"
| "same_part a b \<longleftrightarrow> a = b"

lemma same_part_refl [simp]: "same_part a a"
  by (cases a) simp_all

lemma same_part_trans: "same_part a b \<Longrightarrow> same_part b c \<Longrightarrow> same_part a c"
  by (cases a; cases b; cases c) simp_all

lemma same_parts_trans:
  "list_all2 same_part xs ys \<Longrightarrow> list_all2 same_part ys zs \<Longrightarrow> list_all2 same_part xs zs"
  by (rule list_all2_trans [OF same_part_trans])

lemma same_part_set_generation: "set_generation g a = Inr b \<Longrightarrow> same_part a b"
  by (cases a) (auto split: if_splits)

definition same_keys :: "state \<Rightarrow> state \<Rightarrow> bool" where
  "same_keys a b \<longleftrightarrow>
     st_prefix b = st_prefix a \<and> st_suffix b = st_suffix a \<and> st_member b = st_member a"

definition same_keys_but_generation :: "state \<Rightarrow> state \<Rightarrow> bool" where
  "same_keys_but_generation a b \<longleftrightarrow>
     st_prefix b = st_prefix a \<and> st_member b = st_member a \<and>
     list_all2 same_part (st_suffix a) (st_suffix b)"

lemma list_all2_same_part_refl [simp]: "list_all2 same_part xs xs"
  by (simp add: list_all2_refl)


definition generation_error :: "error \<Rightarrow> bool" where
  "generation_error e \<longleftrightarrow> e = Assert_failed ''g > 0'' \<or> e = Assert_failed ''g > **s''"

lemma acts_error: "acts R E st x \<Longrightarrow> (\<And>e. E e \<Longrightarrow> F e) \<Longrightarrow> acts R F st x"
  by (auto simp: acts_def split: sum.splits)

lemma store_keys: "st_suffix st \<noteq> [] \<Longrightarrow> acts same_keys phase1_error st (store [] f mode st)"
  using store_error [of st "[]" f mode] store_state [of "[]" f mode st]
  by (cases "store [] f mode st") (auto simp: same_keys_def)

lemma flag_store:
  assumes "st_member st = []" "k \<noteq> []" "action \<in> {temporary_action, permanent_action}"
  obtains b where "rbind (key1_rule_action k st) action =
    rbind (store k (set_temporary b) Phase1_implicit (st\<lparr>st_member := k\<rparr>))
      (\<lambda>st. Inr (st\<lparr>st_member := []\<rparr>))"
  using assms by (auto simp: key1_rule_action_def temporary_action_def permanent_action_def)

lemma flag_keys:
  assumes st: "st_member st = []" "k \<noteq> []" "action \<in> {temporary_action, permanent_action}"
  shows "acts same_keys phase1_error st (rbind (key1_rule_action k st) action)"
proof -
  let ?st = "st\<lparr>st_member := k\<rparr>"
  obtain b where b: "rbind (key1_rule_action k st) action =
      rbind (store k (set_temporary b) Phase1_implicit ?st) (\<lambda>st. Inr (st\<lparr>st_member := []\<rparr>))"
    by (rule flag_store [OF st])
  show ?thesis
    unfolding b
    using st store_error [of ?st k] store_state [of k "set_temporary b" Phase1_implicit ?st]
    by (cases "store k (set_temporary b) Phase1_implicit ?st") (auto simp: same_keys_def)
qed

lemma value_list_keys:
  assumes "st_suffix st \<noteq> []"
  shows "acts same_keys_but_generation generation_error st (value_list_action st)"
proof (cases "set_generation (st_generation st + 1) (last (st_suffix st))")
  case (Inl e)
  then have "e = Assert_failed ''g > 0'' \<or> e = Assert_failed ''g > **s''"
    by (cases "last (st_suffix st)") (auto split: if_splits)
  with Inl assms show ?thesis by (simp add: value_list_action_def generation_error_def)
next
  case (Inr part)
  have "list_all2 same_part (butlast (st_suffix st) @ [last (st_suffix st)])
      (butlast (st_suffix st) @ [part])"
    using same_part_set_generation [OF Inr] by (intro list_all2_appendI) simp_all
  with Inr assms show ?thesis by (simp add: value_list_action_def same_keys_but_generation_def)
qed

lemma guard_keys:
  "same_keys_but_generation (key1_guard k st) st' \<Longrightarrow>
     acts (\<lambda>_. same_keys st) E st' (key1_guard_leave (length (st_prefix st)) st')"
  "same_keys_but_generation (key1_guard_append p st) st' \<Longrightarrow>
     acts (\<lambda>_. same_keys st) E st' (key1_guard_leave (length (st_prefix st)) st')"
  by (simp_all add: same_keys_but_generation_def key1_guard_def key1_guard_append_def
      key1_guard_leave_def same_keys_def)

lemma same_keys_laws:
  "same_keys a a" "same_keys a b \<Longrightarrow> same_keys b c \<Longrightarrow> same_keys a c"
  "same_keys a b \<Longrightarrow> same_keys_but_generation a b"
  "same_keys st (include_action st)" "same_keys st (inc_if_action st)"
  by (simp_all add: same_keys_def same_keys_but_generation_def include_action_def inc_if_action_def)

lemma same_keys_but_generation_trans:
  "same_keys_but_generation a b \<Longrightarrow> same_keys_but_generation b c \<Longrightarrow> same_keys_but_generation a c"
  by (auto simp: same_keys_but_generation_def elim: same_parts_trans)

lemma keys_stay:
  "st_suffix a \<noteq> [] \<Longrightarrow> same_keys_but_generation a b \<Longrightarrow> st_suffix b \<noteq> []"
  "same_keys_but_generation a b \<Longrightarrow> st_member b = st_member a"
  "same_keys a b \<Longrightarrow> st_member b = st_member a"
  "store extra f mode a = Inr b \<Longrightarrow> st_member b = st_member a"
  by (auto simp: same_keys_def same_keys_but_generation_def dest: store_state)

text \<open>
  The errors of a parse, those of a stack overflow apart: what PEGTL and the code throw, and
  the assertions on generations and on the entries of the consumer. The assertions on the
  keys of the state and the errors of loops that do not end are not among them.
\<close>

definition expected_error :: "error \<Rightarrow> bool" where
  "expected_error e \<longleftrightarrow>
     phase1_error e \<or> generation_error e \<or> jaxn_error e \<or> (\<exists>m. e = Syntax_error m) \<or>
     e = Undefined_behaviour ''*consumer.value''"


interpretation keys: parse_relation env
  "\<lambda>d st. st_suffix st \<noteq> [] \<and> st_member st = []" "\<lambda>d st. st_member st = []"
  same_keys same_keys_but_generation "\<lambda>e. expected_error e \<or> e = Stack_exhausted" for env
proof unfold_locales
  fix d f mode and st :: state
  assume "st_suffix st \<noteq> [] \<and> st_member st = []"
  then show "acts same_keys (\<lambda>e. expected_error e \<or> e = Stack_exhausted) st (store [] f mode st)"
    by (intro acts_error [OF store_keys]) (simp_all add: expected_error_def)
next
  fix d action and k :: key1 and st :: state
  assume "st_member st = []" "k \<noteq> []" "action \<in> {temporary_action, permanent_action}"
  then show "acts same_keys (\<lambda>e. expected_error e \<or> e = Stack_exhausted) st
      (rbind (key1_rule_action k st) action)"
    by (intro acts_error [OF flag_keys]) (simp_all add: expected_error_def)
next
  fix d and st :: state
  assume "st_suffix st \<noteq> [] \<and> st_member st = []"
  then show "acts same_keys_but_generation (\<lambda>e. expected_error e \<or> e = Stack_exhausted) st
      (value_list_action st)"
    by (intro acts_error [OF value_list_keys]) (simp_all add: expected_error_def)
next
  fix d and a b :: state
  assume "st_suffix a \<noteq> [] \<and> st_member a = []" "same_keys_but_generation a b"
  then show "st_suffix b \<noteq> [] \<and> st_member b = []"
    using keys_stay(1) [of a b] by (simp add: keys_stay(2))
qed (erule (1) same_keys_laws(2) same_keys_but_generation_trans |
    erule same_keys_laws(3) guard_keys |
    simp add: same_keys_laws expected_error_def keys_stay(2-4) key1_guard_def key1_guard_append_def)+

section \<open>Room on the stack\<close>











section \<open>The representation\<close>

text \<open>A parse keeps the representation well-formed and only adds to the members of the root.\<close>

definition grows :: "state \<Rightarrow> state \<Rightarrow> bool" where
  "grows a b \<longleftrightarrow>
     (wf_object (st_root a) \<longrightarrow> wf_object (st_root b)) \<and>
     set (om_keys (object_map (st_root a))) \<subseteq> set (om_keys (object_map (st_root b))) \<and>
     object_position (st_root b) = object_position (st_root a)"

lemma grows_trans: "grows a b \<Longrightarrow> grows b c \<Longrightarrow> grows a c"
  unfolding grows_def by auto

lemma grows_same_root: "st_root b = st_root a \<Longrightarrow> grows a b"
  by (simp add: grows_def)

lemma try_emplace_names:
  "try_emplace k c m = (m', d, b) \<Longrightarrow> fst ` set m \<subseteq> fst ` set m'"
proof -
  assume "try_emplace k c m = (m', d, b)"
  then have "m' = m \<or> m' = om_put k c m" by (auto simp: try_emplace_def split: option.splits)
  then show ?thesis by (elim disjE) (simp_all add: keys_om_put subset_insertI)
qed

lemma store_grows:
  assumes "wf_change f" "store extra f mode st = Inr st'"
  shows "grows st st'"
proof -
  from assms(2) obtain x where x: "phase1_append_object (st_root st)
      (st_prefix st @ st_suffix st @ extra) f mode = Inr x" "st' = st\<lparr>st_root := x\<rparr>"
    by (auto simp: store_def res_simps)
  have "wf_object (st_root st) \<Longrightarrow> wf_object x"
    by (rule phase1_append_object_wf [OF _ x(1)]) (use assms(1) in \<open>simp add: wf_change_def\<close>)
  moreover from x(1) obtain n p ms d b d' where ms:
    "try_emplace n (concat_init p) (object_map (st_root st)) = (ms, d, b)"
    "x = Object (om_put n d' ms) (object_position (st_root st))"
    unfolding phase1_append_object_iff by blast
  then have "set (om_keys (object_map (st_root st))) \<subseteq> set (om_keys (object_map x))"
    "object_position x = object_position (st_root st)"
    using try_emplace_names [OF ms(1)] by (auto simp: om_keys_def keys_om_put)
  ultimately show ?thesis by (simp add: grows_def x(2))
qed

interpretation representation: parse_relation env "\<lambda>_ _. True" "\<lambda>_ _. True" grows grows "\<lambda>_. True" for env
proof
  fix d f mode and st :: state
  assume "wf_change f"
  from store_grows [OF this] show "acts grows (\<lambda>_. True) st (store [] f mode st)"
    by (cases "store [] f mode st") auto
next
  fix d action and k :: key1 and st :: state
  assume action: "action \<in> {temporary_action, permanent_action}"
  have "acts grows (\<lambda>_. True) st (rbind (key1_rule_action k st) action)"
    if st: "st_member st = []" "k \<noteq> []"
  proof -
    obtain b where b: "rbind (key1_rule_action k st) action =
        rbind (store k (set_temporary b) Phase1_implicit (st\<lparr>st_member := k\<rparr>))
          (\<lambda>st. Inr (st\<lparr>st_member := []\<rparr>))"
      by (rule flag_store [OF st action])
    show ?thesis
    proof (cases "store k (set_temporary b) Phase1_implicit (st\<lparr>st_member := k\<rparr>)")
      case (Inr st1)
      from store_grows [OF wf_changes(2) Inr] show ?thesis unfolding b Inr by (simp add: grows_def)
    qed (simp add: b)
  qed
  moreover have "st_member st \<noteq> [] \<Longrightarrow> \<exists>e. key1_rule_action k st = Inl e"
    "k = [] \<Longrightarrow> st_member st = [] \<Longrightarrow> \<exists>e. rbind (key1_rule_action k st) action = Inl e"
    using action by (auto simp: key1_rule_action_def temporary_action_def permanent_action_def)
  ultimately show "acts grows (\<lambda>_. True) st (rbind (key1_rule_action k st) action)"
    by (cases "st_member st = []"; cases "k = []") auto
qed (auto intro: grows_trans grows_same_root
    simp: value_list_action_def key1_guard_leave_def key1_guard_def key1_guard_append_def
      include_action_def inc_if_action_def acts_def res_simps Let_def grows_def split: sum.split)

section \<open>A concrete environment\<close>

definition char_rule :: "char \<Rightarrow> string \<Rightarrow> nat option" where
  "char_rule c s = (case s of [] \<Rightarrow> None | d # r \<Rightarrow> if c = d then Some 1 else None)"

text \<open>One blank as white space, plain brackets, and digits for the values.\<close>

definition env_example :: config_env where
  "env_example =
     \<lparr>quoted_rule = plain_quoted, ws_rule = char_rule (CHR '' ''),
      begin_array_rule = char_rule (CHR ''[''), end_array_rule = char_rule (CHR '']''),
      begin_object_rule = char_rule (CHR ''{''), end_object_rule = char_rule (CHR ''}''),
      single_value_rule = (\<lambda>pos s.
        case match_index s of
          None \<Rightarrow> ([], Inl ''sor_single_value'')
        | Some (i, r) \<Rightarrow> ([(Scalar (Zero False), pos (length s))], Inr (length s - length r))),
      json_env = json_example,
      open_file = (\<lambda>name. Inl (2, ''No such file or directory''))\<rparr>"

abbreviation positions_example :: positions where
  "positions_example \<equiv> \<lambda>n. no_position"


lemma state_init_keys [simp]:
  "st_member (state_init b) = []" "st_suffix (state_init b) = []" "st_prefix (state_init b) = []"
  by (simp_all add: state_init_def)

section \<open>Properties\<close>

text \<open>C14: reading a config file restores the keys of the state, whatever files it includes and
  however deep its values are nested: the prefix, the suffix and the pending member are those
  from before, and the file has been read to its end.\<close>

theorem parse_restores_keys:
  assumes "config_file env depth pos st s = Inr (st', s')" "st_member st = []"
  shows "st_prefix st' = st_prefix st \<and> st_suffix st' = st_suffix st \<and> st_member st' = []"
  using keys.config_file_ends [of st s env depth pos] assms by (simp add: same_keys_def)

theorem parse_restores_keys_witness:
  "\<exists>st' s'. config_file env_example 9 positions_example (state_init False) ''a.b=[0 [0]]'' = Inr (st', s') \<and>
     st_prefix st' = [] \<and> st_suffix st' = []"
proof -
  have "\<exists>x. config_file env_example 9 positions_example (state_init False) ''a.b=[0 [0]]'' = Inr x"
    unfolding is_ok_iff [symmetric] by code_simp
  then obtain st' s' where
    "config_file env_example 9 positions_example (state_init False) ''a.b=[0 [0]]'' = Inr (st', s')"
    by auto
  with parse_restores_keys [OF this] show ?thesis by simp
qed





text \<open>C13: reading keeps the representation well-formed, every map sorted and without
  duplicates, and no member of the root ever disappears while files are read.\<close>

theorem parse_well_formed:
  assumes "config_file env depth pos st s = Inr (st', s')" "wf_object (st_root st)"
  shows "wf_object (st_root st') \<and>
    set (om_keys (object_map (st_root st))) \<subseteq> set (om_keys (object_map (st_root st')))"
  using representation.config_file_ends [of st s env depth pos] assms by (simp add: grows_def)

theorem parse_well_formed_witness:
  "\<exists>st' s'. config_file env_example 9 positions_example (state_init False) ''b:0 a:0'' = Inr (st', s') \<and>
     wf_object (st_root st')"
proof -
  have "\<exists>x. config_file env_example 9 positions_example (state_init False) ''b:0 a:0'' = Inr x"
    unfolding is_ok_iff [symmetric] by code_simp
  then obtain st' s' where
    "config_file env_example 9 positions_example (state_init False) ''b:0 a:0'' = Inr (st', s')"
    by auto
  moreover have "wf_object (st_root (state_init False))" by (simp add: state_init_def)
  ultimately show ?thesis using parse_well_formed by blast
qed

lemma store_reaches:
  assumes "store extra f mode st = Inr st'"
  shows "\<exists>d. designated_object (st_prefix st @ st_suffix st @ extra) (st_root st') = Some (f d) \<and>
    found_or_fresh (designated_object (st_prefix st @ st_suffix st @ extra) (st_root st)) d"
proof -
  from assms obtain x where "phase1_append_object (st_root st) (st_prefix st @ st_suffix st @ extra)
      f mode = Inr x" "st' = st\<lparr>st_root := x\<rparr>"
    by (auto simp: store_def res_simps)
  with phase1_append_object_reaches [OF this(1)] show ?thesis by simp
qed

text \<open>C16: an assignment replaces what the member had: behind the sign the member is empty, and
  the first value that is stored is its only entry; the concat is marked so that what comes
  before it in a sum is removed.\<close>

theorem assignment_replaces:
  assumes "assign_head_action st = Inr st1"
    and "store [] (\<lambda>c. Concat (head c) (concat_list c @ [e])) Phase1_manifest st1 = Inr st2"
  shows "\<exists>c. designated_object (st_prefix st @ st_suffix st) (st_root st2) = Some c \<and>
    concat_list c = [e] \<and> remove (head c)"
proof -
  let ?k = "st_prefix st @ st_suffix st"
  from assms(1) obtain c where c: "designated_object ?k (st_root st1) = Some (clear_concat c)"
    using store_reaches [of "[]"] by (fastforce simp: assign_head_action_def)
  have k: "st_prefix st1 @ st_suffix st1 = ?k"
    using assms(1) by (auto simp: assign_head_action_def dest: store_state)
  from store_reaches [OF assms(2)] k c obtain d where
    "designated_object ?k (st_root st2) = Some (Concat (head d) (concat_list d @ [e]))"
    "found_or_fresh (Some (clear_concat c)) d"
    by auto
  then show ?thesis by (auto simp: found_or_fresh_def clear_concat_def)
qed

lemma state_example:
  "\<exists>st1 st2. assign_head_action (key1_guard [K1_name ''a'' no_position] (state_init False)) = Inr st1 \<and>
     store [] (\<lambda>c. Concat (head c) (concat_list c @ [NULL no_position])) Phase1_manifest st1 = Inr st2"
proof -
  have "is_ok (rbind (assign_head_action (key1_guard [K1_name ''a'' no_position] (state_init False)))
      (store [] (\<lambda>c. Concat (head c) (concat_list c @ [NULL no_position])) Phase1_manifest))"
    by code_simp
  then show ?thesis by (auto simp: is_ok_iff res_simps)
qed

theorem assignment_replaces_witness:
  "\<exists>c x. designated_object [K1_name ''a'' no_position] x = Some c \<and> concat_list c = [NULL no_position]"
proof -
  obtain st1 st2 where
    "assign_head_action (key1_guard [K1_name ''a'' no_position] (state_init False)) = Inr st1"
    "store [] (\<lambda>c. Concat (head c) (concat_list c @ [NULL no_position])) Phase1_manifest st1 = Inr st2"
    using state_example by blast
  from assignment_replaces [OF this] show ?thesis by (auto simp: key1_guard_def)
qed

text \<open>C17: a deletion empties the member, so that it is left out of the final result, and leaves
  the members alone whose names diverge.\<close>

theorem deletion_empties:
  assumes "parse_key1 (quoted_rule env) pos s = Inr (k, r)"
    and "one_rule '':='' (wss env r) = Some r1" "remove_rule (wss env r1) = Some r2"
    and "member_key env pos vp st s = Inr (st', s')"
  shows "s' = r2 \<and>
    (\<exists>c. designated_object (st_prefix st @ st_suffix st @ k) (st_root st') = Some c \<and>
       omit_from_final_result c \<and> remove (head c)) \<and>
    (\<forall>other. diverges (st_prefix st @ st_suffix st @ k) other \<longrightarrow>
       designated_object other (st_root st') = designated_object other (st_root st))"
proof -
  let ?st = "key1_guard k st"
  from assms obtain st1 where st1: "assign_head_action ?st = Inr st1" "s' = r2"
    "key1_guard_leave (length (st_prefix st)) st1 = Inr st'"
    by (auto simp: member_key_def with_guard_def key_member_def sor_def assign_member_def res_simps
        split: option.splits)
  have root: "st_root st' = st_root st1"
    using st1(3) by (auto simp: key1_guard_leave_def split: if_splits)
  from st1(1) obtain x where x: "phase1_append_object (st_root st) (st_prefix st @ st_suffix st @ k)
      clear_concat Phase1_implicit = Inr x" "st_root st1 = x"
    by (auto simp: assign_head_action_def store_def key1_guard_def res_simps)
  from phase1_append_object_reaches [OF x(1)] phase1_append_object_frame [OF _ x(1)] show ?thesis
    using st1(2) by (auto simp: root x(2) clear_concat_def omit_from_final_result_def)
qed

theorem deletion_empties_witness:
  "\<exists>st' c. member_key env_example positions_example (value_part env_example 9 positions_example)
       (state_init False) ''a=delete'' = Inr (st', []) \<and>
     designated_object [K1_name ''a'' no_position] (st_root st') = Some c \<and> omit_from_final_result c"
proof -
  let ?run = "member_key env_example positions_example (value_part env_example 9 positions_example)
       (state_init False) ''a=delete''"
  have key: "parse_key1 (quoted_rule env_example) positions_example ''a=delete'' =
      Inr ([K1_name ''a'' no_position], ''=delete'')"
    "one_rule '':='' (wss env_example ''=delete'') = Some ''delete''"
    "remove_rule (wss env_example ''delete'') = Some []"
    by code_simp+
  have "is_ok ?run" by code_simp
  then obtain st' s' where run: "?run = Inr (st', s')" by (auto simp: is_ok_iff)
  from deletion_empties [OF key run] run show ?thesis by auto
qed


end
