(* ===== verification/Config_Remove.thy ===== *)
theory Config_Remove
  imports Config_Key1 Config_Statistics
begin

text \<open>
  Phase three, \<open>phase3_remove.hpp\<close>: everything that is implicit, temporary or deleted is
  dropped, and anything that phase two could not resolve is an error. The reference
  definition \<open>prune\<close> drops the same members from a representation without checking; the
  lemmas show that the code succeeds exactly on resolved representations, that it computes
  \<open>prune\<close>, and what its result looks like.
\<close>

section \<open>The code\<close>

fun phase3_remove_concat :: "concat \<Rightarrow> error + concat"
  and phase3_remove_entry :: "entry \<Rightarrow> error + entry"
  and phase3_remove_array :: "array \<Rightarrow> error + array"
  and phase3_remove_object :: "object \<Rightarrow> error + object" where
  "phase3_remove_concat (Concat h es) =
     rbind (map_res phase3_remove_entry es) (\<lambda>es'. Inr (Concat h es'))"
| "phase3_remove_entry (ARRAY a) =
     (if array_function a \<noteq> []
      then Inl (Parse_error (''function '' @ [CHR 0x27] @ array_function a @ [CHR 0x27] @
                             '' could not be called'') (array_position a))
      else rbind (phase3_remove_array a) (\<lambda>a'. Inr (ARRAY a')))"
| "phase3_remove_entry (OBJECT x) = rbind (phase3_remove_object x) (\<lambda>x'. Inr (OBJECT x'))"
| "phase3_remove_entry (ASTERISK c) =
     Inl (Parse_error ''asterisk could not be expanded'' (concat_position (head c)))"
| "phase3_remove_entry (REFERENCE r) =
     Inl (Parse_error (''reference '' @ [CHR 0x27] @ reference2_to_string r @ [CHR 0x27] @
                       '' could not be resolved'') (entry_position (REFERENCE r)))"
| "phase3_remove_entry e = Inr e"
| "phase3_remove_array (Array f cs p) =
     rbind (map_res phase3_remove_concat cs) (\<lambda>cs'.
       Inr (Array f (filter (\<lambda>c. \<not> omit_from_final_result c) cs') p))"
| "phase3_remove_object (Object ms p) =
     rbind (map_res (on_value phase3_remove_concat) ms) (\<lambda>ms'.
       Inr (Object (filter (\<lambda>m. \<not> omit_from_final_result (snd m)) ms') p))"

section \<open>Reference definition\<close>

fun prune_concat :: "concat \<Rightarrow> concat"
  and prune_entry :: "entry \<Rightarrow> entry"
  and prune_array :: "array \<Rightarrow> array"
  and prune_object :: "object \<Rightarrow> object" where
  "prune_concat (Concat h es) = Concat h (map prune_entry es)"
| "prune_entry (ARRAY a) = ARRAY (prune_array a)"
| "prune_entry (OBJECT x) = OBJECT (prune_object x)"
| "prune_entry e = e"
| "prune_array (Array f cs p) =
     Array f (map prune_concat (filter (\<lambda>c. \<not> omit_from_final_result c) cs)) p"
| "prune_object (Object ms p) =
     Object (map (\<lambda>(k, c). (k, prune_concat c))
               (filter (\<lambda>m. \<not> omit_from_final_result (snd m)) ms)) p"

fun resolved_node :: "node \<Rightarrow> bool" where
  "resolved_node (Node_array a) \<longleftrightarrow> array_function a = []"
| "resolved_node (Node_entry (ASTERISK c)) \<longleftrightarrow> False"
| "resolved_node (Node_entry (REFERENCE r)) \<longleftrightarrow> False"
| "resolved_node n \<longleftrightarrow> True"

abbreviation resolved_object :: "object \<Rightarrow> bool" where
  "resolved_object \<equiv> all_object resolved_node"

lemma array_function_all: "all_array resolved_node a \<Longrightarrow> array_function a = []"
  by (cases a) auto

section \<open>Success and result\<close>

lemma omit_prune [simp]: "omit_from_final_result (prune_concat c) = omit_from_final_result c"
  by (cases c) (simp add: omit_from_final_result_def)

lemma phase3_remove_ok:
  "is_ok (phase3_remove_entry e) \<longleftrightarrow> all_entry resolved_node e"
  "array_function a = [] \<Longrightarrow> is_ok (phase3_remove_array a) \<longleftrightarrow> all_array resolved_node a"
  "is_ok (phase3_remove_object x) \<longleftrightarrow> all_object resolved_node x"
  "is_ok (phase3_remove_concat c) \<longleftrightarrow> all_concat resolved_node c"
proof (induction e and a and x and c rule: tree_induct)
  case (1 e)
  then show ?case by (cases e) auto
next
  case (3 a)
  then show ?case by (auto dest: array_function_all)
next
  case (7 ms p)
  then show ?case by (auto simp: map_res_ok on_value_def)
qed (auto simp: map_res_ok)

lemma phase3_remove_prune:
  "all_entry resolved_node e \<Longrightarrow> phase3_remove_entry e = Inr (prune_entry e)"
  "all_array resolved_node a \<Longrightarrow> phase3_remove_array a = Inr (prune_array a)"
  "all_object resolved_node x \<Longrightarrow> phase3_remove_object x = Inr (prune_object x)"
  "all_concat resolved_node c \<Longrightarrow> phase3_remove_concat c = Inr (prune_concat c)"
proof (induction e and a and x and c rule: tree_induct)
  case (1 e)
  then show ?case by (cases e) auto
next
  case (3 a)
  then show ?case by (auto dest: array_function_all)
next
  case (6 f cs p)
  then have "map_res phase3_remove_concat cs = Inr (map prune_concat cs)"
    by (intro map_res_pure) auto
  then show ?case by (simp add: filter_map comp_def)
next
  case (7 ms p)
  then have "map_res (on_value phase3_remove_concat) ms = Inr (map (\<lambda>(k, c). (k, prune_concat c)) ms)"
    by (intro map_res_pure) (auto simp: on_value_def)
  then show ?case by (simp add: filter_map comp_def split_beta')
next
  case (8 h es)
  then have "map_res phase3_remove_entry es = Inr (map prune_entry es)"
    by (intro map_res_pure) auto
  then show ?case by simp
qed auto

lemma phase3_remove_object_iff:
  "phase3_remove_object x = Inr y \<longleftrightarrow> resolved_object x \<and> y = prune_object x"
proof
  assume "phase3_remove_object x = Inr y"
  moreover from this have "resolved_object x"
    using phase3_remove_ok(3) [of x] by (auto simp: is_ok_iff)
  ultimately show "resolved_object x \<and> y = prune_object x"
    by (simp add: phase3_remove_prune(3))
qed (simp add: phase3_remove_prune(3))

section \<open>Properties of what is left\<close>

text \<open>Nothing that is to be omitted is left, at any depth.\<close>

fun kept_node :: "node \<Rightarrow> bool" where
  "kept_node (Node_array a) \<longleftrightarrow> (\<forall>c \<in> set (array_list a). \<not> omit_from_final_result c)"
| "kept_node (Node_object x) \<longleftrightarrow> (\<forall>(k, c) \<in> set (object_map x). \<not> omit_from_final_result c)"
| "kept_node n \<longleftrightarrow> True"

lemma prune_kept:
  "all_entry resolved_node e \<Longrightarrow> all_entry kept_node (prune_entry e)"
  "all_array resolved_node a \<Longrightarrow> all_array kept_node (prune_array a)"
  "all_object resolved_node x \<Longrightarrow> all_object kept_node (prune_object x)"
  "all_concat resolved_node c \<Longrightarrow> all_concat kept_node (prune_concat c)"
proof (induction e and a and x and c rule: tree_induct)
  case (1 e)
  then show ?case by (cases e) auto
qed fastforce+

lemma prune_resolved:
  "all_entry resolved_node e \<Longrightarrow> all_entry resolved_node (prune_entry e)"
  "all_array resolved_node a \<Longrightarrow> all_array resolved_node (prune_array a)"
  "all_object resolved_node x \<Longrightarrow> all_object resolved_node (prune_object x)"
  "all_concat resolved_node c \<Longrightarrow> all_concat resolved_node (prune_concat c)"
proof (induction e and a and x and c rule: tree_induct)
  case (1 e)
  then show ?case by (cases e) auto
qed fastforce+

lemma prune_wf:
  "wf_entry e \<Longrightarrow> wf_entry (prune_entry e)"
  "wf_array a \<Longrightarrow> wf_array (prune_array a)"
  "wf_object x \<Longrightarrow> wf_object (prune_object x)"
  "wf_concat c \<Longrightarrow> wf_concat (prune_concat c)"
proof (induction e and a and x and c rule: tree_induct)
  case (1 e)
  then show ?case by (cases e) auto
next
  case (7 ms p)
  let ?kept = "filter (\<lambda>m. \<not> omit_from_final_result (snd m)) ms"
  have "map fst (map (\<lambda>(k, c). (k, prune_concat c)) ?kept) = map fst ?kept"
    by (induction ms) auto
  moreover have "om_inv ?kept" using 7(2) by (auto intro: om_inv_filter)
  ultimately have "om_inv (map (\<lambda>(k, c). (k, prune_concat c)) ?kept)"
    using om_inv_same_keys by blast
  with 7 show ?case by auto
qed fastforce+

lemma filter_True: "(\<And>x. x \<in> set xs \<Longrightarrow> P x) \<Longrightarrow> filter P xs = xs"
  by (induction xs) auto

lemma prune_id:
  "all_entry kept_node e \<Longrightarrow> prune_entry e = e"
  "all_array kept_node a \<Longrightarrow> prune_array a = a"
  "all_object kept_node x \<Longrightarrow> prune_object x = x"
  "all_concat kept_node c \<Longrightarrow> prune_concat c = c"
proof (induction e and a and x and c rule: tree_induct)
  case (1 e)
  then show ?case by (cases e) auto
next
  case (6 f cs p)
  then show ?case by (auto intro!: map_idI simp: filter_True)
next
  case (7 ms p)
  have "filter (\<lambda>m. \<not> omit_from_final_result (snd m)) ms = ms" using 7(2) by (intro filter_True) auto
  with 7 show ?case by (auto intro!: map_idI)
next
  case (8 h es)
  then show ?case by (auto intro!: map_idI)
qed auto

lemma phase3_remove_idem:
  "phase3_remove_object x = Inr y \<Longrightarrow> phase3_remove_object y = Inr y"
  by (auto simp: phase3_remove_object_iff prune_resolved prune_id(3) prune_kept)

lemma om_find_prune:
  assumes "om_inv (object_map x)"
  shows "om_find k (object_map (prune_object x)) =
    (case om_find k (object_map x) of
       None \<Rightarrow> None
     | Some c \<Rightarrow> if omit_from_final_result c then None else Some (prune_concat c))"
proof -
  obtain ms p where x: "x = Object ms p" by (cases x)
  have "om_find k (map (\<lambda>(k, c). (k, prune_concat c)) (filter (\<lambda>m. \<not> omit_from_final_result (snd m)) ms)) =
    (case om_find k ms of
       None \<Rightarrow> None
     | Some c \<Rightarrow> if omit_from_final_result c then None else Some (prune_concat c))"
    using assms unfolding x
  proof (induction ms)
    case (Cons q ms)
    obtain a b where q: "q = (a, b)" by (cases q)
    have "k = a \<Longrightarrow> om_find k ms = None"
      using Cons.prems q by (cases "om_find k ms") (fastforce dest: om_find_in)+
    with Cons q show ?case by auto
  qed simp
  with x show ?thesis by simp
qed

section \<open>Properties\<close>

text \<open>C29: Phase three succeeds exactly on representations without function calls, asterisks
  and references (at any depth, temporary parts included), and then its result is the
  reference definition \<open>prune_object\<close>.\<close>

theorem phase3_result:
  "phase3_remove_object x = Inr y \<longleftrightarrow> resolved_object x \<and> y = prune_object x"
  by (rule phase3_remove_object_iff)

text \<open>A member of the root is in the result of phase three exactly when it is neither
  implicit nor temporary nor empty, and then it is the pruned member.\<close>

theorem phase3_members:
  "wf_object x \<Longrightarrow> phase3_remove_object x = Inr y \<Longrightarrow>
     om_find k (object_map y) =
       (case om_find k (object_map x) of
          None \<Rightarrow> None
        | Some c \<Rightarrow> if implicit (head c) \<or> temporary (head c) \<or> concat_list c = [] then None
                     else Some (prune_concat c))"
proof -
  assume wf: "wf_object x" and "phase3_remove_object x = Inr y"
  then have "y = prune_object x" by (simp add: phase3_remove_object_iff)
  moreover have "om_inv (object_map x)" using wf by (cases x) simp
  ultimately show ?thesis by (simp add: om_find_prune omit_from_final_result_def split: option.splits)
qed

abbreviation example_object :: object where
  "example_object \<equiv> Object
     [(''a'', Concat (head (concat_init no_position)) [NULL no_position]),
      (''b'', Concat ((head (concat_init no_position))\<lparr>temporary := True\<rparr>) [NULL no_position])]
     no_position"

lemma example_removed:
  "phase3_remove_object example_object =
     Inr (Object [(''a'', Concat (head (concat_init no_position)) [NULL no_position])] no_position)"
  by code_simp

lemma example_wf: "wf_object example_object"
  by (simp add: om_inv_def)

theorem phase3_members_witness:
  "om_find ''b'' (object_map (Object
     [(''a'', Concat (head (concat_init no_position)) [NULL no_position])] no_position)) = None"
  using phase3_members [OF example_wf example_removed, of "''b''"] by simp

text \<open>After phase three nothing that is to be omitted is left at any depth, the maps are
  still maps, and running it again changes nothing.\<close>

theorem phase3_complete:
  "wf_object x \<Longrightarrow> phase3_remove_object x = Inr y \<Longrightarrow>
     all_object kept_node y \<and> wf_object y \<and> phase3_remove_object y = Inr y"
  using phase3_remove_idem [of x y]
  by (auto simp: phase3_remove_object_iff prune_wf prune_kept)

theorem phase3_complete_witness:
  "all_object kept_node
     (Object [(''a'', Concat (head (concat_init no_position)) [NULL no_position])] no_position)"
  using phase3_complete [OF example_wf example_removed] by blast

end
