(* ===== verification/Config_Additions.thy ===== *)
theory Config_Additions
  imports Config_Remove "HOL-Library.Sublist"
begin

text \<open>
  The additions of phase two, \<open>phase2_additions.hpp\<close>: neighbouring entries of a concat are
  added from left to right, where both are values. The addition of doubles is the parameter
  \<open>fadd\<close>. An overflow of \<open>std::int64_t\<close> is undefined behaviour, an error of the model;
  the conversion from \<open>std::uint64_t\<close> keeps the bits.
\<close>

definition ignore_entry :: "entry \<Rightarrow> bool" where
  "ignore_entry e =
     (if kind e = KIND_ASTERISK \<or> kind e = KIND_REFERENCE then True
      else (case e of ARRAY a \<Rightarrow> array_function a \<noteq> [] | _ \<Rightarrow> False))"

definition throw_type_error :: "entry \<Rightarrow> entry \<Rightarrow> error + 'a" where
  "throw_type_error l r =
     Inl (Addition_error (kind l) (entry_position l) (kind r) (entry_position r))"

definition throw_type_error_if :: "entry \<Rightarrow> entry \<Rightarrow> entry_kind \<Rightarrow> error + bool" where
  "throw_type_error_if l r k =
     (if ignore_entry l then Inr False
      else if ignore_entry r then Inr False
      else if kind l = k then Inr True
      else throw_type_error l r)"

definition add_signed :: "i64 \<Rightarrow> i64 \<Rightarrow> error + i64" where
  "add_signed a b =
     (if sint a + sint b < - (2 ^ 63) \<or> sint a + sint b \<ge> 2 ^ 63
      then Inl (Undefined_behaviour ''signed overflow'') else Inr (a + b))"

section \<open>Two objects\<close>

definition merge_member :: "string \<times> concat \<Rightarrow> (string, concat) omap \<Rightarrow> (string, concat) omap" where
  "merge_member m r =
     (case try_emplace (fst m) (snd m) r of
        (r', c, inserted) \<Rightarrow>
          if inserted then r'
          else if remove (head c) then r'
          else
            (let h = head c;
                 h1 = (if remove (head (snd m)) then h\<lparr>remove := True\<rparr> else h);
                 h2 = (if temporary (head (snd m)) then h1\<lparr>temporary := True\<rparr> else h1)
             in om_put (fst m) (Concat h2 (concat_list (snd m) @ concat_list c)) r'))"

definition process_object :: "object \<Rightarrow> object \<Rightarrow> object" where
  "process_object l r = Object (fold merge_member (object_map l) (object_map r)) (object_position r)"

section \<open>Two entries\<close>

text \<open>
  The body of the loop in \<open>process_concat\<close>: \<open>None\<close> for \<open>continue\<close>, otherwise the new
  value of the right entry, with the left entry to be erased.
\<close>

definition add_numbers :: "entry \<Rightarrow> entry \<Rightarrow> error + entry option" where
  "add_numbers l r =
     (if ignore_entry l \<or> ignore_entry r then Inr None
      else
        (case (r, l) of
           (SIGNED b q, SIGNED a p) \<Rightarrow> rbind (add_signed b a) (\<lambda>s. Inr (Some (SIGNED s q)))
         | (SIGNED b q, UNSIGNED a p) \<Rightarrow> rbind (add_signed b a) (\<lambda>s. Inr (Some (SIGNED s q)))
         | (UNSIGNED b q, UNSIGNED a p) \<Rightarrow> Inr (Some (UNSIGNED (b + a) q))
         | (UNSIGNED b q, SIGNED a p) \<Rightarrow> rbind (add_signed a b) (\<lambda>s. Inr (Some (SIGNED s p)))
         | _ \<Rightarrow> throw_type_error l r))"

definition add_same :: "entry \<Rightarrow> entry \<Rightarrow> entry \<Rightarrow> error + entry option" where
  "add_same l r result =
     rbind (throw_type_error_if l r (kind r)) (\<lambda>b. Inr (if b then Some result else None))"

definition get_double :: "entry \<Rightarrow> double" where
  "get_double e = (case e of DOUBLE d p \<Rightarrow> d | _ \<Rightarrow> 0)"

definition get_string :: "entry \<Rightarrow> string" where
  "get_string e = (case e of STRING s p \<Rightarrow> s | _ \<Rightarrow> [])"

definition get_binary :: "entry \<Rightarrow> byte list" where
  "get_binary e = (case e of BINARY b p \<Rightarrow> b | _ \<Rightarrow> [])"

definition get_array :: "entry \<Rightarrow> array" where
  "get_array e = (case e of ARRAY a \<Rightarrow> a | _ \<Rightarrow> Array [] [] no_position)"

definition get_object :: "entry \<Rightarrow> object" where
  "get_object e = (case e of OBJECT x \<Rightarrow> x | _ \<Rightarrow> Object [] no_position)"

definition add_pair :: "(double \<Rightarrow> double \<Rightarrow> double) \<Rightarrow> entry \<Rightarrow> entry \<Rightarrow> error + entry option" where
  "add_pair fadd l r =
     (case r of
        NULL p \<Rightarrow> throw_type_error l r
      | BOOLEAN b p \<Rightarrow> throw_type_error l r
      | SIGNED b p \<Rightarrow> add_numbers l r
      | UNSIGNED b p \<Rightarrow> add_numbers l r
      | DOUBLE d p \<Rightarrow> add_same l r (DOUBLE (fadd d (get_double l)) p)
      | STRING s p \<Rightarrow> add_same l r (STRING (get_string l @ s) p)
      | BINARY b p \<Rightarrow> add_same l r (BINARY (get_binary l @ b) p)
      | ARRAY (Array f cs p) \<Rightarrow> add_same l r (ARRAY (Array f (array_list (get_array l) @ cs) p))
      | OBJECT x \<Rightarrow> add_same l r (OBJECT (process_object (get_object l) x))
      | ASTERISK c \<Rightarrow> Inr None
      | REFERENCE p \<Rightarrow> Inr None)"

section \<open>The pass\<close>

text \<open>The loop, with \<open>l\<close> before the iterator and the rest behind it.\<close>

fun add_loop ::
  "(double \<Rightarrow> double \<Rightarrow> double) \<Rightarrow> entry \<Rightarrow> entry list \<Rightarrow> error + (entry list \<times> nat)" where
  "add_loop fadd l [] = Inr ([l], 0)"
| "add_loop fadd l (r # rest) =
     rbind (add_pair fadd l r) (\<lambda>m.
       case m of
         None \<Rightarrow> rbind (add_loop fadd r rest) (\<lambda>(es, n). Inr (l # es, n))
       | Some s \<Rightarrow> rbind (add_loop fadd s rest) (\<lambda>(es, n). Inr (es, n + 1)))"

fun additions_concat :: "(double \<Rightarrow> double \<Rightarrow> double) \<Rightarrow> concat \<Rightarrow> error + (concat \<times> nat)"
  and additions_entry :: "(double \<Rightarrow> double \<Rightarrow> double) \<Rightarrow> entry \<Rightarrow> error + (entry \<times> nat)"
  and additions_array :: "(double \<Rightarrow> double \<Rightarrow> double) \<Rightarrow> array \<Rightarrow> error + (array \<times> nat)"
  and additions_object :: "(double \<Rightarrow> double \<Rightarrow> double) \<Rightarrow> object \<Rightarrow> error + (object \<times> nat)" where
  "additions_concat fadd (Concat h es) =
     rbind (map_chg (additions_entry fadd) es) (\<lambda>(es', n).
       case es' of
         [] \<Rightarrow> Inr (Concat h [], n)
       | l # rest \<Rightarrow> rbind (add_loop fadd l rest) (\<lambda>(fs, k). Inr (Concat h fs, n + k)))"
| "additions_entry fadd (ARRAY a) = rbind (additions_array fadd a) (\<lambda>(b, n). Inr (ARRAY b, n))"
| "additions_entry fadd (OBJECT x) = rbind (additions_object fadd x) (\<lambda>(y, n). Inr (OBJECT y, n))"
| "additions_entry fadd (ASTERISK c) = rbind (additions_concat fadd c) (\<lambda>(d, n). Inr (ASTERISK d, n))"
| "additions_entry fadd e = Inr (e, 0)"
| "additions_array fadd (Array f cs p) =
     rbind (map_chg (additions_concat fadd) cs) (\<lambda>(ds, n). Inr (Array f ds p, n))"
| "additions_object fadd (Object ms p) =
     rbind (map_chg (on_value_chg (additions_concat fadd)) ms) (\<lambda>(ns, n). Inr (Object ns p, n))"

definition phase2_additions :: "(double \<Rightarrow> double \<Rightarrow> double) \<Rightarrow> object \<Rightarrow> error + (object \<times> nat)" where
  "phase2_additions fadd x = additions_object fadd x"

section \<open>One addition\<close>

lemma ignore_entry_simps [simp]:
  "\<not> ignore_entry (NULL p)" "\<not> ignore_entry (BOOLEAN b p)" "\<not> ignore_entry (STRING s p)"
  "\<not> ignore_entry (BINARY y p)" "\<not> ignore_entry (SIGNED i p)" "\<not> ignore_entry (UNSIGNED u p)"
  "\<not> ignore_entry (DOUBLE d p)" "\<not> ignore_entry (OBJECT x)" "ignore_entry (ASTERISK c)"
  "ignore_entry (REFERENCE r)" "ignore_entry (ARRAY a) \<longleftrightarrow> array_function a \<noteq> []"
  by (simp_all add: ignore_entry_def)

lemma add_same_cases:
  "add_same l r s = Inr None \<longleftrightarrow> ignore_entry l \<or> ignore_entry r"
  "add_same l r s = Inr (Some t) \<longleftrightarrow>
     \<not> ignore_entry l \<and> \<not> ignore_entry r \<and> kind l = kind r \<and> t = s"
  by (auto simp: add_same_def throw_type_error_if_def throw_type_error_def)

lemma add_numbers_None:
  "add_numbers l r = Inr None \<longleftrightarrow> ignore_entry l \<or> ignore_entry r"
  by (cases r; cases l) (auto simp: add_numbers_def throw_type_error_def add_signed_def)

lemma add_pair_None:
  "add_pair fadd l r = Inr None \<longleftrightarrow>
     kind r \<notin> {KIND_NULL, KIND_BOOLEAN} \<and> (ignore_entry l \<or> ignore_entry r)"
  by (cases r) (auto simp: add_pair_def add_same_cases add_numbers_None throw_type_error_def
      split: array.split)

lemma add_numbers_Some:
  "add_numbers l r = Inr (Some s) \<Longrightarrow>
     (kind l = KIND_SIGNED \<or> kind l = KIND_UNSIGNED) \<and> (kind r = KIND_SIGNED \<or> kind r = KIND_UNSIGNED) \<and>
     kind s = (if kind l = KIND_UNSIGNED \<and> kind r = KIND_UNSIGNED then KIND_UNSIGNED else KIND_SIGNED)"
  by (cases r; cases l)
    (auto simp: add_numbers_def throw_type_error_def res_simps split: if_splits)

lemma add_pair_kinds:
  "add_pair fadd l r = Inr (Some s) \<Longrightarrow>
     kind s = kind r \<and> kind l = kind r \<or>
     {kind l, kind r} \<subseteq> {KIND_SIGNED, KIND_UNSIGNED} \<and> kind s = KIND_SIGNED"
  by (cases r)
    (auto simp: add_pair_def add_same_cases throw_type_error_def dest!: add_numbers_Some
      split: array.splits if_splits)

text \<open>What is added, by the kind of the right entry.\<close>

lemma add_pair_Some_cases:
  assumes "add_pair fadd l r = Inr (Some s)"
  obtains (atoms) "atomic l" "atomic r" "atomic s"
  | (arrays) cs ds p q where "l = ARRAY (Array [] cs p)" "r = ARRAY (Array [] ds q)"
      "s = ARRAY (Array [] (cs @ ds) q)"
  | (objects) x y where "l = OBJECT x" "r = OBJECT y" "s = OBJECT (process_object x y)"
proof (cases "kind r")
  case KIND_ARRAY
  then obtain a where r: "r = ARRAY a" by auto
  with assms obtain b where "l = ARRAY b" "array_function a = []" "array_function b = []"
    by (cases a) (auto simp: add_pair_def add_same_cases)
  with r assms show thesis
    by (cases a; cases b) (auto simp: add_pair_def add_same_cases get_array_def intro: arrays)
next
  case KIND_OBJECT
  then obtain x where r: "r = OBJECT x" by auto
  with assms obtain y where "l = OBJECT y" by (auto simp: add_pair_def add_same_cases)
  with r assms show thesis
    by (auto simp: add_pair_def add_same_cases get_object_def intro: objects)
qed (use assms add_pair_kinds [OF assms] in \<open>auto intro!: atoms simp: atomic_def add_pair_def
       throw_type_error_def split: entry.splits\<close>)

section \<open>Merging objects\<close>

definition merged_concat :: "concat \<Rightarrow> concat \<Rightarrow> concat" where
  "merged_concat m c =
     (if remove (head c) then c
      else Concat ((head c)\<lparr>remove := remove (head m), temporary := temporary (head m) \<or> temporary (head c)\<rparr>)
             (concat_list m @ concat_list c))"

lemma remove_unchanged [simp]: "\<not> remove h \<Longrightarrow> h\<lparr>remove := False\<rparr> = h"
  by (cases h) simp

lemma temporary_unchanged [simp]: "temporary h \<Longrightarrow> h\<lparr>temporary := True\<rparr> = h"
  by (cases h) simp

lemma remove_temporary_unchanged [simp]:
  "\<not> remove h \<Longrightarrow> h\<lparr>remove := False, temporary := b\<rparr> = h\<lparr>temporary := b\<rparr>"
  "temporary h = b \<Longrightarrow> h\<lparr>remove := b', temporary := b\<rparr> = h\<lparr>remove := b'\<rparr>"
  by (cases h; simp)+

lemma merge_member_put:
  "om_inv r \<Longrightarrow> merge_member (k, m) r =
     om_put k (case om_find k r of None \<Rightarrow> m | Some c \<Rightarrow> merged_concat m c) r"
  by (cases "om_find k r")
    (auto simp: merge_member_def try_emplace_def merged_concat_def Let_def om_put_same)

lemma om_inv_merge: "om_inv r \<Longrightarrow> om_inv (fold merge_member ms r)"
proof (induction ms arbitrary: r)
  case (Cons p ms)
  then show ?case by (cases p) (simp add: merge_member_put om_inv_put)
qed simp

lemma om_find_merge:
  assumes "om_inv r" "om_inv ms"
  shows "om_find k (fold merge_member ms r) =
    (case om_find k ms of
       None \<Rightarrow> om_find k r
     | Some m \<Rightarrow> Some (case om_find k r of None \<Rightarrow> m | Some c \<Rightarrow> merged_concat m c))"
  using assms
proof (induction ms arbitrary: r)
  case (Cons p ms)
  obtain a m where p: "p = (a, m)" by (cases p)
  have fresh: "om_find a ms = None"
    using Cons.prems(2) p by (cases "om_find a ms") (fastforce dest: om_find_in)+
  have "om_inv (merge_member p r)" using Cons.prems(1) p by (simp add: merge_member_put om_inv_put)
  with Cons p fresh show ?case
    by (auto simp: merge_member_put om_find_put split: option.splits)
qed simp

definition entries_all :: "(entry \<Rightarrow> bool) \<Rightarrow> (string \<times> concat) list \<Rightarrow> bool" where
  "entries_all Q ms \<longleftrightarrow> (\<forall>k c e. (k, c) \<in> set ms \<longrightarrow> e \<in> set (concat_list c) \<longrightarrow> Q e)"

lemma entries_all_simps [simp]:
  "entries_all Q []"
  "entries_all Q ((k, c) # ms) \<longleftrightarrow> (\<forall>e \<in> set (concat_list c). Q e) \<and> entries_all Q ms"
  by (auto simp: entries_all_def)

lemma entries_all_find:
  "entries_all Q ms \<Longrightarrow> om_find k ms = Some c \<Longrightarrow> \<forall>e \<in> set (concat_list c). Q e"
  by (auto simp: entries_all_def dest: om_find_in)

lemma entries_all_put:
  "entries_all Q ms \<Longrightarrow> \<forall>e \<in> set (concat_list c). Q e \<Longrightarrow> entries_all Q (om_put k c ms)"
  using set_om_put [of k c ms] unfolding entries_all_def by blast

lemma entries_all_merge_member:
  assumes "om_inv r" "entries_all Q r" "\<forall>e \<in> set (concat_list m). Q e"
  shows "entries_all Q (merge_member (k, m) r)"
proof (cases "om_find k r")
  case None
  then show ?thesis using entries_all_put [OF assms(2,3)] by (simp add: merge_member_put [OF assms(1)])
next
  case (Some d)
  have "\<forall>e \<in> set (concat_list (merged_concat m d)). Q e"
    using assms(3) entries_all_find [OF assms(2) Some] by (auto simp: merged_concat_def)
  with Some entries_all_put [OF assms(2)] show ?thesis by (simp add: merge_member_put [OF assms(1)])
qed

lemma entries_all_merge:
  "om_inv r \<Longrightarrow> entries_all Q r \<Longrightarrow> entries_all Q ms \<Longrightarrow> entries_all Q (fold merge_member ms r)"
proof (induction ms arbitrary: r)
  case (Cons p ms)
  obtain k m where p: "p = (k, m)" by (cases p)
  have "om_inv (merge_member p r)" using Cons.prems(1) p by (simp add: merge_member_put om_inv_put)
  moreover have "entries_all Q (merge_member p r)"
    unfolding p by (rule entries_all_merge_member) (use Cons.prems p in simp_all)
  ultimately show ?case using Cons p by simp
qed simp

text \<open>Merging moves entries or drops them; so for a weight of entries:\<close>

abbreviation members_weight :: "(entry \<Rightarrow> nat) \<Rightarrow> (string \<times> concat) list \<Rightarrow> nat" where
  "members_weight v ms \<equiv> \<Sum>(k, c) \<leftarrow> ms. \<Sum>e \<leftarrow> concat_list c. v e"

lemma members_weight_put:
  assumes "om_inv r"
  shows "members_weight v (om_put k c r) + (case om_find k r of None \<Rightarrow> 0 | Some d \<Rightarrow> \<Sum>e \<leftarrow> concat_list d. v e)
    = members_weight v r + (\<Sum>e \<leftarrow> concat_list c. v e)"
proof (cases "om_find k r")
  case None
  then have "k \<notin> fst ` set r" by (auto simp: om_find_def map_of_eq_None_iff)
  then have "members_weight v (om_put k c r) = members_weight v r + (\<Sum>e \<leftarrow> concat_list c. v e)"
    by (induction k c r rule: om_put.induct) auto
  with None show ?thesis by simp
next
  case (Some d)
  then obtain xs ys where "r = xs @ (k, d) # ys" "om_put k c r = xs @ (k, c) # ys"
    using om_put_split [OF assms] by metis
  with Some show ?thesis by simp
qed

lemma members_weight_merge:
  assumes "om_inv r"
  shows "members_weight v (fold merge_member ms r) \<le> members_weight v ms + members_weight v r"
  using assms
proof (induction ms arbitrary: r)
  case (Cons p ms)
  obtain k m where p: "p = (k, m)" by (cases p)
  let ?c = "case om_find k r of None \<Rightarrow> m | Some c \<Rightarrow> merged_concat m c"
  have "(\<Sum>e \<leftarrow> concat_list ?c. v e) \<le> (\<Sum>e \<leftarrow> concat_list m. v e) +
      (case om_find k r of None \<Rightarrow> 0 | Some d \<Rightarrow> \<Sum>e \<leftarrow> concat_list d. v e)"
    by (auto simp: merged_concat_def split: option.split)
  then have "members_weight v (merge_member p r) \<le> members_weight v r + (\<Sum>e \<leftarrow> concat_list m. v e)"
    using members_weight_put [OF Cons.prems, of v k ?c] p
    by (simp add: merge_member_put [OF Cons.prems])
  moreover have "om_inv (merge_member p r)"
    using Cons.prems p by (simp add: merge_member_put om_inv_put)
  ultimately show ?case using Cons.IH [of "merge_member p r"] p by simp
qed simp

lemma wf_object_entries: "wf_object (Object ms p) \<longleftrightarrow> om_inv ms \<and> entries_all wf_entry ms"
proof -
  have "(\<forall>(k, c) \<in> set ms. wf_concat c) = entries_all wf_entry ms"
    by (induction ms) (auto simp: wf_concat_iff)
  then show ?thesis by simp
qed

lemma process_object_wf:
  assumes "wf_object x" "wf_object y"
  shows "wf_object (process_object x y)"
proof -
  obtain ms p ns q where "x = Object ms p" "y = Object ns q" by (cases x; cases y)
  with assms show ?thesis
    using om_inv_merge [of ns ms] entries_all_merge [of ns wf_entry ms]
    by (simp add: process_object_def wf_object_entries del: all_object.simps)
qed

section \<open>The loop\<close>

lemma add_loop_induct [consumes 1, case_names stop skip add]:
  assumes "add_loop fadd l es = Inr (fs, n)"
    and "\<And>l. P l [] [l] 0"
    and "\<And>l r rest fs n. add_pair fadd l r = Inr None \<Longrightarrow> P r rest fs n \<Longrightarrow> P l (r # rest) (l # fs) n"
    and "\<And>l r s rest fs n. add_pair fadd l r = Inr (Some s) \<Longrightarrow> P s rest fs n \<Longrightarrow>
           P l (r # rest) fs (n + 1)"
  shows "P l es fs n"
  using assms(1)
proof (induction es arbitrary: l fs n)
  case Nil
  then show ?case using assms(2) by (cases fs) auto
next
  case (Cons r rest)
  obtain m where m: "add_pair fadd l r = Inr m" using Cons.prems by (auto simp: res_simps)
  show ?case
  proof (cases m)
    case None
    with m Cons.prems obtain gs where "add_loop fadd r rest = Inr (gs, n)" "fs = l # gs"
      by (auto simp: res_simps)
    with Cons.IH m None assms(3) show ?thesis by blast
  next
    case (Some s)
    with m Cons.prems obtain j where "add_loop fadd s rest = Inr (fs, j)" "n = j + 1"
      by (auto simp: res_simps)
    with Cons.IH m Some assms(4) show ?thesis by blast
  qed
qed

lemma add_loop_nonempty: "add_loop fadd l es = Inr (fs, n) \<Longrightarrow> fs \<noteq> []"
  by (induction rule: add_loop_induct) auto

lemma additions_concat_Inr:
  "additions_concat fadd (Concat h es) = Inr (d, n) \<longleftrightarrow>
     (\<exists>es' m. map_chg (additions_entry fadd) es = Inr (es', m) \<and>
        (case es' of
           [] \<Rightarrow> d = Concat h [] \<and> n = m
         | l # rest \<Rightarrow> \<exists>fs k. add_loop fadd l rest = Inr (fs, k) \<and> d = Concat h fs \<and> n = m + k))"
proof (cases "map_chg (additions_entry fadd) es")
  case (Inr p)
  then show ?thesis by (cases p) (auto simp: res_simps split: list.splits)
qed simp

section \<open>What the pass counts\<close>

text \<open>
  The contract of a weight of entries that an addition cannot increase: the weight of an
  entry depends on its kind only, unless it is an asterisk, whose weight additions inside of
  it do not increase; it is \<open>k\<close> for the entries that can be added, and there is no weight
  outside of entries but that of function calls.
\<close>

locale entry_weight =
  fixes fadd :: "double \<Rightarrow> double \<Rightarrow> double" and w :: "node \<Rightarrow> nat" and k :: nat
  assumes by_kind: "kind e = kind e' \<Longrightarrow> kind e \<noteq> KIND_ASTERISK \<Longrightarrow> w (Node_entry e) = w (Node_entry e')"
    and asterisk: "additions_concat fadd c = Inr (d, n) \<Longrightarrow> wf_concat c \<Longrightarrow>
      w (Node_entry (ASTERISK d)) \<le> w (Node_entry (ASTERISK c))"
    and addable: "kind e \<notin> {KIND_ASTERISK, KIND_REFERENCE} \<Longrightarrow> w (Node_entry e) = k"
    and at_concat: "w (Node_concat c) = 0"
    and at_object: "w (Node_object x) = 0"
    and at_array: "w (Node_array (Array f cs p)) = w (Node_array (Array f ds q))"
    and plain_array: "w (Node_array (Array [] cs p)) = 0"
begin

lemma count_concat_list: "count_concat w c = (\<Sum>e \<leftarrow> concat_list c. count_entry w e)"
  by (cases c) (simp add: at_concat)

lemma count_object_members:
  "count_object w x = members_weight (count_entry w) (object_map x)"
proof -
  obtain ms p where "x = Object ms p" by (cases x)
  moreover have "(\<Sum>(k, c) \<leftarrow> ms. count_concat w c) = members_weight (count_entry w) ms"
    by (induction ms) (auto simp: count_concat_list)
  ultimately show ?thesis by (simp add: at_object)
qed

lemma count_process_object:
  assumes "wf_object y"
  shows "count_object w (process_object x y) \<le> count_object w x + count_object w y"
proof -
  have "om_inv (object_map y)" using assms by (cases y) simp
  then show ?thesis
    using members_weight_merge [of "object_map y" "count_entry w" "object_map x"]
    by (simp add: count_object_members process_object_def del: count_object.simps)
qed

lemma count_add_pair:
  assumes "add_pair fadd l r = Inr (Some s)" "wf_entry r"
  shows "count_entry w s + k \<le> count_entry w l + count_entry w r"
  using assms(1)
proof (cases rule: add_pair_Some_cases)
  case atoms
  have "w (Node_entry e) = k" if "atomic e" for e
    using that by (intro addable) (auto simp: atomic_def)
  with atoms show ?thesis by simp
next
  case (arrays cs ds p q)
  then show ?thesis using addable [of "ARRAY a" for a] by (simp add: plain_array)
next
  case (objects x y)
  then show ?thesis using count_process_object [of y x] assms(2) addable [of "OBJECT a" for a] by simp
qed

end

interpretation w_function_entry: entry_weight fadd w_function 0 for fadd
  by unfold_locales auto

interpretation w_asterisk_entry: entry_weight fadd w_asterisk 0 for fadd
proof unfold_locales
  fix e e' :: entry
  show "kind e = kind e' \<Longrightarrow> kind e \<noteq> KIND_ASTERISK \<Longrightarrow> w_asterisk (Node_entry e) = w_asterisk (Node_entry e')"
    by (cases e; cases e') auto
  show "kind e \<notin> {KIND_ASTERISK, KIND_REFERENCE} \<Longrightarrow> w_asterisk (Node_entry e) = 0"
    by (cases e) auto
qed auto

interpretation w_reference_entry: entry_weight fadd w_reference 0 for fadd
proof unfold_locales
  fix e e' :: entry
  show "kind e = kind e' \<Longrightarrow> kind e \<noteq> KIND_ASTERISK \<Longrightarrow> w_reference (Node_entry e) = w_reference (Node_entry e')"
    by (cases e; cases e') auto
  show "kind e \<notin> {KIND_ASTERISK, KIND_REFERENCE} \<Longrightarrow> w_reference (Node_entry e) = 0"
    by (cases e) auto
qed auto

text \<open>All entries.\<close>

fun w_entry :: "node \<Rightarrow> nat" where
  "w_entry (Node_entry e) = 1"
| "w_entry n = 0"

interpretation w_entry_entry: entry_weight fadd w_entry 1 for fadd
  by unfold_locales auto

section \<open>The pass keeps the maps sorted\<close>

lemma add_pair_wf:
  assumes "add_pair fadd l r = Inr (Some s)" "wf_entry l" "wf_entry r"
  shows "wf_entry s"
  using assms(1)
proof (cases rule: add_pair_Some_cases)
  case (objects x y)
  then show ?thesis using process_object_wf assms(2,3) by simp
qed (use assms(2,3) in auto)

lemma add_loop_wf:
  "add_loop fadd l es = Inr (fs, n) \<Longrightarrow> wf_entry l \<Longrightarrow> \<forall>e \<in> set es. wf_entry e \<Longrightarrow>
     \<forall>e \<in> set fs. wf_entry e"
  by (induction rule: add_loop_induct) (auto intro: add_pair_wf)

lemma additions_wf:
  "additions_entry fadd e = Inr (e', n) \<Longrightarrow> wf_entry e \<Longrightarrow> wf_entry e'"
  "additions_array fadd a = Inr (a', n) \<Longrightarrow> wf_array a \<Longrightarrow> wf_array a'"
  "additions_object fadd x = Inr (x', n) \<Longrightarrow> wf_object x \<Longrightarrow> wf_object x'"
  "additions_concat fadd c = Inr (c', n) \<Longrightarrow> wf_concat c \<Longrightarrow> wf_concat c'"
proof (induction e and a and x and c arbitrary: e' n and a' n and x' n and c' n rule: tree_induct)
  case (1 e)
  then show ?case by (cases e) auto
next
  case (6 f cs p)
  then obtain ds where a': "a' = Array f ds p" "map_chg (additions_concat fadd) cs = Inr (ds, n)"
    by (auto simp: res_simps)
  from map_chg_list_all2 [OF a'(2)] have "\<forall>d \<in> set ds. wf_concat d"
    using 6(1,3) by (auto simp: list_all2_conv_all_nth in_set_conv_nth) blast
  with a' show ?case by simp
next
  case (7 ms p)
  then obtain ns where x': "x' = Object ns p"
    "map_chg (on_value_chg (additions_concat fadd)) ms = Inr (ns, n)"
    by (auto simp: res_simps)
  have "om_inv ns" using map_chg_on_value_keys [OF x'(2)] 7(3) om_inv_same_keys by auto
  moreover have "wf_concat d" if "(k, d) \<in> set ns" for k d
    using map_chg_on_value_in [OF x'(2) that] 7(1,3) by fastforce
  ultimately show ?case using x' by auto
next
  case (8 h es)
  then obtain es' m where es': "map_chg (additions_entry fadd) es = Inr (es', m)"
    "case es' of
           [] \<Rightarrow> c' = Concat h [] \<and> n = m
         | l # rest \<Rightarrow> \<exists>fs k. add_loop fadd l rest = Inr (fs, k) \<and> c' = Concat h fs \<and> n = m + k"
    using additions_concat_Inr [of fadd h es c' n] by blast
  from map_chg_list_all2 [OF es'(1)] have "\<forall>e \<in> set es'. wf_entry e"
    using 8(1,3) by (auto simp: list_all2_conv_all_nth in_set_conv_nth) blast
  with es'(2) show ?case by (auto split: list.splits dest: add_loop_wf)
qed (auto simp: res_simps)

section \<open>The pass decreases the weights\<close>

context entry_weight begin

lemma count_add_loop:
  "add_loop fadd l es = Inr (fs, n) \<Longrightarrow> wf_entry l \<Longrightarrow> \<forall>e \<in> set es. wf_entry e \<Longrightarrow>
     (\<Sum>e \<leftarrow> fs. count_entry w e) + n * k \<le> count_entry w l + (\<Sum>e \<leftarrow> es. count_entry w e)"
proof (induction rule: add_loop_induct)
  case (add l r s rest fs n)
  have "wf_entry s" using add_pair_wf add by auto
  moreover have "count_entry w s + k \<le> count_entry w l + count_entry w r"
    using count_add_pair [OF add(1)] add by simp
  ultimately show ?case using add by simp
qed auto

lemma additions_count:
  "additions_entry fadd e = Inr (e', n) \<Longrightarrow> wf_entry e \<Longrightarrow> count_entry w e' + n * k \<le> count_entry w e"
  "additions_array fadd a = Inr (a', n) \<Longrightarrow> wf_array a \<Longrightarrow> count_array w a' + n * k \<le> count_array w a"
  "additions_object fadd x = Inr (x', n) \<Longrightarrow> wf_object x \<Longrightarrow>
     count_object w x' + n * k \<le> count_object w x"
  "additions_concat fadd c = Inr (c', n) \<Longrightarrow> wf_concat c \<Longrightarrow>
     count_concat w c' + n * k \<le> count_concat w c"
proof (induction e and a and x and c arbitrary: e' n and a' n and x' n and c' n rule: tree_induct)
  case (1 e)
  then show ?case by (cases e) auto
next
  case (3 a)
  then obtain b where "e' = ARRAY b" "additions_array fadd a = Inr (b, n)" by (auto simp: res_simps)
  with 3 by_kind [of "ARRAY b" "ARRAY a"] show ?case by auto
next
  case (4 x)
  then obtain y where "e' = OBJECT y" "additions_object fadd x = Inr (y, n)" by (auto simp: res_simps)
  with 4 by_kind [of "OBJECT y" "OBJECT x"] show ?case by auto
next
  case (5 c)
  then obtain d where "e' = ASTERISK d" "additions_concat fadd c = Inr (d, n)" by (auto simp: res_simps)
  with 5 asterisk [of c d n] show ?case by auto
next
  case (6 f cs p)
  then obtain ds where a': "a' = Array f ds p" "map_chg (additions_concat fadd) cs = Inr (ds, n)"
    by (auto simp: res_simps)
  have "(\<Sum>c \<leftarrow> ds. count_concat w c) + n * k \<le> (\<Sum>c \<leftarrow> cs. count_concat w c)"
    by (rule map_chg_sum [OF a'(2)]) (use 6(1,3) in auto)
  with a' at_array [of f ds p cs p] show ?case by simp
next
  case (7 ms p)
  then obtain ns where x': "x' = Object ns p"
    "map_chg (on_value_chg (additions_concat fadd)) ms = Inr (ns, n)"
    by (auto simp: res_simps)
  have "(\<Sum>(k, c) \<leftarrow> ns. count_concat w c) + n * k \<le> (\<Sum>(k, c) \<leftarrow> ms. count_concat w c)"
    by (rule map_chg_sum [OF x'(2)]) (use 7(1,3) in \<open>fastforce simp: res_simps\<close>)
  with x' show ?case by (simp add: at_object)
next
  case (8 h es)
  then obtain es' m where es': "map_chg (additions_entry fadd) es = Inr (es', m)"
    "case es' of
           [] \<Rightarrow> c' = Concat h [] \<and> n = m
         | l # rest \<Rightarrow> \<exists>fs k. add_loop fadd l rest = Inr (fs, k) \<and> c' = Concat h fs \<and> n = m + k"
    using additions_concat_Inr [of fadd h es c' n] by blast
  have sum: "(\<Sum>e \<leftarrow> es'. count_entry w e) + m * k \<le> (\<Sum>e \<leftarrow> es. count_entry w e)"
    by (rule map_chg_sum [OF es'(1)]) (use 8(1,3) in auto)
  have wf: "\<forall>e \<in> set es'. wf_entry e"
  proof
    fix e' assume "e' \<in> set es'"
    then obtain e m where "e \<in> set es" "additions_entry fadd e = Inr (e', m)"
      using map_chg_list_all2 [OF es'(1)] by (fastforce simp: list_all2_conv_all_nth in_set_conv_nth)
    then show "wf_entry e'" using additions_wf(1) 8(3) by auto
  qed
  show ?case
  proof (cases es')
    case Nil
    with sum es'(2) show ?thesis by (simp add: at_concat)
  next
    case (Cons l rest)
    with es'(2) obtain fs j where "add_loop fadd l rest = Inr (fs, j)" "c' = Concat h fs" "n = m + j"
      by auto
    with count_add_loop [of l rest fs j] wf Cons sum show ?thesis
      by (simp add: at_concat add_mult_distrib)
  qed
qed auto

end

section \<open>The fixpoint\<close>

text \<open>
  A concat is settled when of each two neighbours one is to be ignored; then, and only
  then, the pass does nothing.
\<close>

fun settled_node :: "node \<Rightarrow> bool" where
  "settled_node (Node_concat c) \<longleftrightarrow>
     successively (\<lambda>l r. ignore_entry l \<or> ignore_entry r) (concat_list c)"
| "settled_node n = True"

lemma add_loop_zero:
  "add_loop fadd l es = Inr (fs, 0) \<Longrightarrow>
     fs = l # es \<and> successively (\<lambda>l r. ignore_entry l \<or> ignore_entry r) (l # es)"
proof (induction es arbitrary: l fs)
  case (Cons r rest)
  then obtain gs where "add_pair fadd l r = Inr None" "add_loop fadd r rest = Inr (gs, 0)" "fs = l # gs"
    by (auto simp: res_simps split: option.splits)
  with Cons.IH [of r gs] show ?case by (simp add: add_pair_None)
qed auto

lemma additions_zero:
  "additions_entry fadd e = Inr (e', 0) \<Longrightarrow> e' = e \<and> all_entry settled_node e"
  "additions_array fadd a = Inr (a', 0) \<Longrightarrow> a' = a \<and> all_array settled_node a"
  "additions_object fadd x = Inr (x', 0) \<Longrightarrow> x' = x \<and> all_object settled_node x"
  "additions_concat fadd c = Inr (c', 0) \<Longrightarrow> c' = c \<and> all_concat settled_node c"
proof (induction e and a and x and c arbitrary: e' and a' and x' and c' rule: tree_induct)
  case (1 e)
  then show ?case by (cases e) auto
next
  case (6 f cs p)
  then obtain ds where a': "a' = Array f ds p" "map_chg (additions_concat fadd) cs = Inr (ds, 0)"
    by (auto simp: res_simps)
  have "ds = cs" using map_chg_zero [OF a'(2)] 6(1) by blast
  moreover have "\<forall>c \<in> set cs. all_concat settled_node c"
    using map_chg_zero_each [OF a'(2)] 6(1) by blast
  ultimately show ?case using a' by simp
next
  case (7 ms p)
  then obtain ns where x': "x' = Object ns p"
    "map_chg (on_value_chg (additions_concat fadd)) ms = Inr (ns, 0)"
    by (auto simp: res_simps)
  have "ns = ms" by (rule map_chg_zero [OF x'(2)]) (use 7(1) in \<open>fastforce simp: res_simps\<close>)
  moreover have "all_concat settled_node c" if "(k, c) \<in> set ms" for k c
    using map_chg_zero_each [OF x'(2) that] 7(1) [OF that] by (auto simp: res_simps)
  ultimately show ?case using x' by auto
next
  case (8 h es)
  then obtain es' m where *: "map_chg (additions_entry fadd) es = Inr (es', m)"
    "case es' of
           [] \<Rightarrow> c' = Concat h [] \<and> 0 = m
         | l # rest \<Rightarrow> \<exists>fs k. add_loop fadd l rest = Inr (fs, k) \<and> c' = Concat h fs \<and> 0 = m + k"
    using additions_concat_Inr [of fadd h es c' 0] by blast
  then have es': "map_chg (additions_entry fadd) es = Inr (es', 0)"
    "case es' of
           [] \<Rightarrow> c' = Concat h []
         | l # rest \<Rightarrow> \<exists>fs. add_loop fadd l rest = Inr (fs, 0) \<and> c' = Concat h fs"
    by (cases es'; auto)+
  have "es' = es" using map_chg_zero [OF es'(1)] 8(1) by blast
  moreover have "\<forall>e \<in> set es. all_entry settled_node e"
    using map_chg_zero_each [OF es'(1)] 8(1) by blast
  ultimately show ?case using es'(2) by (auto split: list.splits dest: add_loop_zero)
qed (auto simp: res_simps)

lemma resolved_not_ignored: "all_entry resolved_node e \<Longrightarrow> \<not> ignore_entry e"
  by (cases e) (auto dest: array_function_all)

lemma settled_resolved_single:
  assumes "all_concat resolved_node c" "settled_node (Node_concat c)"
  shows "length (concat_list c) \<le> 1"
proof (cases "concat_list c" rule: remdups_adj.cases)
  case (3 l r rest)
  then have "\<not> ignore_entry l" "\<not> ignore_entry r"
    using assms(1) all_concat_list resolved_not_ignored by (metis list.set_intros)+
  with assms(2) 3 show ?thesis by simp
qed auto

section \<open>Whole concats\<close>

lemma add_strings:
  "add_loop fadd (STRING s p) (map (\<lambda>(t, q). STRING t q) ts) =
     Inr ([STRING (s @ List.concat (map fst ts)) (last (p # map snd ts))], length ts)"
proof (induction ts arbitrary: s p)
  case (Cons t ts)
  then show ?case
    by (cases t) (simp add: add_pair_def add_same_def throw_type_error_if_def get_string_def)
qed simp

lemma add_arrays:
  "add_loop fadd (ARRAY (Array [] cs p)) (map (\<lambda>(ds, q). ARRAY (Array [] ds q)) as) =
     Inr ([ARRAY (Array [] (cs @ List.concat (map fst as)) (last (p # map snd as)))], length as)"
proof (induction as arbitrary: cs p)
  case (Cons a as)
  then show ?case
    by (cases a) (simp add: add_pair_def add_same_def throw_type_error_if_def get_array_def)
qed simp

lemma add_unsigned:
  "add_loop fadd (UNSIGNED u p) (map (\<lambda>(v, q). UNSIGNED v q) us) =
     Inr ([UNSIGNED (u + sum_list (map fst us)) (last (p # map snd us))], length us)"
proof (induction us arbitrary: u p)
  case (Cons v us)
  then show ?case by (cases v) (simp add: add_pair_def add_numbers_def ac_simps)
qed simp

lemma add_signed_exact: "add_signed b a = Inr c \<longleftrightarrow> sint c = sint a + sint b"
proof -
  have range: "- (2 ^ 63) \<le> sint c" "sint c < 2 ^ 63" for c :: i64
    using sint_greater_eq [of c] sint_less [of c] by simp_all
  show ?thesis
  proof (cases "- (2 ^ 63) \<le> sint a + sint b \<and> sint a + sint b < 2 ^ 63")
    case True
    then have "sint (b + a) = sint a + sint b"
      by (simp add: sint_word_ariths signed_take_bit_int_eq_self ac_simps)
    with True show ?thesis by (auto simp: add_signed_def ac_simps intro: signed_word_eqI) (metis signed_word_eqI)
  next
    case False
    with range [of c] show ?thesis by (auto simp: add_signed_def ac_simps)
  qed
qed

section \<open>Properties\<close>

text \<open>C21: When two neighbours cannot be added: the type error is thrown exactly when the right
  one is null or boolean (whatever the left one is, references included), or when both are
  values whose kinds differ and are not both integers.\<close>

theorem addition_type_errors:
  "add_pair fadd l r = Inl (Addition_error (kind l) (entry_position l) (kind r) (entry_position r)) \<longleftrightarrow>
     kind r \<in> {KIND_NULL, KIND_BOOLEAN} \<or>
     \<not> ignore_entry l \<and> \<not> ignore_entry r \<and> kind l \<noteq> kind r \<and>
       \<not> {kind l, kind r} \<subseteq> {KIND_SIGNED, KIND_UNSIGNED}"
  by (cases r; cases l)
    (auto simp: add_pair_def add_same_def add_numbers_def throw_type_error_def
      throw_type_error_if_def add_signed_def split: array.splits)

text \<open>Signed addition is exact: it gives \<open>c\<close> exactly when \<open>c\<close> is the mathematical sum;
  a sum that does not fit is undefined behaviour.\<close>

theorem signed_addition_exact:
  "add_pair fadd (SIGNED a p) (SIGNED b q) = Inr (Some (SIGNED c q)) \<longleftrightarrow> sint c = sint a + sint b"
proof -
  have "add_pair fadd (SIGNED a p) (SIGNED b q) = Inr (Some (SIGNED c q)) \<longleftrightarrow> add_signed b a = Inr c"
    by (auto simp: add_pair_def add_numbers_def res_simps)
  then show ?thesis by (simp add: add_signed_exact)
qed

text \<open>A concat of unsigned integers, of strings or of arrays becomes one entry at the last
  position: the sum modulo two to the sixty-fourth, the concatenation in order.\<close>

theorem additions_of_one_kind:
  "additions_concat fadd (Concat h (UNSIGNED u p # map (\<lambda>(v, q). UNSIGNED v q) us)) =
     Inr (Concat h [UNSIGNED (u + sum_list (map fst us)) (last (p # map snd us))], length us) \<and>
   additions_concat fadd (Concat h (STRING s p # map (\<lambda>(t, q). STRING t q) ts)) =
     Inr (Concat h [STRING (s @ List.concat (map fst ts)) (last (p # map snd ts))], length ts)"
proof -
  have "map_chg (additions_entry fadd) (UNSIGNED u p # map (\<lambda>(v, q). UNSIGNED v q) us) =
      Inr (UNSIGNED u p # map (\<lambda>(v, q). UNSIGNED v q) us, 0)"
    by (induction us arbitrary: u p) auto
  moreover have "map_chg (additions_entry fadd) (STRING s p # map (\<lambda>(t, q). STRING t q) ts) =
      Inr (STRING s p # map (\<lambda>(t, q). STRING t q) ts, 0)"
    by (induction ts arbitrary: s p) auto
  ultimately show ?thesis
    using add_unsigned [of fadd u p us] add_strings [of fadd s p ts] by simp
qed

text \<open>C22: Adding objects: a member of the sum is the member of the one that has it; where both
  have it, the left one is dropped if the right one was assigned, otherwise its entries come
  first and its remove and temporary flags are taken over.\<close>

theorem object_addition_members:
  "wf_object x \<Longrightarrow> wf_object y \<Longrightarrow>
     om_find k (object_map (process_object x y)) =
       (case (om_find k (object_map x), om_find k (object_map y)) of
          (None, d) \<Rightarrow> d
        | (Some c, None) \<Rightarrow> Some c
        | (Some c, Some d) \<Rightarrow>
            Some (if remove (head d) then d
                  else Concat ((head d)\<lparr>remove := remove (head c),
                                        temporary := temporary (head c) \<or> temporary (head d)\<rparr>)
                         (concat_list c @ concat_list d)))"
proof -
  assume "wf_object x" "wf_object y"
  then have "om_inv (object_map y)" "om_inv (object_map x)" by (cases x; cases y; simp)+
  then show ?thesis by (simp add: process_object_def om_find_merge merged_concat_def split: option.splits)
qed

theorem object_addition_members_witness:
  "om_find ''a'' (object_map (process_object example_object (Object [] no_position))) =
     Some (Concat (head (concat_init no_position)) [NULL no_position])"
  using object_addition_members [OF example_wf, of "Object [] no_position" "''a''"] by simp

text \<open>Progress of the pass: every counted addition removes an entry and none is created;
  function calls, asterisks and references do not become more, and the maps stay sorted.\<close>

theorem additions_progress:
  "phase2_additions fadd x = Inr (y, n) \<Longrightarrow> wf_object x \<Longrightarrow>
     count_object w_entry y + n \<le> count_object w_entry x \<and>
     count_object w_function y \<le> count_object w_function x \<and>
     count_object w_asterisk y \<le> count_object w_asterisk x \<and>
     count_object w_reference y \<le> count_object w_reference x \<and> wf_object y"
  using w_entry_entry.additions_count(3) [of fadd x y n] w_function_entry.additions_count(3) [of fadd x y n]
    w_asterisk_entry.additions_count(3) [of fadd x y n] w_reference_entry.additions_count(3) [of fadd x y n]
    additions_wf(3) [of fadd x y n]
  by (simp add: phase2_additions_def)

lemma example_additions:
  "phase2_additions (+) (Object [(''a'', Concat h [STRING ''x'' p, STRING ''y'' q])] r) =
     Inr (Object [(''a'', Concat h [STRING ''xy'' q])] r, 1)"
  by (simp add: phase2_additions_def add_pair_def add_same_def throw_type_error_if_def get_string_def
      on_value_chg_def)

theorem additions_progress_witness:
  "count_object w_entry (Object [(''a'', Concat (head (concat_init no_position)) [STRING ''xy'' no_position])]
     no_position) \<le> 2"
  using additions_progress [OF example_additions] by fastforce

text \<open>The fixpoint of the pass: a pass without an addition changes nothing, and of each two
  neighbours, at any depth, at least one is an unresolved reference, an asterisk or a
  function call.\<close>

theorem additions_fixpoint:
  "phase2_additions fadd x = Inr (y, 0) \<Longrightarrow> y = x \<and> all_object settled_node x"
  using additions_zero(3) [of fadd x y] by (simp add: phase2_additions_def)

lemma example_settled:
  "phase2_additions (+) (Object [(''a'', Concat h [STRING ''x'' p, REFERENCE []])] r) =
     Inr (Object [(''a'', Concat h [STRING ''x'' p, REFERENCE []])] r, 0)"
  by (simp add: phase2_additions_def add_pair_def on_value_chg_def)

theorem additions_fixpoint_witness:
  "all_object settled_node
     (Object [(''a'', Concat (head (concat_init no_position)) [STRING ''x'' no_position, REFERENCE []])]
       no_position)"
  using additions_fixpoint [OF example_settled] by blast




end
