(* ===== verification/Config_Value.thy ===== *)
theory Config_Value
  imports Config_Key "HOL-Library.Sublist"
begin

text \<open>
  The values the library returns, \<open>json::basic_value< traits >\<close> with the base class
  \<open>annotation\<close> (\<open>annotation.hpp\<close>, \<open>traits.hpp\<close>), and the two functions that navigate
  in them with a key, \<open>access.hpp\<close> and \<open>assign.hpp\<close>. \<open>assign\<close> returns a reference and
  changes the value it is given even when it throws later, so its model returns the changed
  value together with the outcome.
\<close>

record annotation =
  ann_key :: key
  ann_position :: position

definition annotation_init :: annotation where
  "annotation_init = \<lparr>ann_key = [], ann_position = no_position\<rparr>"

definition set_key :: "key \<Rightarrow> annotation \<Rightarrow> annotation" where
  "set_key k a = a\<lparr>ann_key := k\<rparr>"

definition set_position :: "position \<Rightarrow> annotation \<Rightarrow> annotation" where
  "set_position p a = a\<lparr>ann_position := p\<rparr>"

datatype json_value =
    V_null (public_base: annotation)
  | V_boolean bool (public_base: annotation)
  | V_string string (public_base: annotation)
  | V_binary "byte list" (public_base: annotation)
  | V_signed i64 (public_base: annotation)
  | V_unsigned u64 (public_base: annotation)
  | V_double double (public_base: annotation)
  | V_array "json_value list" (public_base: annotation)
  | V_object "(string \<times> json_value) list" (public_base: annotation)

definition empty_object :: json_value where
  "empty_object = V_object [] annotation_init"

section \<open>Errors of both functions\<close>

text \<open>\<open>strcat\<close> writes its arguments to a string stream one by one; the arguments are texts here, an
  index is written in decimal.\<close>

definition strcat :: "string list \<Rightarrow> string" where
  "strcat ts = fold (\<lambda>t oss. oss @ t) ts []"

definition non_object_error :: "string \<Rightarrow> error" where
  "non_object_error n =
     Runtime_error (strcat [''attempt to index non-object with '' @ [CHR 0x22], n, [CHR 0x22]])"

definition non_array_error :: "nat \<Rightarrow> error" where
  "non_array_error i = Runtime_error (strcat [''attempt to index non-array with '', nat_to_string i])"

definition bounds_error :: "nat \<Rightarrow> nat \<Rightarrow> error" where
  "bounds_error i n =
     Runtime_error (strcat [''array index '', nat_to_string i, '' out of bounds '', nat_to_string n])"

definition not_found_error :: "string \<Rightarrow> error" where
  "not_found_error n =
     Runtime_error (strcat [''object index '' @ [CHR 0x22], n, [CHR 0x22] @ '' not found''])"

lemma strcat_concat: "strcat ts = concat ts"
proof -
  have "fold (\<lambda>t oss. oss @ t) ts out = out @ concat ts" for out :: string
    by (induction ts arbitrary: out) simp_all
  then show ?thesis by (simp add: strcat_def)
qed

section \<open>access\<close>

function access :: "json_value \<Rightarrow> key \<Rightarrow> error + json_value"
  and access_name :: "json_value \<Rightarrow> string \<Rightarrow> key \<Rightarrow> error + json_value"
  and access_index :: "json_value \<Rightarrow> nat \<Rightarrow> key \<Rightarrow> error + json_value" where
  "access v [] = Inr v"
| "access v (Key_name n # p) = access_name v n p"
| "access v (Key_index i # p) = access_index v i p"
| "access_name v n p =
     (case v of
        V_object ms a \<Rightarrow>
          (case om_find n ms of
             None \<Rightarrow> Inl (not_found_error n)
           | Some w \<Rightarrow> access w p)
      | _ \<Rightarrow> Inl (non_object_error n))"
| "access_index v i p =
     (case v of
        V_array vs a \<Rightarrow>
          (if length vs \<le> i then Inl (bounds_error i (length vs)) else access (vs ! i) p)
      | _ \<Rightarrow> Inl (non_array_error i))"
  by pat_completeness auto
termination
  by (relation "measure (case_sum (\<lambda>(v, k). 2 * length k)
        (case_sum (\<lambda>(v, n, p). 2 * length p + 1) (\<lambda>(v, n, p). 2 * length p + 1)))") auto

lemmas access_part_simps = access_name.simps access_index.simps

declare access_name.simps [simp del] access_index.simps [simp del]

lemma access_induct [case_names Nil Name Index]:
  assumes "\<And>v. P v []"
    and "\<And>v n k. (\<And>w. P w k) \<Longrightarrow> P v (Key_name n # k)"
    and "\<And>v i k. (\<And>w. P w k) \<Longrightarrow> P v (Key_index i # k)"
  shows "P v k"
proof (induction k arbitrary: v)
  case (Cons p k)
  then show ?case using assms by (cases p) auto
qed (use assms in auto)

section \<open>assign\<close>

function assign :: "json_value \<Rightarrow> key \<Rightarrow> json_value \<times> (error + json_value)"
  and assign_name :: "json_value \<Rightarrow> string \<Rightarrow> key \<Rightarrow> json_value \<times> (error + json_value)"
  and assign_index :: "json_value \<Rightarrow> nat \<Rightarrow> key \<Rightarrow> json_value \<times> (error + json_value)" where
  "assign v [] = (v, Inr v)"
| "assign v (Key_name n # p) = assign_name v n p"
| "assign v (Key_index i # p) = assign_index v i p"
| "assign_name v n p =
     (case v of
        V_object ms a \<Rightarrow>
          (case try_emplace n empty_object ms of
             (ms', w, inserted) \<Rightarrow>
               (case assign w p of (w', r) \<Rightarrow> (V_object (om_put n w' ms') a, r)))
      | _ \<Rightarrow> (v, Inl (non_object_error n)))"
| "assign_index v i p =
     (case v of
        V_array vs a \<Rightarrow>
          (if length vs \<le> i then (v, Inl (bounds_error i (length vs)))
           else (case assign (vs ! i) p of (w', r) \<Rightarrow> (V_array (vs[i := w']) a, r)))
      | _ \<Rightarrow> (v, Inl (non_array_error i)))"
  by pat_completeness auto
termination
  by (relation "measure (case_sum (\<lambda>(v, k). 2 * length k)
        (case_sum (\<lambda>(v, n, p). 2 * length p + 1) (\<lambda>(v, n, p). 2 * length p + 1)))") auto

lemmas assign_part_simps = assign_name.simps assign_index.simps

declare assign_name.simps [simp del] assign_index.simps [simp del]

section \<open>The laws of the two functions\<close>

fun wf_value :: "json_value \<Rightarrow> bool" where
  "wf_value (V_array vs a) \<longleftrightarrow> (\<forall>v \<in> set vs. wf_value v)"
| "wf_value (V_object ms a) \<longleftrightarrow> om_inv ms \<and> (\<forall>(k, v) \<in> set ms. wf_value v)"
| "wf_value v \<longleftrightarrow> True"

lemma try_emplace_known: "om_find k m = Some w \<Longrightarrow> try_emplace k v m = (m, w, False)"
  by (simp add: try_emplace_def)

lemma try_emplace_fresh: "om_find k m = None \<Longrightarrow> try_emplace k v m = (om_put k v m, v, True)"
  by (simp add: try_emplace_def)

lemma om_find_put_try_emplace:
  "om_find k' (om_put k w (fst (try_emplace k v m))) = (if k' = k then Some w else om_find k' m)"
  by (auto simp: try_emplace_def om_find_put split: option.splits)

text \<open>The recursive equations of \<open>assign\<close> with projections instead of patterns.\<close>

lemma assign_name_object:
  "assign_name (V_object ms a) n p =
     (let e = try_emplace n empty_object ms; r = assign (fst (snd e)) p
      in (V_object (om_put n (fst r) (fst e)) a, snd r))"
  by (simp add: assign_part_simps Let_def split_beta)

lemma assign_name_other:
  "(\<And>ms a. v \<noteq> V_object ms a) \<Longrightarrow> assign_name v n p = (v, Inl (non_object_error n))"
  by (cases v) (auto simp: assign_part_simps)

lemma assign_index_array:
  "i < length vs \<Longrightarrow>
     assign_index (V_array vs a) i p =
       (V_array (vs[i := fst (assign (vs ! i) p)]) a, snd (assign (vs ! i) p))"
  by (simp add: assign_part_simps split_beta)

lemma assign_then_access:
  "snd (assign v k) = Inr w \<Longrightarrow> access (fst (assign v k)) k = Inr w"
proof (induction v k arbitrary: w rule: access_induct)
  case (Name v n k)
  then show ?case
    by (cases v) (simp_all add: assign_name_object assign_name_other access_part_simps
        om_find_put_try_emplace Let_def)
next
  case (Index v i k)
  then show ?case
    by (cases v)
      (auto simp: assign_index.simps access_part_simps split_beta split: if_splits)
qed auto

lemma assign_existing:
  "wf_value v \<Longrightarrow> access v k = Inr w \<Longrightarrow> assign v k = (v, Inr w)"
proof (induction v k rule: access_induct)
  case (Name v n k)
  then obtain ms a u where v: "v = V_object ms a" and u: "om_find n ms = Some u" "access u k = Inr w"
    by (cases v) (auto simp: access_part_simps split: option.splits)
  moreover have "wf_value u" using Name.prems(1) u(1) v by (auto dest: om_find_in)
  ultimately have "assign u k = (u, Inr w)" using Name.IH by blast
  with Name.prems(1) u v show ?case
    by (simp add: assign_part_simps try_emplace_known om_put_same)
next
  case (Index v i k)
  then show ?case
    by (cases v) (auto simp: assign_part_simps access_part_simps split: if_splits)
qed auto

lemma assign_frame:
  "access v k' = Inr w \<Longrightarrow>
     access (fst (assign v k)) k' =
       Inr (if prefix k' k then fst (assign w (drop (length k') k)) else w)"
proof (induction v k arbitrary: k' w rule: access_induct)
  case (Nil v)
  then show ?case by (cases k') auto
next
  case (Name v n k)
  show ?case
  proof (cases k')
    case (Cons p q)
    show ?thesis
    proof (cases "\<exists>ms a m. v = V_object ms a \<and> p = Key_name m")
      case True
      then obtain ms a m where v: "v = V_object ms a" "p = Key_name m" by blast
      then obtain u where u: "om_find m ms = Some u" "access u q = Inr w"
        using Name.prems Cons by (auto simp: access_part_simps split: option.splits)
      have "om_find m (om_put m x ms) = Some x" for x by (simp add: om_find_put)
      then show ?thesis using u v Cons Name.IH [OF u(2)]
        by (cases "m = n") (simp_all add: assign_name_object access_part_simps
            om_find_put_try_emplace try_emplace_known Let_def)
    next
      case False
      with Name.prems Cons show ?thesis
        by (cases v; cases p) (auto simp: assign_part_simps access_part_simps)
    qed
  qed (use Name.prems in simp)
next
  case (Index v i k)
  show ?case
  proof (cases k')
    case (Cons p q)
    show ?thesis
    proof (cases "\<exists>vs a j. v = V_array vs a \<and> p = Key_index j")
      case True
      then obtain vs a j where v: "v = V_array vs a" "p = Key_index j" by blast
      then have j: "j < length vs" "access (vs ! j) q = Inr w"
        using Index.prems Cons by (auto simp: access_part_simps split: if_splits)
      show ?thesis
      proof (cases "i < length vs")
        case True
        with j v Cons Index.IH [OF j(2)] show ?thesis
          by (cases "j = i") (simp_all add: assign_index_array access_part_simps)
      next
        case False
        with j v Cons show ?thesis by (auto simp: assign_part_simps access_part_simps)
      qed
    next
      case False
      with Index.prems Cons show ?thesis
        by (cases v; cases p) (auto simp: assign_part_simps access_part_simps split: prod.splits)
    qed
  qed (use Index.prems in simp)
qed

lemma access_append:
  "access v (k @ k') = rbind (access v k) (\<lambda>w. access w k')"
proof (induction v k rule: access_induct)
  case (Name v n k)
  then show ?case by (cases v) (auto simp: access_part_simps split: option.splits)
next
  case (Index v i k)
  then show ?case by (cases v) (auto simp: access_part_simps)
qed simp

section \<open>Properties\<close>

text \<open>After a successful \<open>assign\<close>, \<open>access\<close> with the same key finds the value
  that \<open>assign\<close> returned a reference to.\<close>

theorem access_after_assign:
  "assign v k = (v', Inr w) \<Longrightarrow> access v' k = Inr w"
  using assign_then_access [of v k w] by simp

lemma example_assign:
  "assign empty_object [Key_name ''a'', Key_name ''b''] =
     (V_object [(''a'', V_object [(''b'', empty_object)] annotation_init)] annotation_init,
      Inr empty_object)"
  by code_simp

theorem access_after_assign_witness:
  "access (V_object [(''a'', V_object [(''b'', empty_object)] annotation_init)] annotation_init)
     [Key_name ''a'', Key_name ''b''] = Inr empty_object"
  by (rule access_after_assign [OF example_assign])

text \<open>Frame: every value that could be accessed before \<open>assign\<close> can be accessed after
  it, whether it succeeds or throws, and is unchanged unless its key is a prefix of the
  assigned key; then it is changed like a value of its own with the rest of the key.\<close>

theorem access_other_after_assign:
  "access v k' = Inr w \<Longrightarrow>
     access (fst (assign v k)) k' =
       Inr (if prefix k' k then fst (assign w (drop (length k') k)) else w)"
  by (rule assign_frame)

theorem access_other_after_assign_witness:
  "access (fst (assign (V_object [(''c'', V_boolean True annotation_init)] annotation_init)
     [Key_name ''a''])) [Key_name ''c''] = Inr (V_boolean True annotation_init)"
  using access_other_after_assign [of "V_object [(''c'', V_boolean True annotation_init)] annotation_init"
      "[Key_name ''c'']" "V_boolean True annotation_init" "[Key_name ''a'']"]
  by (simp add: access_part_simps)

text \<open>\<open>assign\<close> on a key that exists changes nothing and returns the value there.\<close>

theorem assign_when_present:
  "wf_value v \<Longrightarrow> access v k = Inr w \<Longrightarrow> assign v k = (v, Inr w)"
  by (rule assign_existing)

theorem assign_when_present_witness:
  "assign (V_array [empty_object] annotation_init) [Key_index 0] =
     (V_array [empty_object] annotation_init, Inr empty_object)"
  by (rule assign_when_present) (auto simp: empty_object_def access_part_simps)

text \<open>Access along a concatenated key is access in two steps.\<close>

theorem access_composed:
  "access v (key_append k k') = rbind (access v k) (\<lambda>w. access w k')"
  by (simp add: key_append_def access_append)

end
