(* ===== verification/Config_Repack.thy ===== *)
theory Config_Repack
  imports Config_Value Config_Remove
begin

text \<open>
  Phase five, \<open>phase5_repack.hpp\<close>: the intermediate representation becomes the value that
  is returned, every sub-value annotated with its key and position. The code drives the
  event consumer \<open>to_basic_value\<close> of taoJSON; the model builds the value that these events
  describe. The two places marked unreachable in the code, and the assertion that a concat
  has one entry, are errors of the model.
\<close>

definition set_key_and_position :: "key \<Rightarrow> position \<Rightarrow> annotation \<Rightarrow> annotation" where
  "set_key_and_position k p a = set_position p (set_key k a)"

abbreviation annotated :: "key \<Rightarrow> position \<Rightarrow> annotation" where
  "annotated k p \<equiv> set_key_and_position k p annotation_init"

definition unreachable :: error where
  "unreachable = Logic_error ''code should be unreachable''"

fun phase5_repack_array :: "key \<Rightarrow> array \<Rightarrow> error + json_value"
  and phase5_repack_object :: "key \<Rightarrow> object \<Rightarrow> error + json_value"
  and phase5_repack_entry :: "key \<Rightarrow> entry \<Rightarrow> error + json_value"
  and phase5_repack_concat :: "key \<Rightarrow> concat \<Rightarrow> error + json_value" where
  "phase5_repack_array k (Array f cs p) =
     rbind (map_res_idx (\<lambda>i c. phase5_repack_concat (key_append_part k (Key_index i)) c) 0 cs)
       (\<lambda>vs. Inr (V_array vs (annotated k p)))"
| "phase5_repack_object k (Object ms p) =
     rbind (map_res (on_member (\<lambda>n c. phase5_repack_concat (key_append_part k (Key_name n)) c)) ms)
       (\<lambda>vs. Inr (V_object vs (annotated k p)))"
| "phase5_repack_entry k (NULL p) = Inr (V_null (annotated k p))"
| "phase5_repack_entry k (BOOLEAN b p) = Inr (V_boolean b (annotated k p))"
| "phase5_repack_entry k (SIGNED i p) = Inr (V_signed i (annotated k p))"
| "phase5_repack_entry k (UNSIGNED u p) = Inr (V_unsigned u (annotated k p))"
| "phase5_repack_entry k (DOUBLE d p) = Inr (V_double d (annotated k p))"
| "phase5_repack_entry k (STRING s p) = Inr (V_string s (annotated k p))"
| "phase5_repack_entry k (BINARY y p) = Inr (V_binary y (annotated k p))"
| "phase5_repack_entry k (ARRAY a) =
     (if array_function a \<noteq> [] then Inl unreachable else phase5_repack_array k a)"
| "phase5_repack_entry k (OBJECT x) = phase5_repack_object k x"
| "phase5_repack_entry k (ASTERISK c) = Inl unreachable"
| "phase5_repack_entry k (REFERENCE r) = Inl unreachable"
| "phase5_repack_concat k (Concat h es) =
     (case es of
        [e] \<Rightarrow> phase5_repack_entry k e
      | _ \<Rightarrow> Inl (Assert_failed ''c.concat.size() == 1''))"

text \<open>The entry points: for \<open>print\<close>, and for the root of the config.\<close>

definition phase5_repack_value :: "concat \<Rightarrow> error + json_value" where
  "phase5_repack_value c = phase5_repack_concat [] c"

definition phase5_repack :: "object \<Rightarrow> error + json_value" where
  "phase5_repack x = phase5_repack_object [] x"

section \<open>When repacking succeeds\<close>

fun single_node :: "node \<Rightarrow> bool" where
  "single_node (Node_concat c) \<longleftrightarrow> length (concat_list c) = 1"
| "single_node n \<longleftrightarrow> True"

definition repackable_node :: "node \<Rightarrow> bool" where
  "repackable_node n \<longleftrightarrow> resolved_node n \<and> single_node n"

lemma repackable_node_simps [simp]:
  "repackable_node (Node_array a) \<longleftrightarrow> array_function a = []"
  "repackable_node (Node_concat c) \<longleftrightarrow> length (concat_list c) = 1"
  "repackable_node (Node_object x)"
  "repackable_node (Node_entry e) \<longleftrightarrow> kind e \<notin> {KIND_ASTERISK, KIND_REFERENCE}"
proof -
  show "repackable_node (Node_entry e) \<longleftrightarrow> kind e \<notin> {KIND_ASTERISK, KIND_REFERENCE}"
    by (cases e) (auto simp: repackable_node_def)
qed (simp_all add: repackable_node_def)

lemma array_function_repackable: "all_array repackable_node a \<Longrightarrow> array_function a = []"
  by (cases a) auto

lemma phase5_repack_ok:
  "is_ok (phase5_repack_entry k e) \<longleftrightarrow> all_entry repackable_node e"
  "array_function a = [] \<Longrightarrow> is_ok (phase5_repack_array k a) \<longleftrightarrow> all_array repackable_node a"
  "is_ok (phase5_repack_object k x) \<longleftrightarrow> all_object repackable_node x"
  "is_ok (phase5_repack_concat k c) \<longleftrightarrow> all_concat repackable_node c"
proof (induction e and a and x and c arbitrary: k and k and k and k rule: tree_induct)
  case (1 e)
  then show ?case by (cases e) auto
next
  case (3 a)
  then show ?case by (auto dest: array_function_repackable)
next
  case (6 f cs p)
  then show ?case by (auto simp: map_res_idx_ok all_set_conv_all_nth)
next
  case (7 ms p)
  then show ?case by (auto simp: map_res_ok on_member_def)
next
  case (8 h es)
  then show ?case by (auto simp: length_Suc_conv split: list.splits)
qed auto

section \<open>The annotated keys\<close>

text \<open>The key stored in a sub-value is the key under which \<open>access\<close> finds it.\<close>

lemma ann_key_annotated [simp]: "ann_key (annotated k p) = k"
  by (simp add: set_key_and_position_def set_key_def set_position_def)

lemma map_res_on_member_find:
  "map_res (on_member f) ms = Inr vs \<Longrightarrow> om_find n vs = Some v \<Longrightarrow>
     \<exists>c. (n, c) \<in> set ms \<and> f n c = Inr v"
  by (induction ms arbitrary: vs) (auto simp: res_simps split: if_splits)

lemma access_key_annotation:
  "phase5_repack_entry k e = Inr v \<Longrightarrow> access v k' = Inr w \<Longrightarrow> ann_key (public_base w) = k @ k'"
  "phase5_repack_array k a = Inr v \<Longrightarrow> access v k' = Inr w \<Longrightarrow> ann_key (public_base w) = k @ k'"
  "phase5_repack_object k x = Inr v \<Longrightarrow> access v k' = Inr w \<Longrightarrow> ann_key (public_base w) = k @ k'"
  "phase5_repack_concat k c = Inr v \<Longrightarrow> access v k' = Inr w \<Longrightarrow> ann_key (public_base w) = k @ k'"
proof (induction e and a and x and c arbitrary: k k' v w and k k' v w and k k' v w and k k' v w
    rule: tree_induct)
  case (1 e)
  have "k' = []" using 1 by (cases e; cases k'; cases "hd k'") (auto simp: access_part_simps)
  with 1 show ?case by (cases e) auto
next
  case (3 a)
  then show ?case by (auto split: if_splits)
next
  case (6 f cs p)
  then obtain vs where v: "v = V_array vs (annotated k p)"
    "\<And>j. j < length cs \<Longrightarrow> phase5_repack_concat (k @ [Key_index j]) (cs ! j) = Inr (vs ! j)"
    "length vs = length cs"
    by (auto simp: res_simps map_res_idx_Inr_iff key_append_part_def)
  show ?case
  proof (cases k')
    case (Cons q l)
    then obtain i where i: "q = Key_index i" "i < length cs" "access (vs ! i) l = Inr w"
      using 6(3) v by (cases q) (auto simp: access_part_simps split: if_splits)
    then have "ann_key (public_base w) = (k @ [Key_index i]) @ l"
      using 6(1) v(2) nth_mem by blast
    with Cons i show ?thesis by simp
  qed (use 6 v in auto)
next
  case (7 ms p)
  then obtain vs where v: "v = V_object vs (annotated k p)"
    "map_res (on_member (\<lambda>n c. phase5_repack_concat (k @ [Key_name n]) c)) ms = Inr vs"
    by (auto simp: res_simps key_append_part_def)
  show ?case
  proof (cases k')
    case (Cons q l)
    then obtain n u where n: "q = Key_name n" "om_find n vs = Some u" "access u l = Inr w"
      using 7(3) v by (cases q) (auto simp: access_part_simps split: option.splits)
    with map_res_on_member_find [OF v(2)] obtain c where
      "(n, c) \<in> set ms" "phase5_repack_concat (k @ [Key_name n]) c = Inr u" by blast
    with 7(1) n(3) have "ann_key (public_base w) = (k @ [Key_name n]) @ l" by blast
    with Cons n show ?thesis by simp
  qed (use 7 v in auto)
next
  case (8 h es)
  then show ?case by (auto split: list.splits)
qed auto

section \<open>Maps stay maps\<close>

lemma map_res_on_member_keys: "map_res (on_member f) ms = Inr vs \<Longrightarrow> map fst vs = map fst ms"
  by (induction ms arbitrary: vs) (auto simp: res_simps)

lemma map_res_on_member_in:
  "map_res (on_member f) ms = Inr vs \<Longrightarrow> (n, v) \<in> set vs \<Longrightarrow> \<exists>c. (n, c) \<in> set ms \<and> f n c = Inr v"
  by (induction ms arbitrary: vs) (fastforce simp: res_simps)+

lemma phase5_repack_wf:
  "wf_entry e \<Longrightarrow> phase5_repack_entry k e = Inr v \<Longrightarrow> wf_value v"
  "wf_array a \<Longrightarrow> phase5_repack_array k a = Inr v \<Longrightarrow> wf_value v"
  "wf_object x \<Longrightarrow> phase5_repack_object k x = Inr v \<Longrightarrow> wf_value v"
  "wf_concat c \<Longrightarrow> phase5_repack_concat k c = Inr v \<Longrightarrow> wf_value v"
proof (induction e and a and x and c arbitrary: k v and k v and k v and k v rule: tree_induct)
  case (1 e)
  then show ?case by (cases e) auto
next
  case (3 a)
  then show ?case by (auto split: if_splits)
next
  case (6 f cs p)
  then obtain vs where v: "v = V_array vs (annotated k p)" "length vs = length cs"
    "\<And>j. j < length cs \<Longrightarrow>
       phase5_repack_concat (key_append_part k (Key_index j)) (cs ! j) = Inr (vs ! j)"
    by (auto simp: res_simps map_res_idx_Inr_iff)
  have "wf_value (vs ! j)" if "j < length cs" for j
    using 6(1) [OF nth_mem [OF that] _ v(3) [OF that]] 6(2) that by auto
  with v(1,2) show ?case by (auto simp: in_set_conv_nth)
next
  case (7 ms p)
  then obtain vs where v: "v = V_object vs (annotated k p)"
    "map_res (on_member (\<lambda>n c. phase5_repack_concat (key_append_part k (Key_name n)) c)) ms = Inr vs"
    by (auto simp: res_simps)
  have "om_inv vs"
    using 7(2) map_res_on_member_keys [OF v(2)] om_inv_same_keys by auto
  moreover have "wf_value u" if "(n, u) \<in> set vs" for n u
    using map_res_on_member_in [OF v(2) that] 7(1,2) by fastforce
  ultimately show ?case using v(1) by auto
next
  case (8 h es)
  then show ?case by (auto split: list.splits)
qed auto

lemma phase5_repack_keys:
  assumes "phase5_repack x = Inr v"
  shows "\<exists>vs a. v = V_object vs a \<and> map fst vs = map fst (object_map x)"
  using assms by (cases x) (auto simp: phase5_repack_def res_simps dest: map_res_on_member_keys)

section \<open>Properties\<close>

text \<open>C30: Phase five hits neither of its unreachable branches nor its assertion exactly when
  the representation has no function call, asterisk or reference and every concat has
  exactly one entry.\<close>

theorem phase5_succeeds:
  "is_ok (phase5_repack x) \<longleftrightarrow> all_object repackable_node x"
  by (simp add: phase5_repack_def phase5_repack_ok)

text \<open>The key with which phase five annotates a value is the key under which
  \<open>access\<close> finds it in the result.\<close>

theorem phase5_annotates_keys:
  "phase5_repack x = Inr v \<Longrightarrow> access v k = Inr w \<Longrightarrow> ann_key (public_base w) = k"
  using access_key_annotation(3) [of "[]" x v k w] by (simp add: phase5_repack_def)

lemma example_repack:
  "phase5_repack (Object [(''a'', Concat (head (concat_init no_position)) [NULL no_position])] no_position) =
     Inr (V_object [(''a'', V_null (annotated [Key_name ''a''] no_position))] (annotated [] no_position))"
  by code_simp

theorem phase5_annotates_keys_witness:
  "ann_key (public_base (V_null (annotated [Key_name ''a''] no_position))) = [Key_name ''a'']"
  by (rule phase5_annotates_keys [OF example_repack]) (simp add: access_part_simps)

text \<open>The result of phase five is an object with the members of the root, and all of its
  maps are sorted and without duplicates.\<close>

theorem phase5_members:
  "wf_object x \<Longrightarrow> phase5_repack x = Inr v \<Longrightarrow>
     wf_value v \<and> (\<exists>vs a. v = V_object vs a \<and> map fst vs = map fst (object_map x))"
  using phase5_repack_wf(3) [of x "[]" v] phase5_repack_keys [of x v]
  by (simp add: phase5_repack_def)

theorem phase5_members_witness:
  "wf_value (V_object [(''a'', V_null (annotated [Key_name ''a''] no_position))] (annotated [] no_position))"
  using phase5_members [OF _ example_repack] by (simp add: om_inv_def)

end
