(* ===== verification/Config_Functions.thy ===== *)
theory Config_Functions
  imports Config_Reading Config_Additions Config_Repack
begin

text \<open>
  The functions that a config can call: what they read of their arguments
  (\<open>function_traits.hpp\<close>), how a C++ function becomes one that changes an entry
  (\<open>function_wrapper.hpp\<close>), the ten functions of the library
  (\<open>function_implementations.hpp\<close>, \<open>system_utility.hpp\<close>), and the pass that calls them
  (\<open>phase2_functions.hpp\<close>), which also handles the function \<open>parse\<close>.

  The operating system and the parts of taoJSON that the functions use are fields of
  \<open>system\<close>; so are two choices that C++ leaves open, the order in which the arguments of a
  call are evaluated and the initial value of a flag of the state. An environment variable
  and a script are passed as C strings, which end at the first null character.
\<close>

section \<open>The surroundings\<close>

record system =
  reader :: config_env
  stack_room :: nat
  initial_flag :: bool
  left_first :: bool
  environment :: "string \<Rightarrow> string option"
  read_file :: "string \<Rightarrow> nat + string"  \<comment> \<open>\<open>errno\<close>, or the contents\<close>
  popen :: "string \<Rightarrow> (string list \<times> int) option"  \<comment> \<open>what each \<open>fread\<close> gives, \<open>pclose\<close>\<close>
  validate_utf8 :: "string \<Rightarrow> bool"
  jaxn_grammar :: "string \<Rightarrow> (jaxn_match \<times> position) list \<times> string option"
  jaxn_text :: "json_value \<Rightarrow> string"
  text_positions :: "string \<Rightarrow> string \<Rightarrow> positions"  \<comment> \<open>for a name and a text\<close>
  double_sum :: "double \<Rightarrow> double \<Rightarrow> double"

type_synonym config_function = "entry \<Rightarrow> error + (entry \<times> bool)"
type_synonym function_map = "(string \<times> config_function) list"

definition byte_of_char :: "char \<Rightarrow> byte" where
  "byte_of_char c = of_nat (of_char c)"

definition char_of_byte :: "byte \<Rightarrow> char" where
  "char_of_byte b = char_of (unat b)"

definition c_str :: "string \<Rightarrow> string" where
  "c_str = takeWhile (\<lambda>c. c \<noteq> CHR 0x00)"

section \<open>Arguments and results\<close>

text \<open>\<open>get_array\<close> of an entry that is no array ends the program.\<close>

definition entry_array :: "entry \<Rightarrow> error + array" where
  "entry_array e =
     (case e of ARRAY a \<Rightarrow> Inr a | _ \<Rightarrow> Inl (Undefined_behaviour ''std::get< array >''))"

definition function_traits_entry :: "array \<Rightarrow> nat \<Rightarrow> error + entry" where
  "function_traits_entry f i =
     (if \<not> length (array_list f) > i then Inl (Assert_failed ''f.array.size() > i'')
      else
        case concat_list (array_list f ! i) of
          [] \<Rightarrow> Inl (Assert_failed ''!p->concat.empty()'')
        | [e] \<Rightarrow> Inr e
        | _ \<Rightarrow> Inl Arguments_unready)"

definition function_traits_string :: "system \<Rightarrow> array \<Rightarrow> nat \<Rightarrow> error + string" where
  "function_traits_string sys f i =
     rbind (function_traits_entry f i) (\<lambda>e.
       case e of
         STRING s p \<Rightarrow> Inr s
       | BINARY b p \<Rightarrow>
           let s = map char_of_byte b in
           if \<not> validate_utf8 sys s
           then Inl (Parse_error ''invalid utf-8 in binary data used as string'' p)
           else Inr s
       | _ \<Rightarrow> Inl (Parse_error ''invalid type for string argument'' (entry_position e)))"

text \<open>The result of a function and \<open>put\<close>.\<close>

datatype function_result =
    Result_entry entry
  | Result_string string position
  | Result_binary "byte list" position

fun function_traits_put :: "function_result \<Rightarrow> entry" where
  "function_traits_put (Result_entry e) = e"
| "function_traits_put (Result_string s p) = STRING s p"
| "function_traits_put (Result_binary b p) = BINARY b p"

text \<open>The handler of \<open>arguments_unready\<close>: the entry is as it was.\<close>

definition catch_unready :: "entry \<Rightarrow> error + (entry \<times> 'a) \<Rightarrow> 'a \<Rightarrow> error + (entry \<times> 'a)" where
  "catch_unready e r unready =
     (case r of Inl x \<Rightarrow> if x = Arguments_unready then Inr (e, unready) else Inl x | Inr y \<Rightarrow> Inr y)"

definition wrap :: "config_function \<Rightarrow> config_function" where
  "wrap x e = catch_unready e (x e) False"

definition wrap_1 ::
  "system \<Rightarrow> (position \<Rightarrow> string \<Rightarrow> error + function_result) \<Rightarrow> config_function" where
  "wrap_1 sys x e =
     catch_unready e
       (rbind (entry_array e) (\<lambda>f.
        rbind (function_traits_string sys f 0) (\<lambda>s.
        rbind (x (array_position f) s) (\<lambda>r. Inr (function_traits_put r, True))))) False"

definition wrap_2 ::
  "system \<Rightarrow> (position \<Rightarrow> string \<Rightarrow> string \<Rightarrow> error + function_result) \<Rightarrow> config_function" where
  "wrap_2 sys x e =
     catch_unready e
       (rbind (entry_array e) (\<lambda>f.
        rbind (if left_first sys
               then rbind (function_traits_string sys f 0) (\<lambda>s.
                 rbind (function_traits_string sys f 1) (\<lambda>t. Inr (s, t)))
               else rbind (function_traits_string sys f 1) (\<lambda>t.
                 rbind (function_traits_string sys f 0) (\<lambda>s. Inr (s, t)))) (\<lambda>(s, t).
        rbind (x (array_position f) s t) (\<lambda>r. Inr (function_traits_put r, True))))) False"

section \<open>The functions\<close>

definition binary_function :: "position \<Rightarrow> string \<Rightarrow> error + function_result" where
  "binary_function p s = Inr (Result_binary (map byte_of_char s) p)"

text \<open>The loop over the arguments, which stops at the first one that is not null.\<close>

fun default_loop :: "entry \<Rightarrow> position \<Rightarrow> concat list \<Rightarrow> error + (entry \<times> bool)" where
  "default_loop e p [] =
     Inl (Parse_error ''default function requires at least one non-null argument'' p)"
| "default_loop e p (c # cs) =
     (case concat_list c of
        [f] \<Rightarrow>
          (case f of
             NULL q \<Rightarrow> default_loop e p cs
           | ARRAY a \<Rightarrow> if array_function a \<noteq> [] then Inr (e, False) else Inr (f, True)
           | ASTERISK d \<Rightarrow> Inr (e, False)
           | REFERENCE r \<Rightarrow> Inr (e, False)
           | _ \<Rightarrow> Inr (f, True))
      | _ \<Rightarrow> Inr (e, False))"

definition default_function :: config_function where
  "default_function e =
     rbind (entry_array e) (\<lambda>a.
       if length (array_list a) < 1
       then Inl (Parse_error ''default function requires at least one argument'' (array_position a))
       else default_loop e (array_position a) (array_list a))"

definition getenv_nothrow :: "system \<Rightarrow> string \<Rightarrow> string option" where
  "getenv_nothrow sys name = environment sys (c_str name)"

definition getenv_throws :: "system \<Rightarrow> position \<Rightarrow> string \<Rightarrow> error + string" where
  "getenv_throws sys pos name =
     (case getenv_nothrow sys name of
        Some r \<Rightarrow> Inr r
      | None \<Rightarrow> Inl (Parse_error (''environment variable '' @ [CHR 0x27] @ name @ [CHR 0x27] @
          '' not found'') pos))"

definition env_function :: "system \<Rightarrow> position \<Rightarrow> string \<Rightarrow> error + function_result" where
  "env_function sys p s = rbind (getenv_throws sys p s) (\<lambda>r. Inr (Result_string r p))"

definition env_if_function :: "system \<Rightarrow> position \<Rightarrow> string \<Rightarrow> string \<Rightarrow> error + function_result" where
  "env_if_function sys p s d =
     Inr (Result_string (case getenv_nothrow sys s of Some r \<Rightarrow> r | None \<Rightarrow> d) p)"

definition jaxn_function :: "system \<Rightarrow> position \<Rightarrow> string \<Rightarrow> error + function_result" where
  "jaxn_function sys p s =
     (case jaxn_grammar sys s of
        (ms, failed) \<Rightarrow>
          rbind (jaxn_run (json_env (reader sys)) ms jaxn_to_entry_init) (\<lambda>consumer.
            case failed of
              Some rule \<Rightarrow> Inl (Syntax_error rule)
            | None \<Rightarrow>
                (case jvalue consumer of
                   Held e \<Rightarrow> Inr (Result_entry e)
                 | No_value \<Rightarrow> Inl Bad_optional_access
                 | Moved_from \<Rightarrow> Inl (Undefined_behaviour ''moved-from value''))))"

definition read_file_throws :: "system \<Rightarrow> string \<Rightarrow> error + string" where
  "read_file_throws sys filename =
     (case read_file sys filename of Inl code \<Rightarrow> Inl (System_error code) | Inr s \<Rightarrow> Inr s)"

definition read_function :: "system \<Rightarrow> position \<Rightarrow> string \<Rightarrow> error + function_result" where
  "read_function sys p filename =
     rbind (read_file_throws sys filename) (\<lambda>d. Inr (Result_binary (map byte_of_char d) p))"

definition print_function :: "system \<Rightarrow> config_function" where
  "print_function sys e =
     rbind (entry_array e) (\<lambda>a.
       case array_list a of
         [c] \<Rightarrow>
           if is_primitive (statistics_of_concat c)
           then rbind (phase5_repack_value c) (\<lambda>v.
             Inr (STRING (jaxn_text sys v) (concat_position (head c)), True))
           else Inr (e, False)
       | _ \<Rightarrow> Inl (Parse_error ''print function requires exactly one argument'' (array_position a)))"

definition shell_popen_throws :: "system \<Rightarrow> position \<Rightarrow> string \<Rightarrow> error + string" where
  "shell_popen_throws sys pos script =
     (case popen sys (c_str script) of
        None \<Rightarrow> Inl (Parse_error ''TODO: Better error message for shell function popen error.'' pos)
      | Some (chunks, status) \<Rightarrow>
          if status \<noteq> 0
          then Inl (Parse_error ''TODO: Better error message for shell function pclose error.'' pos)
          else Inr (concat (takeWhile (\<lambda>c. c \<noteq> []) chunks)))"

definition shell_function :: "system \<Rightarrow> position \<Rightarrow> string \<Rightarrow> error + function_result" where
  "shell_function sys p script =
     rbind (shell_popen_throws sys p script) (\<lambda>s. Inr (Result_string s p))"

text \<open>
  \<open>star< split_string, split_star_ws >\<close>: the words with the number of bytes that remain
  where they begin, and the text behind them.
\<close>

definition space_rule :: "char \<Rightarrow> bool" where
  "space_rule c \<longleftrightarrow> c = CHR '' '' \<or> c = CHR 0x0A \<or> c = CHR 0x0D \<or> c = CHR 0x09 \<or> c = CHR 0x0B \<or> c = CHR 0x0C"

definition word_char :: "char \<Rightarrow> bool" where
  "word_char c \<longleftrightarrow> \<not> space_rule c"

function split_loop :: "string \<Rightarrow> (string \<times> nat) list \<times> string" where
  "split_loop s =
     (if takeWhile word_char s = [] then ([], s)
      else case split_loop (dropWhile space_rule (dropWhile word_char s)) of
        (ws, r) \<Rightarrow> ((takeWhile word_char s, length s) # ws, r))"
  by pat_completeness auto
termination
proof (relation "measure length")
  fix s :: string
  assume word: "takeWhile word_char s \<noteq> []"
  have "length (dropWhile space_rule (dropWhile word_char s)) \<le> length (dropWhile word_char s)"
    by (rule length_dropWhile_le)
  also have "\<dots> < length s"
    using word by (cases s) (auto simp: less_Suc_eq_le length_dropWhile_le split: if_splits)
  finally show "(dropWhile space_rule (dropWhile word_char s), s) \<in> measure length" by simp
qed simp

declare split_loop.simps [simp del]

definition split_function :: "system \<Rightarrow> position \<Rightarrow> string \<Rightarrow> error + function_result" where
  "split_function sys p s =
     (case split_loop (dropWhile space_rule s) of
        (ws, r) \<Rightarrow>
          if r \<noteq> [] then Inl (Syntax_error ''eof'')
          else Inr (Result_entry (ARRAY (Array []
            (map (\<lambda>(w, n). Concat (head (concat_init p)) [STRING w (text_positions sys ''split_function'' s n)]) ws)
            p))))"

definition string_function :: "position \<Rightarrow> string \<Rightarrow> error + function_result" where
  "string_function p s = Inr (Result_string s p)"

text \<open>The constructor of \<open>config_parser\<close>.\<close>

definition config_functions :: "system \<Rightarrow> function_map" where
  "config_functions sys =
     [(''binary'', wrap_1 sys binary_function),
      (''default'', wrap default_function),
      (''env'', wrap_1 sys (env_function sys)),
      (''env?'', wrap_2 sys (env_if_function sys)),
      (''jaxn'', wrap_1 sys (jaxn_function sys)),
      (''print'', wrap (print_function sys)),
      (''read'', wrap_1 sys (read_function sys)),
      (''shell'', wrap_1 sys (shell_function sys)),
      (''split'', wrap_1 sys (split_function sys)),
      (''string'', wrap_1 sys string_function)]"

section \<open>The pass\<close>

text \<open>The body of the \<open>try\<close> block of \<open>process_parse_function\<close>: the value that is parsed.\<close>

definition parse_function :: "system \<Rightarrow> array \<Rightarrow> error + entry" where
  "parse_function sys a =
     rbind (function_traits_string sys a 0) (\<lambda>s.
     rbind (with_guard (key1_guard [K1_name [CHR 0x00] (array_position a)])
              (value_rule (reader sys) (stack_room sys) (text_positions sys ''process_parse_function'' s))
              (state_init (initial_flag sys)) s) (\<lambda>(st, r).
       case object_map (st_root st) of
         [(k, c)] \<Rightarrow>
           (case concat_list c of
              [e] \<Rightarrow> Inr e
            | _ \<Rightarrow> Inl (Assert_failed ''st.root.object.begin()->second.concat.size() == 1''))
       | _ \<Rightarrow> Inl (Assert_failed ''st.root.object.size() == 1'')))"

definition process_parse_function :: "system \<Rightarrow> entry \<Rightarrow> array \<Rightarrow> error + entry" where
  "process_parse_function sys e a =
     rbind (catch_unready e (rbind (parse_function sys a) (\<lambda>f. Inr (f, ()))) ()) (\<lambda>(f, u). Inr f)"

definition process_function :: "system \<Rightarrow> function_map \<Rightarrow> array \<Rightarrow> error + (entry \<times> nat)" where
  "process_function sys fm a =
     (if array_function a = ''parse''
      then rbind (process_parse_function sys (ARRAY a) a) (\<lambda>e. Inr (e, 1))
      else
        case om_find (array_function a) fm of
          None \<Rightarrow> Inl (Parse_error (''unknown function name '' @ array_function a) (array_position a))
        | Some f \<Rightarrow> rbind (f (ARRAY a)) (\<lambda>(e, changed). Inr (e, if changed then 1 else 0)))"

fun functions_concat :: "system \<Rightarrow> function_map \<Rightarrow> concat \<Rightarrow> error + (concat \<times> nat)"
  and functions_entry :: "system \<Rightarrow> function_map \<Rightarrow> entry \<Rightarrow> error + (entry \<times> nat)"
  and functions_array :: "system \<Rightarrow> function_map \<Rightarrow> array \<Rightarrow> error + (array \<times> nat)"
  and functions_object :: "system \<Rightarrow> function_map \<Rightarrow> object \<Rightarrow> error + (object \<times> nat)" where
  "functions_concat sys fm (Concat h es) =
     rbind (map_chg (functions_entry sys fm) es) (\<lambda>(es', n). Inr (Concat h es', n))"
| "functions_entry sys fm (ARRAY a) =
     rbind (functions_array sys fm a) (\<lambda>(b, n).
       if array_function b \<noteq> []
       then rbind (process_function sys fm b) (\<lambda>(e, k). Inr (e, n + k))
       else Inr (ARRAY b, n))"
| "functions_entry sys fm (OBJECT x) =
     rbind (functions_object sys fm x) (\<lambda>(y, n). Inr (OBJECT y, n))"
| "functions_entry sys fm e = Inr (e, 0)"
| "functions_array sys fm (Array f cs p) =
     rbind (map_chg (functions_concat sys fm) cs) (\<lambda>(cs', n). Inr (Array f cs' p, n))"
| "functions_object sys fm (Object ms p) =
     rbind (map_chg (on_value_chg (functions_concat sys fm)) ms) (\<lambda>(ms', n). Inr (Object ms' p, n))"

definition phase2_functions :: "system \<Rightarrow> function_map \<Rightarrow> object \<Rightarrow> error + (object \<times> nat)" where
  "phase2_functions sys fm x = functions_object sys fm x"

section \<open>The contract of a function\<close>

text \<open>
  Data: sorted maps and no function call, asterisk or reference. What the functions that read
  JAXN give is data.
\<close>

definition data_node :: "node \<Rightarrow> bool" where
  "data_node n \<longleftrightarrow> sorted_node n \<and> resolved_node n"

lemma data_node_simps [simp]:
  "data_node (Node_array a) \<longleftrightarrow> array_function a = []"
  "data_node (Node_object (Object ms p)) \<longleftrightarrow> om_inv ms"
  "data_node (Node_concat c)" "data_node (Node_entry (ARRAY a))" "data_node (Node_entry (OBJECT x))"
  "atomic e \<Longrightarrow> data_node (Node_entry e)"
  by (simp_all add: data_node_def) (cases e; simp)

interpretation consumer_data: consumer_invariant data_node
  by unfold_locales simp_all

lemma data_wf: "all_entry data_node e \<Longrightarrow> wf_entry e"
  by (erule all_mono(1) [rotated]) (simp add: data_node_def)

text \<open>
  The contract: a function that is not ready leaves the entry alone, and a function that is
  called gives data or one of its arguments.
\<close>

locale config_function =
  fixes f :: config_function
  assumes unready: "f e = Inr (e', False) \<Longrightarrow> e' = e"
    and called: "f (ARRAY a) = Inr (e', True) \<Longrightarrow>
      all_entry data_node e' \<or> (\<exists>c \<in> set (array_list a). concat_list c = [e'])"
begin

lemma called_wf: "f (ARRAY a) = Inr (e', b) \<Longrightarrow> wf_array a \<Longrightarrow> wf_entry e'"
  using unready [of "ARRAY a" e'] called [of a e'] data_wf [of e']
  by (cases b; cases a) (auto simp: wf_concat_iff)

lemma called_count:
  assumes "f (ARRAY a) = Inr (e', True)" and data: "\<And>n. resolved_node n \<Longrightarrow> w n = 0"
  shows "count_entry w e' + w (Node_array a) \<le> count_array w a"
proof (cases "all_entry data_node e'")
  case True
  then have "count_entry w e' = 0"
    using all_mono(1) [of data_node "\<lambda>n. w n = 0" e'] data by (simp add: count_zero_iff data_node_def)
  then show ?thesis by (cases a) simp
next
  case False
  with called [OF assms(1)] obtain c where c: "c \<in> set (array_list a)" "concat_list c = [e']" by blast
  from c(2) have "count_entry w e' \<le> count_concat w c" by (cases c) simp
  also have "\<dots> \<le> (\<Sum>c \<leftarrow> array_list a. count_concat w c)"
    using c(1) by (simp add: member_le_sum_list)
  finally show ?thesis by (cases a) simp
qed

end

lemma catch_unready_Inr:
  "catch_unready e r u = Inr (e', b) \<longleftrightarrow>
     r = Inl Arguments_unready \<and> e' = e \<and> b = u \<or> r = Inr (e', b)"
  by (auto simp: catch_unready_def split: sum.splits)

lemma wrap_1_cases:
  assumes "wrap_1 sys x e = Inr (e', b)"
  obtains (unready) "e' = e" "\<not> b"
  | (called) a s r where "b" "e = ARRAY a" "function_traits_string sys a 0 = Inr s"
      "x (array_position a) s = Inr r" "e' = function_traits_put r"
  using assms
  by (auto simp: wrap_1_def catch_unready_Inr res_simps entry_array_def split: entry.splits)

lemma wrap_1_function:
  assumes "\<And>p s r. x p s = Inr r \<Longrightarrow> all_entry data_node (function_traits_put r)"
  shows "config_function (wrap_1 sys x)"
  by unfold_locales (auto elim!: wrap_1_cases dest: assms)

lemma default_loop_result:
  "default_loop e p cs = Inr (e', b) \<Longrightarrow>
     (if b then \<exists>c \<in> set cs. concat_list c = [e'] else e' = e)"
  by (induction e p cs rule: default_loop.induct) (auto split: list.splits entry.splits if_splits)

interpretation binary_builtin: config_function "wrap_1 sys binary_function" for sys
  by (rule wrap_1_function) (auto simp: binary_function_def)

interpretation string_builtin: config_function "wrap_1 sys string_function" for sys
  by (rule wrap_1_function) (auto simp: string_function_def)

interpretation env_builtin: config_function "wrap_1 sys (env_function sys)" for sys
  by (rule wrap_1_function) (auto simp: env_function_def res_simps)

interpretation read_builtin: config_function "wrap_1 sys (read_function sys)" for sys
  by (rule wrap_1_function) (auto simp: read_function_def res_simps)

interpretation shell_builtin: config_function "wrap_1 sys (shell_function sys)" for sys
  by (rule wrap_1_function) (auto simp: shell_function_def res_simps)

interpretation split_builtin: config_function "wrap_1 sys (split_function sys)" for sys
  by (rule wrap_1_function)
    (auto simp: split_function_def concat_init_def split: prod.splits if_splits)

interpretation jaxn_builtin: config_function "wrap_1 sys (jaxn_function sys)" for sys
  by (rule wrap_1_function)
    (auto simp: jaxn_function_def res_simps dest: consumer_data.jaxn_run_keeps
      split: prod.splits option.splits slot.splits)

interpretation env_if_builtin: config_function "wrap_2 sys (env_if_function sys)" for sys
  by unfold_locales
    (auto simp: wrap_2_def env_if_function_def res_simps catch_unready_Inr entry_array_def
      split: entry.splits)

interpretation default_builtin: config_function "wrap default_function"
proof
  fix e e'
  assume "wrap default_function e = Inr (e', False)"
  then show "e' = e"
    by (auto simp: wrap_def catch_unready_Inr default_function_def res_simps
        dest!: default_loop_result split: if_splits)
next
  fix a e'
  assume "wrap default_function (ARRAY a) = Inr (e', True)"
  then show "all_entry data_node e' \<or> (\<exists>c \<in> set (array_list a). concat_list c = [e'])"
    by (auto simp: wrap_def catch_unready_Inr default_function_def res_simps entry_array_def
        dest!: default_loop_result split: if_splits)
qed

lemma print_function_result:
  assumes "print_function sys e = Inr (e', b)"
  shows "if b then \<exists>s p. e' = STRING s p else e' = e"
proof -
  from assms obtain a where a: "e = ARRAY a"
    by (auto simp: print_function_def entry_array_def res_simps split: entry.splits)
  with assms obtain c where "array_list a = [c]"
    by (cases "array_list a"; cases "tl (array_list a)") (auto simp: print_function_def entry_array_def)
  with assms a show ?thesis
    by (auto simp: print_function_def entry_array_def res_simps split: if_splits)
qed

interpretation print_builtin: config_function "wrap (print_function sys)" for sys
  by unfold_locales (auto simp: wrap_def catch_unready_Inr dest!: print_function_result)

end
