(* ===== verification/Config_Calls.thy ===== *)
theory Config_Calls
  imports Config_Functions
begin

text \<open>
  What the pass over function calls does: the assertions of the function \<open>parse\<close>, the
  well-formedness of the results, and the progress of the pass, which rests on the contract
  of \<open>Config_Functions\<close> for every function of the library.
\<close>

section \<open>The function parse\<close>

text \<open>All stores of the parse start with the same name, so the root has no other member.\<close>

definition rooted_at :: "string \<Rightarrow> key1 \<Rightarrow> bool" where
  "rooted_at n k \<longleftrightarrow> (\<exists>p t. k = K1_name n p # t)"

definition no_other_member :: "string \<Rightarrow> object \<Rightarrow> bool" where
  "no_other_member n x \<longleftrightarrow> fst ` set (object_map x) \<subseteq> {n}"

definition inside :: "string \<Rightarrow> state \<Rightarrow> bool" where
  "inside n st \<longleftrightarrow> rooted_at n (st_prefix st @ st_suffix st) \<and> no_other_member n (st_root st)"

definition stays_inside :: "string \<Rightarrow> state \<Rightarrow> state \<Rightarrow> bool" where
  "stays_inside n a b \<longleftrightarrow> same_keys a b \<and> (inside n a \<longrightarrow> inside n b)"

definition stays_inside_but_generation :: "string \<Rightarrow> state \<Rightarrow> state \<Rightarrow> bool" where
  "stays_inside_but_generation n a b \<longleftrightarrow> same_keys_but_generation a b \<and> (inside n a \<longrightarrow> inside n b)"

lemma try_emplace_new_names:
  "try_emplace k c m = (m', d, b) \<Longrightarrow> fst ` set m' \<subseteq> insert k (fst ` set m)"
proof -
  assume "try_emplace k c m = (m', d, b)"
  then have "m' = m \<or> m' = om_put k c m" by (auto simp: try_emplace_def split: option.splits)
  then show ?thesis by (elim disjE) (auto simp: keys_om_put)
qed

lemma rooted_at_append: "rooted_at n k \<Longrightarrow> rooted_at n (k @ l)"
  by (auto simp: rooted_at_def)

lemma rooted_at_append_assoc: "rooted_at n (k @ l) \<Longrightarrow> rooted_at n (k @ l @ m)"
  using rooted_at_append [of n "k @ l" m] by simp

lemma store_inside:
  assumes "store extra f mode st = Inr st'" "inside n st"
  shows "no_other_member n (st_root st')"
proof -
  from assms(1) obtain x where x: "phase1_append_object (st_root st)
      (st_prefix st @ st_suffix st @ extra) f mode = Inr x" "st' = st\<lparr>st_root := x\<rparr>"
    by (auto simp: store_def res_simps)
  have "rooted_at n (st_prefix st @ st_suffix st @ extra)"
    using assms(2) by (simp add: inside_def rooted_at_append_assoc)
  then obtain p k where path: "st_prefix st @ st_suffix st @ extra = K1_name n p # k"
    by (auto simp: rooted_at_def)
  from x(1) obtain ms d b d' where ms:
    "try_emplace n (concat_init p) (object_map (st_root st)) = (ms, d, b)"
    "x = Object (om_put n d' ms) (object_position (st_root st))"
    unfolding path phase1_append_object_iff by auto
  have "fst ` set ms \<subseteq> {n}"
    using try_emplace_new_names [OF ms(1)] assms(2) by (auto simp: inside_def no_other_member_def)
  then show ?thesis by (simp add: no_other_member_def x(2) ms(2) keys_om_put)
qed

lemma inside_key1_guard:
  "inside n st \<Longrightarrow> inside n (key1_guard k st)" "inside n st \<Longrightarrow> inside n (key1_guard_append p st)"
  by (simp_all add: inside_def key1_guard_def key1_guard_append_def rooted_at_append_assoc)

lemma inside_same_keys:
  "same_keys a b \<Longrightarrow> inside n a \<Longrightarrow> no_other_member n (st_root b) \<Longrightarrow> inside n b"
  by (simp add: inside_def same_keys_def)

lemma value_list_inside:
  assumes "value_list_action st = Inr st'" "same_keys_but_generation st st'" "inside n st"
  shows "inside n st'"
proof -
  obtain p t where "st_prefix st @ st_suffix st = K1_name n p # t"
    using assms(3) by (auto simp: inside_def rooted_at_def)
  moreover have "list_all2 same_part (st_prefix st @ st_suffix st) (st_prefix st' @ st_suffix st')"
    using assms(2) by (simp add: same_keys_but_generation_def list_all2_appendI)
  ultimately have "rooted_at n (st_prefix st' @ st_suffix st')"
    by (auto simp: rooted_at_def list_all2_Cons1 elim!: same_part.elims)
  moreover have "st_root st' = st_root st"
    using assms(1) by (auto simp: value_list_action_def Let_def res_simps split: if_splits)
  ultimately show ?thesis using assms(3) by (simp add: inside_def)
qed

lemma guard_inside:
  assumes "inside n st'" "inside n st"
    and "acts (\<lambda>_. same_keys st) (\<lambda>_. True) st' (key1_guard_leave m st')"
  shows "acts (\<lambda>_. stays_inside n st) (\<lambda>_. True) st' (key1_guard_leave m st')"
proof (cases "key1_guard_leave m st'")
  case (Inr st2)
  then have "st_root st2 = st_root st'" by (auto simp: key1_guard_leave_def split: if_splits)
  then show ?thesis using assms Inr inside_same_keys [of st st2 n]
    by (simp add: acts_def stays_inside_def inside_def)
qed (simp add: acts_def)

lemma flag_inside:
  assumes st: "st_member st = []" "k \<noteq> []" "action \<in> {temporary_action, permanent_action}"
    and "rbind (key1_rule_action k st) action = Inr st'" "inside n st"
  shows "no_other_member n (st_root st')"
proof -
  obtain b where b: "rbind (key1_rule_action k st) action =
      rbind (store k (set_temporary b) Phase1_implicit (st\<lparr>st_member := k\<rparr>))
        (\<lambda>st. Inr (st\<lparr>st_member := []\<rparr>))"
    by (rule flag_store [OF st])
  from assms(4) obtain st1 where "store k (set_temporary b) Phase1_implicit (st\<lparr>st_member := k\<rparr>) = Inr st1"
    "st_root st' = st_root st1"
    unfolding b by (auto simp: res_simps)
  moreover have "inside n (st\<lparr>st_member := k\<rparr>)" using assms(5) by (simp add: inside_def)
  ultimately show ?thesis using store_inside by metis
qed

lemma acts_Inr: "acts R E st x \<Longrightarrow> x = Inr st' \<Longrightarrow> R st st'"
  by (simp add: acts_def)

interpretation inside_name: parse_relation env
  "\<lambda>d st. st_suffix st \<noteq> [] \<and> st_member st = []" "\<lambda>d st. st_member st = []"
  "stays_inside n" "stays_inside_but_generation n" "\<lambda>_. True" for env n
proof
  fix d f mode and st :: state
  assume "st_suffix st \<noteq> [] \<and> st_member st = []"
  then have "acts same_keys phase1_error st (store [] f mode st)" using store_keys by blast
  then show "acts (stays_inside n) (\<lambda>_. True) st (store [] f mode st)"
    using store_inside [of "[]" f mode st] inside_same_keys
    by (simp add: acts_def stays_inside_def split: sum.splits)
next
  fix d action and k :: key1 and st :: state
  assume *: "st_member st = []" "k \<noteq> []" "action \<in> {temporary_action, permanent_action}"
  from flag_keys [OF *] flag_inside [OF *] inside_same_keys
  show "acts (stays_inside n) (\<lambda>_. True) st (rbind (key1_rule_action k st) action)"
    by (simp add: acts_def stays_inside_def split: sum.splits)
next
  fix d and st :: state
  assume "st_suffix st \<noteq> [] \<and> st_member st = []"
  then have "acts same_keys_but_generation generation_error st (value_list_action st)"
    using value_list_keys by blast
  then show "acts (stays_inside_but_generation n) (\<lambda>_. True) st (value_list_action st)"
    using value_list_inside by (simp add: acts_def stays_inside_but_generation_def split: sum.splits)
next
  fix d and a b :: state
  assume "st_suffix a \<noteq> [] \<and> st_member a = []" "stays_inside_but_generation n a b"
  then show "st_suffix b \<noteq> [] \<and> st_member b = []"
    using keys_stay(1,2) [of a b] by (simp add: stays_inside_but_generation_def)
next
  fix k and st st' :: state
  assume *: "stays_inside_but_generation n (key1_guard k st) st'"
  then have "acts (\<lambda>_. same_keys st) (\<lambda>_. True) st' (key1_guard_leave (length (st_prefix st)) st')"
    by (intro guard_keys(1) [of k]) (simp add: stays_inside_but_generation_def)
  then show "acts (\<lambda>_. stays_inside n st) (\<lambda>_. True) st' (key1_guard_leave (length (st_prefix st)) st')"
    using * guard_inside [of n st' st] inside_key1_guard(1) [of n st k]
    by (cases "inside n st")
      (auto simp: stays_inside_but_generation_def acts_def stays_inside_def split: sum.splits)
next
  fix p and st st' :: state
  assume *: "stays_inside_but_generation n (key1_guard_append p st) st'"
  then have "acts (\<lambda>_. same_keys st) (\<lambda>_. True) st' (key1_guard_leave (length (st_prefix st)) st')"
    by (intro guard_keys(2) [of p]) (simp add: stays_inside_but_generation_def)
  then show "acts (\<lambda>_. stays_inside n st) (\<lambda>_. True) st' (key1_guard_leave (length (st_prefix st)) st')"
    using * guard_inside [of n st' st] inside_key1_guard(2) [of n st p]
    by (cases "inside n st")
      (auto simp: stays_inside_but_generation_def acts_def stays_inside_def split: sum.splits)
next
  fix a b c
  assume "stays_inside n a b" "stays_inside n b c"
  then show "stays_inside n a c" using same_keys_laws(2) [of a b c] by (simp add: stays_inside_def)
next
  fix a b c
  assume "stays_inside_but_generation n a b" "stays_inside_but_generation n b c"
  then show "stays_inside_but_generation n a c"
    using same_keys_but_generation_trans [of a b c] by (simp add: stays_inside_but_generation_def)
next
  fix d f mode and st st' :: state
  assume "st_suffix st \<noteq> [] \<and> st_member st = []" "store [] f mode st = Inr st'"
  then show "st_member st' = []" using keys_stay(4) [of "[]" f mode st st'] by simp
next
  fix d and a b :: state
  assume "st_member a = []" "stays_inside n a b"
  then show "st_member b = []" using keys_stay(3) [of a b] by (simp add: stays_inside_def)
qed (simp_all add: stays_inside_def stays_inside_but_generation_def same_keys_laws(1,3-5)
    key1_guard_def key1_guard_append_def inside_def same_keys_def include_action_def inc_if_action_def)

text \<open>Every value stores something, and what is stored stays.\<close>

definition stored :: "state \<Rightarrow> bool" where
  "stored st \<longleftrightarrow> object_map (st_root st) \<noteq> []"

lemma om_put_nonempty [simp]: "om_put k v m \<noteq> []"
  using keys_om_put [of k v m] by auto

lemma store_stored: "store extra f mode st = Inr st' \<Longrightarrow> stored st'"
  by (auto simp: store_def res_simps phase1_append_object_iff stored_def)

lemma stored_grows: "stored a \<Longrightarrow> grows a b \<Longrightarrow> stored b"
  by (auto simp: stored_def grows_def om_keys_def)

lemma ends_stored:
  "stored st \<Longrightarrow> ends grows E st n x \<Longrightarrow> x = Inr (st', s') \<Longrightarrow> stored st'"
  using stored_grows by auto

lemma sor_Inr:
  "sor a b st s = Inr x \<longleftrightarrow> a st s = Inr (Some x) \<or> a st s = Inr None \<and> b st s = Inr x"
  by (cases "a st s") (auto simp: sor_def split: option.splits)

lemma value_part_stored:
  assumes "rule_ok (\<lambda>_. True) grows (\<lambda>_. True) vp" "rule_ok (\<lambda>_. True) grows (\<lambda>_. True) mem"
    and "value_part_body env pos vp mem st s = Inr (st', s')"
  shows "stored st'"
proof -
  have elements: "stored st1 \<Longrightarrow> element_list env pos stop vp st1 r = Inr (st', s') \<Longrightarrow> stored st'"
    if "\<And>s r. stop s = Some r \<Longrightarrow> length r \<le> length s" for st1 r stop
    using ends_stored [OF _ loop_okD [OF representation.element_list_ok [OF assms(1) that]]] by blast
  have members: "stored st1 \<Longrightarrow> member_list env stop mem st1 r = Inr (st', s') \<Longrightarrow> stored st'"
    if "\<And>s r. stop s = Some r \<Longrightarrow> length r \<le> length s" for st1 r stop
    using ends_stored [OF _ loop_okD [OF representation.member_list_ok [OF assms(2) that]]] by blast
  consider (array) "array_rule env pos vp st s = Inr (Some (st', s'))"
    | (object) "object_rule env pos mem st s = Inr (Some (st', s'))"
    | (bracketed) "bracketed_value env pos vp st s = Inr (Some (st', s'))"
    | (jaxn) "jaxn_value env pos st s = Inr (st', s')"
    using assms(3) unfolding value_part_body_def sor_Inr by blast
  then show ?thesis
  proof cases
    case array
    then show ?thesis using elements [OF less_imp_le [OF take_rule_less]]
      by (auto simp: array_rule_def begin_array_action_def res_simps dest!: store_stored split: option.splits)
  next
    case object
    then show ?thesis using members [OF less_imp_le [OF take_rule_less]]
      by (auto simp: object_rule_def begin_object_action_def res_simps dest!: store_stored split: option.splits)
  next
    case bracketed
    then show ?thesis using elements [OF less_imp_le [OF one_rule_less]]
      by (auto simp: bracketed_value_def extension_value_def function_name_action_def reference_value_def
          Let_def res_simps dest!: store_stored split: option.splits if_splits)
  next
    case jaxn
    obtain ms res where "single_value_rule env pos s = (ms, res)"
      by (cases "single_value_rule env pos s")
    with jaxn show ?thesis
      by (cases res; cases "take_rule (\<lambda>_. Some (projr res)) s")
        (auto simp: jaxn_value_def res_simps split: slot.split_asm, metis slot.exhaust store_stored)
  qed
qed


text \<open>
  The parse of the function: the root has exactly the one member, so the first assertion
  behind the parse holds, and the entry taken from it is well-formed.
\<close>

lemma with_guard_root:
  assumes "with_guard enter body st s = Inr (st', r)"
  obtains st1 where "body (enter st) s = Inr (st1, r)" "st_root st' = st_root st1"
  using assms by (auto simp: with_guard_def key1_guard_leave_def res_simps split: if_splits)

lemma value_rule_part:
  assumes "value_rule env depth pos st s = Inr (st', s')"
  obtains r where "value_part env depth pos st (wss env s) = Inr (st', r)"
  using assms by (auto simp: value_rule_def res_simps split: option.splits)

definition parse_state :: "system \<Rightarrow> position \<Rightarrow> state" where
  "parse_state sys p = key1_guard [K1_name [CHR 0x00] p] (state_init (initial_flag sys))"

lemma parse_state_inside: "inside [CHR 0x00] (parse_state sys p)"
  by (simp add: parse_state_def inside_def key1_guard_def state_init_def rooted_at_def no_other_member_def)

lemma parsed_root:
  assumes "value_part env depth pos (parse_state sys p) s = Inr (st, r)"
  shows "wf_object (st_root st)" "\<exists>c. object_map (st_root st) = [([CHR 0x00], c)]"
proof -
  have "ends grows (\<lambda>_. True) (parse_state sys p) (length s)
      (value_part env depth pos (parse_state sys p) s)"
    by (rule representation.value_part_ends) simp
  moreover have "wf_object (st_root (parse_state sys p))"
    by (simp add: parse_state_def key1_guard_def state_init_def om_inv_def)
  ultimately show wf: "wf_object (st_root st)" using assms by (simp add: grows_def)
  have "ends (stays_inside [CHR 0x00]) (\<lambda>_. True) (parse_state sys p) (length s)
      (value_part env depth pos (parse_state sys p) s)"
    by (rule inside_name.value_part_ends) (simp add: parse_state_def key1_guard_def state_init_def)
  with assms parse_state_inside have other: "no_other_member [CHR 0x00] (st_root st)"
    by (simp add: stays_inside_def inside_def)
  obtain d where d: "depth = Suc d" using assms by (cases depth) auto
  have vp: "rule_ok (\<lambda>_. True) grows (\<lambda>_. True) (value_part env d pos)"
    and files: "\<And>pos. loop_ok (\<lambda>_. True) grows (\<lambda>_. True) (config_file env d pos)"
    using representation.parse_rules_ok by blast+
  have "stored st"
    by (rule value_part_stored [OF vp representation.member_rule_ok [OF vp files]])
      (use assms d in simp)
  then obtain k c ms where ms: "object_map (st_root st) = (k, c) # ms"
    by (cases "object_map (st_root st)") (auto simp: stored_def)
  with other have "k = [CHR 0x00]" "fst ` set ms \<subseteq> {[CHR 0x00]}" by (auto simp: no_other_member_def)
  moreover have "om_inv (object_map (st_root st))" using wf by (cases "st_root st") simp
  ultimately have "ms = []" using ms by (cases ms) (auto simp: om_inv_def)
  with ms \<open>k = [CHR 0x00]\<close> show "\<exists>c. object_map (st_root st) = [([CHR 0x00], c)]" by simp
qed

lemma parse_function_cases:
  assumes "function_traits_string sys a 0 = Inr s"
  obtains (error) e where "parse_function sys a = Inl e"
      "value_rule (reader sys) (stack_room sys) (text_positions sys ''process_parse_function'' s)
        (parse_state sys (array_position a)) s = Inl e"
  | (root) c st r where
      "value_rule (reader sys) (stack_room sys) (text_positions sys ''process_parse_function'' s)
        (parse_state sys (array_position a)) s = Inr (st, r)"
      "st_root st = Object [([CHR 0x00], c)] (object_position (st_root st))" "wf_concat c"
      "parse_function sys a =
        (case concat_list c of
           [e] \<Rightarrow> Inr e
         | _ \<Rightarrow> Inl (Assert_failed ''st.root.object.begin()->second.concat.size() == 1''))"
proof (cases "value_rule (reader sys) (stack_room sys) (text_positions sys ''process_parse_function'' s)
        (parse_state sys (array_position a)) s")
  case (Inl e)
  with assms show thesis by (intro error [of e]) (simp_all add: parse_function_def with_guard_def parse_state_def)
next
  case (Inr x)
  then obtain st r where x: "x = (st, r)" by (cases x)
  with Inr obtain r' where vp: "value_part (reader sys) (stack_room sys)
      (text_positions sys ''process_parse_function'' s) (parse_state sys (array_position a))
      (wss (reader sys) s) = Inr (st, r')"
    using value_rule_part by blast
  from parsed_root [OF vp] obtain c where c: "object_map (st_root st) = [([CHR 0x00], c)]" by blast
  then have object: "st_root st = Object [([CHR 0x00], c)] (object_position (st_root st))"
    by (cases "st_root st") simp
  with parsed_root(1) [OF vp] have wf: "wf_concat c" by (metis all_object.simps list.set_intros(1) split_conv)
  have "key1_guard_leave 0 st = Inr (st\<lparr>st_suffix := st_prefix st, st_prefix := []\<rparr>)"
    by (simp add: key1_guard_leave_def)
  with assms Inr x c show thesis
    by (intro root [OF _ object wf]) (simp_all add: parse_function_def with_guard_def parse_state_def)
qed

lemma parse_function_wf: "parse_function sys a = Inr e \<Longrightarrow> wf_entry e"
proof -
  assume parsed: "parse_function sys a = Inr e"
  then obtain s where "function_traits_string sys a 0 = Inr s" by (auto simp: parse_function_def res_simps)
  then show ?thesis
    by (rule parse_function_cases) (use parsed in \<open>auto simp: wf_concat_iff split: list.splits\<close>)
qed


section \<open>The pass\<close>

text \<open>The contract of the table of functions: every function in it keeps its contract.\<close>

locale function_table =
  fixes sys :: system and fm :: function_map
  assumes table: "om_find n fm = Some f \<Longrightarrow> config_function f"
begin

lemma process_function_cases:
  assumes "process_function sys fm a = Inr (e', n)"
  obtains (parse) "array_function a = ''parse''" "n = 1" "e' = ARRAY a \<or> parse_function sys a = Inr e'"
  | (unready) "array_function a \<noteq> ''parse''" "n = 0" "e' = ARRAY a"
  | (called) f where "array_function a \<noteq> ''parse''" "n = 1" "config_function f"
      "f (ARRAY a) = Inr (e', True)"
proof (cases "array_function a = ''parse''")
  case True
  then show thesis using assms parse
    by (auto simp: process_function_def process_parse_function_def catch_unready_Inr res_simps)
next
  case False
  then obtain f b where f: "om_find (array_function a) fm = Some f" "f (ARRAY a) = Inr (e', b)"
    "n = (if b then 1 else 0)"
    using assms by (auto simp: process_function_def res_simps split: option.splits)
  show thesis
  proof (cases b)
    case True
    with f show thesis by (intro called [OF False _ table [OF f(1)]]) simp_all
  next
    case b: False
    with f have "e' = ARRAY a" by (intro config_function.unready [OF table [OF f(1)]]) simp
    with b False f(3) show thesis by (intro unready) simp_all
  qed
qed

lemma functions_entry_array:
  assumes "functions_entry sys fm (ARRAY a) = Inr (e', n)"
  obtains (list) b where "functions_array sys fm a = Inr (b, n)" "array_function b = []" "e' = ARRAY b"
  | (fcall) b m k where "functions_array sys fm a = Inr (b, m)" "array_function b \<noteq> []"
      "process_function sys fm b = Inr (e', k)" "n = m + k"
proof -
  obtain b m where b: "functions_array sys fm a = Inr (b, m)" using assms by (auto simp: res_simps)
  show thesis
  proof (cases "array_function b = []")
    case True
    with assms b show thesis by (intro list [of b]) simp_all
  next
    case False
    with assms b obtain k where "process_function sys fm b = Inr (e', k)" "n = m + k"
      by (auto simp: res_simps)
    with b False show thesis by (intro fcall)
  qed
qed

lemma functions_entry_other:
  "kind e \<noteq> KIND_ARRAY \<Longrightarrow> kind e \<noteq> KIND_OBJECT \<Longrightarrow> functions_entry sys fm e = Inr (e, 0)"
  by (cases e) auto

text \<open>A pass that counts no change changes nothing.\<close>

lemma functions_zero:
  "functions_entry sys fm e = Inr (e', 0) \<Longrightarrow> e' = e"
  "functions_array sys fm a = Inr (a', 0) \<Longrightarrow> a' = a"
  "functions_object sys fm x = Inr (x', 0) \<Longrightarrow> x' = x"
  "functions_concat sys fm c = Inr (c', 0) \<Longrightarrow> c' = c"
proof (induction e and a and x and c arbitrary: e' and a' and x' and c' rule: tree_induct)
  case (1 e)
  then show ?case by (cases e) auto
next
  case (3 a)
  from 3(2) show ?case
  proof (cases rule: functions_entry_array)
    case (list b)
    with 3(1) show ?thesis by simp
  next
    case (fcall b m k)
    then have "b = a" using 3(1) by simp
    from fcall(3) show ?thesis by (cases rule: process_function_cases) (use fcall(4) \<open>b = a\<close> in simp_all)
  qed
next
  case (6 f cs p)
  then obtain ds where "a' = Array f ds p" "map_chg (functions_concat sys fm) cs = Inr (ds, 0)"
    by (auto simp: res_simps)
  with map_chg_zero [OF this(2)] 6(1) show ?case by blast
next
  case (7 ms p)
  then obtain ns where ns: "x' = Object ns p" "map_chg (on_value_chg (functions_concat sys fm)) ms = Inr (ns, 0)"
    by (auto simp: res_simps)
  have "ns = ms"
  proof (rule map_chg_zero [OF ns(2)])
    fix m m' assume "m \<in> set ms" "on_value_chg (functions_concat sys fm) m = Inr (m', 0)"
    then show "m' = m" using 7(1) [of "fst m" "snd m"] by (auto simp: res_simps prod_eq_iff)
  qed
  with ns(1) show ?case by simp
next
  case (8 h es)
  then obtain fs where "c' = Concat h fs" "map_chg (functions_entry sys fm) es = Inr (fs, 0)"
    by (auto simp: res_simps)
  with map_chg_zero [OF this(2)] 8(1) show ?case by blast
qed (auto simp: res_simps)

lemma functions_wf:
  "functions_entry sys fm e = Inr (e', n) \<Longrightarrow> wf_entry e \<Longrightarrow> wf_entry e'"
  "functions_array sys fm a = Inr (a', n) \<Longrightarrow> wf_array a \<Longrightarrow> wf_array a'"
  "functions_object sys fm x = Inr (x', n) \<Longrightarrow> wf_object x \<Longrightarrow> wf_object x'"
  "functions_concat sys fm c = Inr (c', n) \<Longrightarrow> wf_concat c \<Longrightarrow> wf_concat c'"
proof (induction e and a and x and c arbitrary: e' n and a' n and x' n and c' n rule: tree_induct)
  case (1 e)
  then show ?case by (cases e) auto
next
  case (3 a)
  from 3(2) show ?case
  proof (cases rule: functions_entry_array)
    case (list b)
    with 3(1,3) show ?thesis by simp
  next
    case (fcall b m k)
    then have b: "wf_array b" using 3(1,3) by simp
    from fcall(3) show ?thesis
      by (cases rule: process_function_cases)
        (use b parse_function_wf config_function.called_wf in auto)
  qed
next
  case (6 f cs p)
  then obtain ds where "a' = Array f ds p" "map_chg (functions_concat sys fm) cs = Inr (ds, n)"
    by (auto simp: res_simps)
  with map_chg_in [OF this(2)] 6(1,3) show ?case by fastforce
next
  case (7 ms p)
  then obtain ns where ns: "x' = Object ns p" "map_chg (on_value_chg (functions_concat sys fm)) ms = Inr (ns, n)"
    by (auto simp: res_simps)
  have "om_inv ns" using 7(3) om_inv_same_keys [OF map_chg_on_value_keys [OF ns(2)]] by simp
  with ns(1) map_chg_on_value_in [OF ns(2)] 7(1,3) show ?case by fastforce
next
  case (8 h es)
  then obtain fs where "c' = Concat h fs" "map_chg (functions_entry sys fm) es = Inr (fs, n)"
    by (auto simp: res_simps)
  with map_chg_in [OF this(2)] 8(1,3) show ?case by fastforce
qed (auto simp: res_simps)

end


text \<open>
  The contract of a weight \<open>w\<close>: data has none, and the weight of a function call, which is at
  least \<open>d\<close> except for \<open>parse\<close>, does not depend on its arguments. Without \<open>parse\<close> every
  counted change then removes the weight of a call.
\<close>

fun w_parse :: "node \<Rightarrow> nat" where
  "w_parse (Node_array a) = (if array_function a = ''parse'' then 1 else 0)"
| "w_parse n = 0"

locale call_weight = function_table +
  fixes w :: "node \<Rightarrow> nat" and d :: nat
  assumes data: "resolved_node n \<Longrightarrow> w n = 0"
    and arguments: "w (Node_array (Array f cs p)) = w (Node_array (Array f cs' p))"
    and call: "f \<noteq> [] \<Longrightarrow> f \<noteq> ''parse'' \<Longrightarrow> d \<le> w (Node_array (Array f cs p))"
begin

lemma process_function_count:
  assumes "process_function sys fm a = Inr (e', n)" "array_function a \<noteq> []" "array_function a \<noteq> ''parse''"
  shows "count_entry w e' + n * d \<le> count_array w a"
  using assms(1)
proof (cases rule: process_function_cases)
  case (called f)
  have "d \<le> w (Node_array a)" using call assms(2,3) by (cases a) simp
  with config_function.called_count [OF called(3,4), of w] data called(2) show ?thesis by simp
qed (use assms(3) in \<open>simp_all add: data\<close>)

lemma functions_count:
  "functions_entry sys fm e = Inr (e', n) \<Longrightarrow> count_entry w_parse e = 0 \<Longrightarrow>
     count_entry w e' + n * d \<le> count_entry w e"
  "functions_array sys fm a = Inr (a', n) \<Longrightarrow> count_array w_parse a = 0 \<Longrightarrow>
     array_function a' = array_function a \<and> count_array w a' + n * d \<le> count_array w a"
  "functions_object sys fm x = Inr (x', n) \<Longrightarrow> count_object w_parse x = 0 \<Longrightarrow>
     count_object w x' + n * d \<le> count_object w x"
  "functions_concat sys fm c = Inr (c', n) \<Longrightarrow> count_concat w_parse c = 0 \<Longrightarrow>
     count_concat w c' + n * d \<le> count_concat w c"
proof (induction e and a and x and c arbitrary: e' n and a' n and x' n and c' n rule: tree_induct)
  case (1 e)
  then show ?case by (cases e) auto
next
  case (3 a)
  have "array_function a \<noteq> ''parse''" using 3(3) by (cases a) (simp split: if_splits)
  moreover from 3(2) show ?case
  proof (cases rule: functions_entry_array)
    case (list b)
    with 3(1,3) show ?thesis by (simp add: data)
  next
    case (fcall b m k)
    with 3(1) [OF fcall(1)] 3(3) have b: "array_function b = array_function a"
      "count_array w b + m * d \<le> count_array w a" by simp_all
    with process_function_count [OF fcall(3)] fcall(2) calculation have
      "count_entry w e' + k * d \<le> count_array w b" by simp
    with b fcall(4) show ?thesis by (simp add: data add_mult_distrib)
  qed
next
  case (6 f cs p)
  then obtain ds where ds: "a' = Array f ds p" "map_chg (functions_concat sys fm) cs = Inr (ds, n)"
    by (auto simp: res_simps)
  have "(\<Sum>c \<leftarrow> ds. count_concat w c) + n * d \<le> (\<Sum>c \<leftarrow> cs. count_concat w c)"
    by (rule map_chg_sum [OF ds(2)]) (use 6(1,3) in auto)
  with ds(1) arguments [of f ds p cs] show ?case by simp
next
  case (7 ms p)
  then obtain ns where ns: "x' = Object ns p" "map_chg (on_value_chg (functions_concat sys fm)) ms = Inr (ns, n)"
    by (auto simp: res_simps)
  have "(\<Sum>(k, c) \<leftarrow> ns. count_concat w c) + n * d \<le> (\<Sum>(k, c) \<leftarrow> ms. count_concat w c)"
    by (rule map_chg_sum [OF ns(2)]) (use 7(1,3) in \<open>fastforce simp: res_simps\<close>)
  with ns(1) show ?case by (simp add: data)
next
  case (8 h es)
  then obtain fs where fs: "c' = Concat h fs" "map_chg (functions_entry sys fm) es = Inr (fs, n)"
    by (auto simp: res_simps)
  have "(\<Sum>e \<leftarrow> fs. count_entry w e) + n * d \<le> (\<Sum>e \<leftarrow> es. count_entry w e)"
    by (rule map_chg_sum [OF fs(2)]) (use 8(1,3) in auto)
  with fs(1) show ?case by (simp add: data)
qed (auto simp: res_simps data)

end

lemma config_functions_contract:
  assumes "om_find n (config_functions sys) = Some f"
  shows "config_function f"
proof -
  have "\<forall>(n, f) \<in> set (config_functions sys). config_function f"
    by (simp add: config_functions_def binary_builtin.config_function_axioms
        default_builtin.config_function_axioms env_builtin.config_function_axioms
        env_if_builtin.config_function_axioms jaxn_builtin.config_function_axioms
        print_builtin.config_function_axioms read_builtin.config_function_axioms
        shell_builtin.config_function_axioms split_builtin.config_function_axioms
        string_builtin.config_function_axioms)
  with om_find_in [OF assms] show ?thesis by blast
qed

interpretation builtins: function_table sys "config_functions sys" for sys
  by (rule function_table.intro) (rule config_functions_contract)

interpretation calls_w_function: call_weight sys "config_functions sys" w_function 1 for sys
proof
  fix n :: node
  show "resolved_node n \<Longrightarrow> w_function n = 0" by (cases n rule: w_function.cases) simp_all
qed simp_all

interpretation calls_w_reference: call_weight sys "config_functions sys" w_reference 0 for sys
proof
  fix n :: node
  show "resolved_node n \<Longrightarrow> w_reference n = 0" by (cases n rule: w_reference.cases) simp_all
qed simp_all

interpretation calls_w_asterisk: call_weight sys "config_functions sys" w_asterisk 0 for sys
proof
  fix n :: node
  show "resolved_node n \<Longrightarrow> w_asterisk n = 0" by (cases n rule: w_asterisk.cases) simp_all
qed simp_all

interpretation calls_w_parse: call_weight sys "config_functions sys" w_parse 0 for sys
proof
  fix n :: node
  show "resolved_node n \<Longrightarrow> w_parse n = 0" by (cases n rule: w_parse.cases) simp_all
qed simp_all


section \<open>The words of a text\<close>

lemma split_loop_word:
  assumes "w \<noteq> []" "\<forall>c \<in> set w. word_char c" "\<forall>c \<in> set sep. space_rule c"
    and "r \<noteq> [] \<Longrightarrow> word_char (hd r)" "r \<noteq> [] \<Longrightarrow> sep \<noteq> []"
  shows "split_loop (w @ sep @ r) =
    (case split_loop r of (ws, t) \<Rightarrow> ((w, length (w @ sep @ r)) # ws, t))"
proof -
  have head: "sep @ r = [] \<or> \<not> word_char (hd (sep @ r))"
    using assms(3,5) by (cases sep; cases r) (auto simp: word_char_def)
  then have "takeWhile word_char (sep @ r) = []" "dropWhile word_char (sep @ r) = sep @ r"
    by (cases "sep @ r"; simp)+
  then have "takeWhile word_char (w @ sep @ r) = w" "dropWhile word_char (w @ sep @ r) = sep @ r"
    using assms(2) by (simp_all add: takeWhile_append2 dropWhile_append2)
  moreover have "dropWhile space_rule (sep @ r) = r"
    using assms(3,4) by (cases r) (auto simp: dropWhile_append word_char_def)
  ultimately show ?thesis using assms(1) by (simp add: split_loop.simps [of "w @ sep @ r"])
qed

definition separated_words :: "(string \<times> string) list \<Rightarrow> bool" where
  "separated_words ps \<longleftrightarrow>
     (\<forall>(w, sep) \<in> set ps. w \<noteq> [] \<and> (\<forall>c \<in> set w. word_char c) \<and> (\<forall>c \<in> set sep. space_rule c)) \<and>
     (\<forall>(w, sep) \<in> set (butlast ps). sep \<noteq> [])"

definition joined :: "(string \<times> string) list \<Rightarrow> string" where
  "joined ps = concat (map (\<lambda>(w, sep). w @ sep) ps)"

lemma split_loop_joined:
  "separated_words ps \<Longrightarrow> \<exists>ws. split_loop (joined ps) = (ws, []) \<and> map fst ws = map fst ps"
proof (induction ps)
  case Nil
  then show ?case by (simp add: joined_def split_loop.simps [of "[]"])
next
  case (Cons q ps)
  obtain w sep where q: "q = (w, sep)" by (cases q)
  from Cons(2) have ps: "separated_words ps"
    by (cases ps) (auto simp: separated_words_def)
  with Cons(1) obtain ws where ws: "split_loop (joined ps) = (ws, [])" "map fst ws = map fst ps" by blast
  have hd: "joined ps \<noteq> [] \<Longrightarrow> word_char (hd (joined ps))"
    using ps by (cases ps) (auto simp: separated_words_def joined_def)
  have "joined ps \<noteq> [] \<Longrightarrow> sep \<noteq> []"
    using Cons(2) q by (cases ps) (auto simp: separated_words_def joined_def)
  with split_loop_word [of w sep "joined ps"] hd Cons(2) q ws show ?case
    by (auto simp: separated_words_def joined_def)
qed

lemma joined_head: "separated_words ps \<Longrightarrow> \<forall>c \<in> set lead. space_rule c \<Longrightarrow>
    dropWhile space_rule (lead @ joined ps) = joined ps"
  by (cases ps) (auto simp: separated_words_def joined_def word_char_def dropWhile_append neq_Nil_conv)

section \<open>Ready arguments\<close>

lemma default_loop_ready:
  "default_loop d p cs = Inr (e, True) \<longleftrightarrow>
     (\<exists>nulls c rest. cs = nulls @ c # rest \<and> (\<forall>n \<in> set nulls. \<exists>q. concat_list n = [NULL q]) \<and>
       concat_list c = [e] \<and> kind e \<noteq> KIND_NULL \<and> \<not> ignore_entry e)"
proof (induction cs)
  case (Cons c cs)
  have split: "(\<exists>nulls c' rest. c # cs = nulls @ c' # rest \<and> P nulls \<and> Q c') \<longleftrightarrow>
      P [] \<and> Q c \<or> (\<exists>nulls c' rest. cs = nulls @ c' # rest \<and> P (c # nulls) \<and> Q c')" for P Q
    by (metis append_Cons append_Nil list.inject neq_Nil_conv)
  show ?case
  proof (cases "\<exists>q. concat_list c = [NULL q]")
    case True
    then show ?thesis using Cons unfolding split by auto
  next
    case False
    then have "default_loop d p (c # cs) = Inr (e, True) \<longleftrightarrow>
        concat_list c = [e] \<and> kind e \<noteq> KIND_NULL \<and> \<not> ignore_entry e"
      by (auto split: list.splits entry.splits)
    with False show ?thesis unfolding split by auto
  qed
qed simp


lemma function_traits_string_cases:
  "function_traits_string sys a i = Inr s \<longleftrightarrow>
     i < length (array_list a) \<and>
     ((\<exists>p. concat_list (array_list a ! i) = [STRING s p]) \<or>
      (\<exists>b p. concat_list (array_list a ! i) = [BINARY b p] \<and> s = map char_of_byte b \<and>
        validate_utf8 sys s))"
  "function_traits_string sys a i = Inl Arguments_unready \<longleftrightarrow>
     i < length (array_list a) \<and> 1 < length (concat_list (array_list a ! i))"
proof -
  consider (short) "\<not> i < length (array_list a)"
    | (empty) "i < length (array_list a)" "concat_list (array_list a ! i) = []"
    | (one) e where "i < length (array_list a)" "concat_list (array_list a ! i) = [e]"
    | (more) e e' es where "i < length (array_list a)" "concat_list (array_list a ! i) = e # e' # es"
    by (metis list.exhaust)
  then have "(function_traits_string sys a i = Inr s \<longleftrightarrow>
     i < length (array_list a) \<and>
     ((\<exists>p. concat_list (array_list a ! i) = [STRING s p]) \<or>
      (\<exists>b p. concat_list (array_list a ! i) = [BINARY b p] \<and> s = map char_of_byte b \<and>
        validate_utf8 sys s))) \<and>
    (function_traits_string sys a i = Inl Arguments_unready \<longleftrightarrow>
     i < length (array_list a) \<and> 1 < length (concat_list (array_list a ! i)))"
  proof cases
    case (one e)
    then show ?thesis
      by (cases e) (auto simp: function_traits_string_def function_traits_entry_def Let_def)
  qed (simp_all add: function_traits_string_def function_traits_entry_def)
  then show "function_traits_string sys a i = Inr s \<longleftrightarrow>
     i < length (array_list a) \<and>
     ((\<exists>p. concat_list (array_list a ! i) = [STRING s p]) \<or>
      (\<exists>b p. concat_list (array_list a ! i) = [BINARY b p] \<and> s = map char_of_byte b \<and>
        validate_utf8 sys s))"
    "function_traits_string sys a i = Inl Arguments_unready \<longleftrightarrow>
     i < length (array_list a) \<and> 1 < length (concat_list (array_list a ! i))"
    by blast+
qed

lemma primitive_repackable:
  "primitive_concat c \<Longrightarrow> all_concat repackable_node c \<longleftrightarrow> all_concat single_node c"
proof -
  assume "primitive_concat c"
  then have "all_concat resolved_node c"
    by (rule all_mono(4) [rotated]) (metis (no_types) plain_node.simps resolved_node.simps node.exhaust
        entry.exhaust)
  then show ?thesis unfolding repackable_node_def all_conj by simp
qed


section \<open>A concrete system\<close>

definition system_example :: system where
  "system_example =
     \<lparr>reader = env_example, stack_room = 9, initial_flag = False, left_first = True,
      environment = (\<lambda>name. if name = ''USER'' then Some ''me'' else None),
      read_file = (\<lambda>name. Inl ENOENT), popen = (\<lambda>script. None),
      validate_utf8 = list_all (\<lambda>c. (of_char c :: nat) < 128),
      jaxn_grammar = (\<lambda>s. ([], Some ''text'')), jaxn_text = (\<lambda>v. ''null''),
      text_positions = (\<lambda>name s n. no_position), double_sum = (+)\<rparr>"

abbreviation single :: "entry \<Rightarrow> concat" where
  "single e \<equiv> Concat (head (concat_init no_position)) [e]"

abbreviation call_example :: "string \<Rightarrow> concat list \<Rightarrow> entry" where
  "call_example f cs \<equiv> ARRAY (Array f cs no_position)"

section \<open>Properties\<close>

text \<open>C25: the pass over function calls: it keeps the maps sorted, and when it counts no change
  nothing has changed. Without the function \<open>parse\<close> every counted change removes a function
  call, and references and asterisks do not become more.\<close>

theorem functions_progress:
  "phase2_functions sys (config_functions sys) x = Inr (y, n) \<Longrightarrow> wf_object x \<Longrightarrow>
     wf_object y \<and> (n = 0 \<longrightarrow> y = x) \<and>
     (count_object w_parse x = 0 \<longrightarrow>
        count_object w_function y + n \<le> count_object w_function x \<and>
        count_object w_reference y \<le> count_object w_reference x \<and>
        count_object w_asterisk y \<le> count_object w_asterisk x \<and> count_object w_parse y = 0)"
  using builtins.functions_wf(3) [of sys x y n] builtins.functions_zero(3) [of sys x y]
    calls_w_function.functions_count(3) [of sys x y n] calls_w_reference.functions_count(3) [of sys x y n]
    calls_w_asterisk.functions_count(3) [of sys x y n] calls_w_parse.functions_count(3) [of sys x y n]
  by (auto simp: phase2_functions_def)

abbreviation calling_example :: object where
  "calling_example \<equiv> Object
     [(''a'', single (call_example ''env?'' [single (call_example ''binary'' [single (STRING ''X'' no_position)]),
         single (STRING ''y'' no_position)]))] no_position"

lemma calling_example_run:
  "phase2_functions system_example (config_functions system_example) calling_example =
     Inr (Object [(''a'', single (STRING ''y'' no_position))] no_position, 2)"
  by code_simp

theorem functions_progress_witness:
  "count_object w_function calling_example = 2 \<and> wf_object calling_example"
proof -
  have wf: "wf_object calling_example" by (simp add: om_inv_def)
  from functions_progress [OF calling_example_run wf] wf show ?thesis by simp
qed

text \<open>The function \<open>default\<close> gives its first argument that is not null, if all arguments up to
  this one are ready.\<close>

theorem default_chooses:
  "default_function (ARRAY (Array f cs p)) = Inr (e, True) \<longleftrightarrow>
     (\<exists>nulls c rest. cs = nulls @ c # rest \<and> (\<forall>n \<in> set nulls. \<exists>q. concat_list n = [NULL q]) \<and>
       concat_list c = [e] \<and> kind e \<noteq> KIND_NULL \<and> \<not> ignore_entry e)"
  using default_loop_ready [of "ARRAY (Array f cs p)" p cs e]
  by (cases cs) (simp_all add: default_function_def entry_array_def del: default_loop.simps(2))

theorem default_chooses_witness:
  "default_function (call_example ''default'' [single (NULL no_position), single (STRING ''x'' no_position)]) =
     Inr (STRING ''x'' no_position, True)"
  unfolding default_chooses
  by (rule exI [of _ "[single (NULL no_position)]"]) simp

text \<open>C26: the function \<open>split\<close> finds the words of a text: whatever blanks come before, between
  and behind them.\<close>

theorem split_finds_words:
  assumes "separated_words ps" "\<forall>c \<in> set lead. space_rule c"
  shows "\<exists>cs. split_function sys p (lead @ joined ps) = Inr (Result_entry (ARRAY (Array [] cs p))) \<and>
    map (\<lambda>c. map get_string (concat_list c)) cs = map (\<lambda>(w, sep). [w]) ps"
proof -
  obtain ws where ws: "split_loop (joined ps) = (ws, [])" "map fst ws = map fst ps"
    using split_loop_joined [OF assms(1)] by blast
  have "map (\<lambda>x. [fst x]) ws = map (\<lambda>w. [w]) (map fst ws)" by simp
  also have "\<dots> = map (\<lambda>x. [fst x]) ps" unfolding ws(2) by simp
  finally show ?thesis
    using joined_head [OF assms] ws(1)
    by (simp add: split_function_def get_string_def case_prod_unfold comp_def)
qed

theorem split_finds_words_witness:
  "\<exists>cs. split_function system_example no_position '' ab  c'' =
       Inr (Result_entry (ARRAY (Array [] cs no_position))) \<and>
     map (\<lambda>c. map get_string (concat_list c)) cs = [[''ab''], [''c'']]"
proof -
  have "separated_words [(''ab'', ''  ''), (''c'', [])]"
    by (simp add: separated_words_def word_char_def space_rule_def)
  from split_finds_words [OF this, of "'' ''" system_example no_position]
  show ?thesis by (simp add: space_rule_def joined_def)
qed

text \<open>C27: a string argument: the call has to wait exactly when the argument is there and is a
  pending sum; it gets the string, or the bytes of a binary that is valid UTF-8. Everything
  else is an error: a reference is no string, although the pass over references could still
  replace it, and a missing argument violates an assertion.\<close>

theorem string_argument:
  "(function_traits_string sys a i = Inr s \<longleftrightarrow>
     i < length (array_list a) \<and>
     ((\<exists>p. concat_list (array_list a ! i) = [STRING s p]) \<or>
      (\<exists>b p. concat_list (array_list a ! i) = [BINARY b p] \<and> s = map char_of_byte b \<and>
        validate_utf8 sys s))) \<and>
   (function_traits_string sys a i = Inl Arguments_unready \<longleftrightarrow>
     i < length (array_list a) \<and> 1 < length (concat_list (array_list a ! i))) \<and>
   wrap_1 sys x (ARRAY (Array f [] p)) = Inl (Assert_failed ''f.array.size() > i'') \<and>
   wrap_1 sys x (ARRAY (Array f (Concat h [REFERENCE r] # cs) p)) =
     Inl (Parse_error ''invalid type for string argument'' (entry_position (REFERENCE r)))"
  unfolding function_traits_string_cases
  by (simp add: wrap_1_def entry_array_def function_traits_string_def function_traits_entry_def
      catch_unready_def)

text \<open>C28: the function \<open>print\<close> with a primitive argument succeeds exactly when no concat of the
  argument is empty. A deleted member is empty, so that printing an object with one violates an
  assertion.\<close>

theorem print_succeeds:
  "(is_ok (print_function sys (ARRAY (Array f [c] p))) \<longleftrightarrow>
     \<not> (primitive_concat c \<and> \<not> all_concat single_node c)) \<and>
   print_function sys (ARRAY (Array f [single (OBJECT (Object [(n, clear_concat d)] q))] p)) =
     Inl (Assert_failed ''c.concat.size() == 1'')"
proof
  show "is_ok (print_function sys (ARRAY (Array f [c] p))) \<longleftrightarrow>
     \<not> (primitive_concat c \<and> \<not> all_concat single_node c)"
    using phase5_repack_ok(4) [of "[]" c] primitive_repackable [of c]
    by (simp add: print_function_def entry_array_def statistics_primitive phase5_repack_value_def)
  show "print_function sys (ARRAY (Array f [single (OBJECT (Object [(n, clear_concat d)] q))] p)) =
     Inl (Assert_failed ''c.concat.size() == 1'')"
    by (simp add: print_function_def entry_array_def statistics_primitive phase5_repack_value_def
        clear_concat_def on_member_def)
qed

lemma parse_asserts_other:
  "expected_error e \<Longrightarrow> e \<noteq> Assert_failed ''st.root.object.size() == 1''"
  by (auto simp: expected_error_def phase1_error_def generation_error_def jaxn_error_def)

text \<open>The assertions of the function \<open>parse\<close>: behind the parse the root has exactly one
  member. That this member has exactly one entry fails for an object whose first member is an
  asterisk, because the asterisk becomes an entry of its own.\<close>

theorem parse_root_has_one_member:
  "parse_function sys a \<noteq> Inl (Assert_failed ''st.root.object.size() == 1'') \<and>
   parse_function system_example (Array ''parse'' [single (STRING ''{*=0}'' no_position)] no_position) =
     Inl (Assert_failed ''st.root.object.begin()->second.concat.size() == 1'')"
proof
  show "parse_function sys a \<noteq> Inl (Assert_failed ''st.root.object.size() == 1'')"
  proof (cases "function_traits_string sys a 0")
    case (Inl e)
    then have "e \<noteq> Assert_failed ''st.root.object.size() == 1''"
      by (auto simp: function_traits_string_def function_traits_entry_def Let_def elim!: rbind_InlE
          split: if_splits list.splits entry.splits)
    with Inl show ?thesis by (simp add: parse_function_def)
  next
    case (Inr s)
    then show ?thesis
    proof (cases rule: parse_function_cases)
      case (error e)
      have "e \<noteq> Assert_failed ''st.root.object.size() == 1''"
      proof (cases "value_part (reader sys) (stack_room sys) (text_positions sys ''process_parse_function'' s)
          (parse_state sys (array_position a)) (wss (reader sys) s)")
        case (Inl e')
        have "ends same_keys (\<lambda>e. expected_error e \<or> e = Stack_exhausted) (parse_state sys (array_position a))
          (length (wss (reader sys) s)) (value_part (reader sys) (stack_room sys)
            (text_positions sys ''process_parse_function'' s) (parse_state sys (array_position a))
            (wss (reader sys) s))"
          by (rule keys.value_part_ends) (simp add: parse_state_def key1_guard_def state_init_def)
        with Inl error(2) show ?thesis using parse_asserts_other by (auto simp: value_rule_def)
      next
        case (Inr x)
        with error(2) show ?thesis by (auto simp: value_rule_def split: prod.splits option.splits)
      qed
      with error(1) show ?thesis by simp
    next
      case (root c st r)
      then show ?thesis by (auto split: list.splits)
    qed
  qed
qed code_simp

text \<open>The functions \<open>binary\<close> and \<open>string\<close> are inverse to each other for valid UTF-8.\<close>

lemma char_byte [simp]: "char_of_byte (byte_of_char c) = c"
  by (simp add: char_of_byte_def byte_of_char_def unat_of_nat take_bit_eq_mod)

theorem string_of_binary:
  assumes "validate_utf8 sys s"
    and "wrap_1 sys binary_function (ARRAY (Array f [single (STRING s q)] p)) = Inr (b, True)"
  shows "wrap_1 sys string_function (ARRAY (Array g [single b] p)) = Inr (STRING s p, True)"
proof -
  have "b = BINARY (map byte_of_char s) p"
    using assms(2) by (simp add: wrap_1_def entry_array_def function_traits_string_def
        function_traits_entry_def binary_function_def catch_unready_def)
  then show ?thesis using assms(1)
    by (simp add: wrap_1_def entry_array_def function_traits_string_def
        function_traits_entry_def string_function_def catch_unready_def comp_def Let_def)
qed

theorem string_of_binary_witness:
  "wrap_1 system_example string_function (call_example ''string'' [single (BINARY [97, 98] no_position)]) =
     Inr (STRING ''ab'' no_position, True)"
proof (rule string_of_binary)
  show "validate_utf8 system_example ''ab''" by (simp add: system_example_def)
  show "wrap_1 system_example binary_function (call_example f [single (STRING ''ab'' q)]) =
      Inr (BINARY [97, 98] no_position, True)" for f q
    by code_simp
qed

end
