(* ===== verification/Config_Everything.thy ===== *)
theory Config_Everything
  imports Config_References Config_Asterisks Config_Calls
begin

text \<open>
  The program as a whole: the loop over the four passes of phase two
  (\<open>phase2_everything.hpp\<close>), the parser object with its functions and the three phases
  behind the parse (\<open>config_parser.hpp\<close>, \<open>parser.hpp\<close>), and the entry points
  (\<open>from_string.hpp\<close>, \<open>from_file.hpp\<close>, \<open>from_files.hpp\<close>, \<open>from_input.hpp\<close>).

  One iteration is the bitwise disjunction of four calls. C++ does not say in which order the
  operands of \<open>|\<close> are evaluated: the order is the argument \<open>order\<close>. The loop need not end,
  so it gives an option, and \<open>None\<close> means that it does not return.
\<close>

section \<open>Phase two\<close>

datatype pass = Functions | Additions | References | Asterisks

definition run_pass :: "system \<Rightarrow> function_map \<Rightarrow> pass \<Rightarrow> object \<Rightarrow> error + (object \<times> nat)" where
  "run_pass sys fm p =
     (case p of
        Functions \<Rightarrow> phase2_functions sys fm
      | Additions \<Rightarrow> phase2_additions (double_sum sys)
      | References \<Rightarrow> phase2_references
      | Asterisks \<Rightarrow> phase2_asterisks)"

fun run_passes :: "system \<Rightarrow> function_map \<Rightarrow> pass list \<Rightarrow> object \<Rightarrow> error + (object \<times> nat)" where
  "run_passes sys fm [] x = Inr (x, 0)"
| "run_passes sys fm (p # ps) x =
     rbind (run_pass sys fm p x) (\<lambda>(y, n).
       rbind (run_passes sys fm ps y) (\<lambda>(z, k). Inr (z, Bit_Operations.or n k)))"

definition phase2_iteration ::
  "system \<Rightarrow> function_map \<Rightarrow> pass list \<Rightarrow> object \<Rightarrow> error + (object \<times> bool)" where
  "phase2_iteration sys fm order x =
     rbind (run_passes sys fm order x) (\<lambda>(y, n). Inr (y, n > 0))"

text \<open>The loop: the body is run until it says that nothing has changed.\<close>

partial_function (option) while_changed ::
  "('s \<Rightarrow> 'e + ('s \<times> bool)) \<Rightarrow> 's \<Rightarrow> ('e + 's) option" where
  "while_changed step s =
     (case step s of
        Inl e \<Rightarrow> Some (Inl e)
      | Inr (t, changed) \<Rightarrow> if changed then while_changed step t else Some (Inr t))"

declare while_changed.simps [code]

definition phase2_everything ::
  "system \<Rightarrow> function_map \<Rightarrow> pass list \<Rightarrow> object \<Rightarrow> (error + object) option" where
  "phase2_everything sys fm order = while_changed (phase2_iteration sys fm order)"

section \<open>The parser\<close>

record config_parser =
  parser_state :: state
  parser_functions :: function_map

definition config_parser_init :: "system \<Rightarrow> config_parser" where
  "config_parser_init sys =
     \<lparr>parser_state = state_init (initial_flag sys), parser_functions = config_functions sys\<rparr>"

definition parse_input :: "system \<Rightarrow> positions \<Rightarrow> string \<Rightarrow> config_parser \<Rightarrow> error + config_parser" where
  "parse_input sys pos text c =
     rbind (config_file (reader sys) (stack_room sys) pos (parser_state c) text)
       (\<lambda>(st, r). Inr (c\<lparr>parser_state := st\<rparr>))"

definition parse_path :: "system \<Rightarrow> string \<Rightarrow> config_parser \<Rightarrow> error + config_parser" where
  "parse_path sys path c =
     (case open_file (reader sys) path of
        Inl (code, msg) \<Rightarrow> Inl (System_error code)
      | Inr (text, pos) \<Rightarrow> parse_input sys pos text c)"

definition parse_string :: "system \<Rightarrow> string \<Rightarrow> string \<Rightarrow> config_parser \<Rightarrow> error + config_parser" where
  "parse_string sys data name c = parse_input sys (text_positions sys name data) data c"

definition set_inner_extension :: "string \<Rightarrow> config_function \<Rightarrow> config_parser \<Rightarrow> config_parser" where
  "set_inner_extension name f c = c\<lparr>parser_functions := om_put name f (parser_functions c)\<rparr>"

definition finish :: "system \<Rightarrow> pass list \<Rightarrow> config_parser \<Rightarrow> (error + json_value) option" where
  "finish sys order c =
     (case phase2_everything sys (parser_functions c) order (st_root (parser_state c)) of
        None \<Rightarrow> None
      | Some r \<Rightarrow> Some (rbind r (\<lambda>x. rbind (phase3_remove_object x) phase5_repack)))"

text \<open>\<open>finish\<close> behind a parse that may throw.\<close>

definition finish_parsed :: "system \<Rightarrow> pass list \<Rightarrow> error + config_parser \<Rightarrow> (error + json_value) option" where
  "finish_parsed sys order r = (case r of Inl e \<Rightarrow> Some (Inl e) | Inr c \<Rightarrow> finish sys order c)"

definition from_string :: "system \<Rightarrow> pass list \<Rightarrow> string \<Rightarrow> string \<Rightarrow> (error + json_value) option" where
  "from_string sys order data name =
     finish_parsed sys order (parse_string sys data name (config_parser_init sys))"

definition from_file :: "system \<Rightarrow> pass list \<Rightarrow> string \<Rightarrow> (error + json_value) option" where
  "from_file sys order path = finish_parsed sys order (parse_path sys path (config_parser_init sys))"

definition from_files :: "system \<Rightarrow> pass list \<Rightarrow> string list \<Rightarrow> (error + json_value) option" where
  "from_files sys order paths =
     finish_parsed sys order (fold_res (parse_path sys) paths (config_parser_init sys))"

definition from_input :: "system \<Rightarrow> pass list \<Rightarrow> positions \<Rightarrow> string \<Rightarrow> (error + json_value) option" where
  "from_input sys order pos text =
     finish_parsed sys order (parse_input sys pos text (config_parser_init sys))"

section \<open>The loop\<close>

lemma while_changed_last:
  fixes step :: "'s \<Rightarrow> 'e + ('s \<times> bool)"
  assumes "while_changed step s = Some (Inr t)" "I s"
    and "\<And>s t b. I s \<Longrightarrow> step s = Inr (t, b) \<Longrightarrow> I t"
  shows "\<exists>u. I u \<and> step u = Inr (t, False)"
proof -
  let ?P = "\<lambda>f s (r :: 'e + 's). f = step \<longrightarrow> I s \<longrightarrow> (\<forall>t. r = Inr t \<longrightarrow> (\<exists>u. I u \<and> step u = Inr (t, False)))"
  have "?P step s (Inr t)"
  proof (rule while_changed.raw_induct [where P = ?P, OF _ assms(1)])
    fix g f s r
    assume IH: "\<And>f s r. g f s = Some r \<Longrightarrow> ?P f s r"
      and eq: "(case f s of Inl e \<Rightarrow> Some (Inl e)
        | Inr (t, changed) \<Rightarrow> if changed then g f t else Some (Inr t)) = Some r"
    show "?P f s r"
    proof (intro impI allI)
      fix t
      assume f: "f = step" and s: "I s" and r: "r = Inr t"
      from eq r obtain v b where v: "step s = Inr (v, b)" "(if b then g step v else Some (Inr v)) = Some (Inr t)"
        unfolding f by (auto split: sum.splits prod.splits)
      show "\<exists>u. I u \<and> step u = Inr (t, False)"
        using IH [of step v "Inr t"] v assms(3) [OF s v(1)] s by (cases b) auto
    qed
  qed
  with assms(2) show ?thesis by blast
qed

lemma while_changed_returns:
  assumes "wf R" "I s" "\<And>s t. I s \<Longrightarrow> step s = Inr (t, True) \<Longrightarrow> I t \<and> (t, s) \<in> R"
  shows "\<exists>r. while_changed step s = Some r"
  using assms(1,2)
proof (induction s rule: wf_induct_rule)
  case (less s)
  show ?case
  proof (cases "step s")
    case (Inr p)
    then obtain t b where p: "p = (t, b)" by (cases p)
    show ?thesis
    proof (cases b)
      case True
      with Inr p have "I t \<and> (t, s) \<in> R" using assms(3) [OF less(2)] by simp
      with less(1) [of t] Inr p True show ?thesis by (auto simp: while_changed.simps [of step s])
    qed (use Inr p in \<open>simp add: while_changed.simps [of step s]\<close>)
  qed (simp add: while_changed.simps [of step s])
qed

lemma while_changed_diverges:
  assumes "I s" "\<And>s. I s \<Longrightarrow> \<exists>t. step s = Inr (t, True) \<and> I t"
  shows "while_changed step s = None"
proof (rule ccontr)
  assume "while_changed step s \<noteq> None"
  then obtain r where r: "while_changed step s = Some r" by blast
  let ?P = "\<lambda>f s r. f = step \<longrightarrow> \<not> I s"
  have "?P step s r"
  proof (rule while_changed.raw_induct [where P = ?P, OF _ r])
    fix g f s r
    assume IH: "\<And>f s r. g f s = Some r \<Longrightarrow> ?P f s r"
      and eq: "(case f s of Inl e \<Rightarrow> Some (Inl e)
        | Inr (t, changed) \<Rightarrow> if changed then g f t else Some (Inr t)) = Some r"
    show "?P f s r"
    proof
      assume f: "f = step"
      show "\<not> I s"
      proof
        assume "I s"
        then obtain t where "step s = Inr (t, True)" "I t" using assms(2) by blast
        with eq IH [of step t r] f show False by simp
      qed
    qed
  qed
  with assms(1) show False by blast
qed

section \<open>The contract of a pass\<close>

text \<open>A pass keeps the maps sorted, and when it counts no change there was none.\<close>

locale pass_contract =
  fixes run :: "object \<Rightarrow> error + (object \<times> nat)"
  assumes sorted: "run x = Inr (y, n) \<Longrightarrow> wf_object x \<Longrightarrow> wf_object y"
    and idle: "run x = Inr (y, 0) \<Longrightarrow> y = x"

interpretation references_pass: pass_contract phase2_references
  by unfold_locales (auto dest: phase2_references_wf phase2_references_zero)

interpretation asterisks_pass: pass_contract phase2_asterisks
  by unfold_locales (auto dest: phase2_asterisks_wf phase2_asterisks_zero)

interpretation additions_pass: pass_contract "phase2_additions fadd" for fadd
  by unfold_locales (auto simp: phase2_additions_def dest: additions_wf(3) additions_zero(3))

context function_table
begin

lemma functions_contract: "pass_contract (phase2_functions sys fm)"
  by unfold_locales (auto simp: phase2_functions_def dest: functions_wf(3) functions_zero(3))

lemma run_pass_contract: "pass_contract (run_pass sys fm p)"
  by (cases p) (simp_all add: run_pass_def functions_contract references_pass.pass_contract_axioms
      asterisks_pass.pass_contract_axioms additions_pass.pass_contract_axioms)

lemma run_passes_sorted: "run_passes sys fm ps x = Inr (y, n) \<Longrightarrow> wf_object x \<Longrightarrow> wf_object y"
proof (induction ps arbitrary: x n)
  case (Cons p ps)
  then obtain z m k where "run_pass sys fm p x = Inr (z, m)" "run_passes sys fm ps z = Inr (y, k)"
    by (auto simp: res_simps)
  with Cons pass_contract.sorted [OF run_pass_contract] show ?case by blast
qed simp

lemma run_passes_idle:
  "run_passes sys fm ps x = Inr (y, 0) \<Longrightarrow> y = x \<and> (\<forall>p \<in> set ps. run_pass sys fm p x = Inr (x, 0))"
proof (induction ps arbitrary: x)
  case (Cons p ps)
  then obtain z m k where *: "run_pass sys fm p x = Inr (z, m)" "run_passes sys fm ps z = Inr (y, k)"
    "Bit_Operations.or m k = 0"
    by (auto simp: res_simps)
  then have "m = 0" "k = 0" by (simp_all add: or_eq_0_iff)
  moreover from this *(1) have "z = x" using pass_contract.idle [OF run_pass_contract] by blast
  ultimately show ?case using Cons.IH [of x] * by simp
qed simp

text \<open>What the loop returns is a fixpoint of every pass.\<close>

lemma phase2_iteration_Inr:
  "phase2_iteration sys fm order x = Inr (y, b) \<longleftrightarrow>
     (\<exists>n. run_passes sys fm order x = Inr (y, n) \<and> (b \<longleftrightarrow> n > 0))"
  by (auto simp: phase2_iteration_def res_simps)

lemma phase2_everything_fixpoint:
  assumes "phase2_everything sys fm order x = Some (Inr y)" "wf_object x"
  shows "wf_object y \<and> (\<forall>p \<in> set order. run_pass sys fm p y = Inr (y, 0))"
proof -
  have "\<exists>u. wf_object u \<and> phase2_iteration sys fm order u = Inr (y, False)"
    by (rule while_changed_last [where I = wf_object, OF assms(1) [unfolded phase2_everything_def] assms(2)])
      (auto simp: phase2_iteration_Inr intro: run_passes_sorted)
  then obtain u where u: "wf_object u" "run_passes sys fm order u = Inr (y, 0)"
    by (auto simp: phase2_iteration_Inr)
  from run_passes_idle [OF u(2)] u(1) show ?thesis by auto
qed

end

section \<open>Phase three behind phase two\<close>

lemma settled_resolved_length:
  assumes "settled_node (Node_concat c)" "\<forall>e \<in> set (concat_list c). all_entry resolved_node e"
  shows "length (concat_list c) \<le> 1"
proof (rule ccontr)
  assume "\<not> length (concat_list c) \<le> 1"
  then obtain l r es where es: "concat_list c = l # r # es"
    by (cases "concat_list c"; cases "tl (concat_list c)") auto
  have "\<not> ignore_entry e" if "all_entry resolved_node e" for e
    using that array_function_all by (cases e) auto
  with assms es show False by auto
qed

lemma prune_repackable:
  "all_entry resolved_node e \<Longrightarrow> all_entry settled_node e \<Longrightarrow> all_entry repackable_node (prune_entry e)"
  "all_array resolved_node a \<Longrightarrow> all_array settled_node a \<Longrightarrow> all_array repackable_node (prune_array a)"
  "all_object resolved_node x \<Longrightarrow> all_object settled_node x \<Longrightarrow> all_object repackable_node (prune_object x)"
  "all_concat resolved_node c \<Longrightarrow> all_concat settled_node c \<Longrightarrow> \<not> omit_from_final_result c \<Longrightarrow>
     all_concat repackable_node (prune_concat c)"
proof (induction e and a and x and c rule: tree_induct)
  case (1 e)
  then show ?case by (cases e) auto
next
  case (8 h es)
  have "length es \<le> 1" using settled_resolved_length [of "Concat h es"] 8(2,3) by auto
  moreover have "es \<noteq> []" using 8(4) by (auto simp: omit_from_final_result_def)
  ultimately have "length es = 1" by (cases es) auto
  with 8 show ?case by auto
qed fastforce+

context function_table
begin

lemma phase3_then_phase5:
  assumes "phase2_everything sys fm order x = Some (Inr y)" "wf_object x" "Additions \<in> set order"
    and "phase3_remove_object y = Inr z"
  shows "\<exists>v. phase5_repack z = Inr v"
proof -
  have "run_pass sys fm Additions y = Inr (y, 0)"
    using phase2_everything_fixpoint [OF assms(1,2)] assms(3) by blast
  then have "all_object settled_node y"
    using additions_zero(3) by (auto simp: run_pass_def phase2_additions_def)
  moreover have "resolved_object y" "z = prune_object y"
    using assms(4) by (simp_all add: phase3_remove_object_iff)
  ultimately have "all_object repackable_node z" by (simp add: prune_repackable(3))
  then show ?thesis
    using phase5_repack_ok(3) [of "[]" z] by (simp add: phase5_repack_def is_ok_iff)
qed

end


end
