(* ===== verification/Config_Termination.thy ===== *)
theory Config_Termination
  imports Config_Everything
begin

text \<open>
  The termination of phase two. An expansion of an asterisk copies what the asterisk holds,
  function calls, references and further asterisks included, so the number of things that are
  left to do can grow. The height of an asterisk is one more than the height of what it holds,
  and function calls and references have height zero: an expansion removes an asterisk and
  only makes copies of smaller height. The numbers of pending things of height at least
  \<open>k\<close>, compared from the greatest \<open>k\<close> down, followed by the number of entries, decrease
  with every iteration that changes something, unless the function \<open>parse\<close> is called.
\<close>

section \<open>Pending nodes\<close>

fun pending :: "nat \<Rightarrow> node \<Rightarrow> nat" where
  "pending 0 n = w_function n + w_asterisk n + w_reference n"
| "pending (Suc k) (Node_entry (ASTERISK c)) =
     (if k = 0 \<or> count_concat (pending k) c \<noteq> 0 then 1 else 0)"
| "pending (Suc k) n = 0"

lemma pending_Suc: "(\<And>c. n \<noteq> Node_entry (ASTERISK c)) \<Longrightarrow> pending (Suc k) n = 0"
  by (cases n rule: w_asterisk.cases) auto

lemma pending_plain [simp]: "resolved_node n \<Longrightarrow> pending k n = 0"
proof (cases k)
  case 0
  assume "resolved_node n"
  with 0 show ?thesis by (cases n rule: resolved_node.cases) auto
next
  case (Suc j)
  assume "resolved_node n"
  with Suc show ?thesis by (cases n rule: resolved_node.cases) (auto simp: pending_Suc)
qed

lemma pending_array [simp]:
  "pending k (Node_array (Array f cs p)) = (if k = 0 \<and> f \<noteq> [] then 1 else 0)"
  by (cases k) (auto simp: pending_Suc)

lemma pending_reference [simp]:
  "pending k (Node_entry (REFERENCE r)) = (if k = 0 then 1 else 0)"
  by (cases k) (auto simp: pending_Suc)

lemma pending_concat [simp]: "pending k (Node_concat c) = 0" "pending k (Node_object x) = 0"
  by (cases k; simp add: pending_Suc)+

lemma pending_other [simp]:
  "kind e \<notin> {KIND_ASTERISK, KIND_REFERENCE} \<Longrightarrow> pending k (Node_entry e) = 0"
  by (rule pending_plain) (cases e; simp)

abbreviation at_zero :: "nat \<Rightarrow> nat" where
  "at_zero k \<equiv> if k = 0 then 1 else 0"

text \<open>For every table of functions that keep the contract, those that are added to it included.\<close>

context function_table
begin

lemma pending_calls: "call_weight fm (pending k) (at_zero k)"
  by (rule call_weight.intro [OF function_table_axioms], unfold_locales) (auto split: if_splits)

lemma parse_calls: "call_weight fm w_parse 0"
proof (rule call_weight.intro [OF function_table_axioms], unfold_locales)
  fix n :: node
  show "resolved_node n \<Longrightarrow> w_parse n = 0" by (cases n rule: w_parse.cases) simp_all
qed simp_all

end

interpretation calls_pending: call_weight sys "config_functions sys" "pending k" "at_zero k" for sys k
  by (rule builtins.pending_calls)

interpretation references_pending: shape_weight "pending k" "at_zero k" for k
proof unfold_locales
  fix n
  show "plain_node n \<Longrightarrow> pending k n = 0"
    by (rule pending_plain) (cases n rule: plain_node.cases; auto)
qed (auto split: if_splits)

lemma additions_pending_weight: "entry_weight fadd (pending k) 0"
proof (induction k)
  case 0
  show ?case
  proof unfold_locales
    fix e e' :: entry
    show "kind e = kind e' \<Longrightarrow> kind e \<noteq> KIND_ASTERISK \<Longrightarrow> pending 0 (Node_entry e) = pending 0 (Node_entry e')"
      by (cases e; cases e') auto
    show "kind e \<notin> {KIND_ASTERISK, KIND_REFERENCE} \<Longrightarrow> pending 0 (Node_entry e) = 0"
      by (rule pending_other)
  qed auto
next
  case (Suc k)
  show ?case
  proof unfold_locales
    fix e e' :: entry
    show "kind e = kind e' \<Longrightarrow> kind e \<noteq> KIND_ASTERISK \<Longrightarrow> pending (Suc k) (Node_entry e) = pending (Suc k) (Node_entry e')"
      by (cases e; cases e') (auto simp: pending_Suc)
  next
    fix c d n
    assume "additions_concat fadd c = Inr (d, n)" "wf_concat c"
    from entry_weight.additions_count(4) [OF Suc this]
    show "pending (Suc k) (Node_entry (ASTERISK d)) \<le> pending (Suc k) (Node_entry (ASTERISK c))" by simp
  qed (auto simp: pending_Suc)
qed

interpretation additions_pending: entry_weight fadd "pending k" 0 for fadd k
  by (rule additions_pending_weight)

section \<open>Comparing the numbers of pending nodes\<close>

definition lower :: "(nat \<Rightarrow> nat) \<Rightarrow> (nat \<Rightarrow> nat) \<Rightarrow> bool" where
  "lower f g \<longleftrightarrow> (\<exists>h. f h < g h \<and> (\<forall>k > h. f k \<le> g k))"

definition descends :: "nat \<Rightarrow> (nat \<Rightarrow> nat) \<Rightarrow> (nat \<Rightarrow> nat) \<Rightarrow> bool" where
  "descends n f g \<longleftrightarrow> (if n = 0 then \<forall>k. f k \<le> g k else lower f g)"

lemma descends_refl [simp]: "descends 0 f f"
  by (simp add: descends_def)

lemma lower_mono:
  assumes "lower f g" "\<forall>k. f' k + g k \<le> g' k + f k"
  shows "lower f' g'"
proof -
  obtain h where h: "f h < g h" "\<forall>k > h. f k \<le> g k" using assms(1) by (auto simp: lower_def)
  have "f' h < g' h" using assms(2) [rule_format, of h] h(1) by linarith
  moreover have "f' k \<le> g' k" if "k > h" for k
    using assms(2) [rule_format, of k] h(2) that by (metis add_le_imp_le_right le_trans add_le_mono nat_add_left_cancel_le add.commute)
  ultimately show ?thesis by (auto simp: lower_def)
qed

lemma lower_add:
  assumes "lower f g" "lower f' g'"
  shows "lower (\<lambda>k. f k + f' k) (\<lambda>k. g k + g' k)"
proof -
  obtain h h' where h: "f h < g h" "\<forall>k > h. f k \<le> g k" "f' h' < g' h'" "\<forall>k > h'. f' k \<le> g' k"
    using assms by (auto simp: lower_def)
  consider "h < h'" | "h = h'" | "h' < h" by linarith
  then have "f (max h h') + f' (max h h') < g (max h h') + g' (max h h')"
    by cases (use h in \<open>auto simp: max_def intro: add_le_less_mono add_less_le_mono add_strict_mono\<close>)
  moreover have "f k + f' k \<le> g k + g' k" if "k > max h h'" for k
    using h that by (intro add_mono) auto
  ultimately show ?thesis unfolding lower_def by blast
qed

lemma descends_add:
  assumes "descends m f g" "descends n f' g'"
  shows "descends (m + n) (\<lambda>k. f k + f' k) (\<lambda>k. g k + g' k)"
proof -
  have "lower (\<lambda>k. f k + f' k) (\<lambda>k. g k + g' k)" if "lower f g" "\<forall>k. f' k \<le> g' k"
    by (rule lower_mono [OF that(1)]) (use that(2) in simp)
  moreover have "lower (\<lambda>k. f k + f' k) (\<lambda>k. g k + g' k)" if "lower f' g'" "\<forall>k. f k \<le> g k"
    by (rule lower_mono [OF that(1)]) (use that(2) in simp)
  ultimately show ?thesis using assms lower_add by (auto simp: descends_def add_mono split: if_splits)
qed

lemma descends_trans:
  assumes "descends m f g" "descends n g h"
  shows "descends (m + n) f h"
proof -
  have sum: "descends (m + n) (\<lambda>k. f k + g k) (\<lambda>k. g k + h k)" by (rule descends_add [OF assms])
  show ?thesis
  proof (cases "m + n = 0")
    case True
    with assms have "f k \<le> g k" "g k \<le> h k" for k by (simp_all add: descends_def)
    then have "f k \<le> h k" for k using le_trans by blast
    with True show ?thesis by (simp add: descends_def)
  next
    case False
    with sum have "lower (\<lambda>k. f k + g k) (\<lambda>k. g k + h k)" by (simp add: descends_def)
    then have "lower f h" by (rule lower_mono) simp
    with False show ?thesis by (auto simp: descends_def)
  qed
qed

lemma map_chg_descends:
  assumes "map_chg f xs = Inr (ys, n)"
    and "\<And>x y m. x \<in> set xs \<Longrightarrow> f x = Inr (y, m) \<Longrightarrow> descends m (w y) (w x)"
  shows "descends n (\<lambda>k. \<Sum>y \<leftarrow> ys. w y k) (\<lambda>k. \<Sum>x \<leftarrow> xs. w x k)"
  using assms
proof (induction xs arbitrary: ys n)
  case (Cons x xs)
  then obtain y m ys' j where *: "f x = Inr (y, m)" "map_chg f xs = Inr (ys', j)"
    "ys = y # ys'" "n = m + j"
    by (auto simp: res_simps)
  have "descends m (w y) (w x)" using Cons.prems(2) *(1) by simp
  moreover have "descends j (\<lambda>k. \<Sum>y \<leftarrow> ys'. w y k) (\<lambda>k. \<Sum>x \<leftarrow> xs. w x k)"
    by (rule Cons.IH [OF *(2)]) (simp add: Cons.prems(2))
  ultimately have "descends (m + j) (\<lambda>k. w y k + (\<Sum>y \<leftarrow> ys'. w y k)) (\<lambda>k. w x k + (\<Sum>x \<leftarrow> xs. w x k))"
    by (rule descends_add)
  then show ?case unfolding *(3,4) by simp
qed simp


section \<open>One expansion\<close>

text \<open>
  The contract of a weight that copies of a concat without it do not increase: there is none
  outside of asterisks, references and function calls.
\<close>

locale copy_weight =
  fixes w :: "node \<Rightarrow> nat"
  assumes containers: "w (Node_entry (ARRAY a)) = 0" "w (Node_entry (OBJECT x)) = 0"
      "w (Node_object x) = 0" "w (Node_concat c) = 0"
    and at_array: "w (Node_array (Array f cs p)) = w (Node_array (Array f ds q))"
begin

abbreviation total :: "entry list \<Rightarrow> nat" where
  "total es \<equiv> \<Sum>e \<leftarrow> es. count_entry w e"

lemma count_concat_total: "count_concat w c = total (concat_list c)"
  by (cases c) (simp add: containers)

lemma count_with_asterisk:
  assumes "count_concat w s = 0"
  shows "count_concat w (element_and_asterisk c s) \<le> count_concat w c"
    and "count_concat w (asterisk_and_element s c) \<le> count_concat w c"
  using assms
  by (simp_all add: count_concat_total element_and_asterisk_def asterisk_and_element_def Let_def containers
      del: sum_list_eq_0_iff)

lemma count_visit:
  assumes "visit_neighbour f e = Inr e'"
    and "\<And>g cs p. \<exists>h. f (Array g cs p) = Array g (map h cs) p \<and> (\<forall>c. count_concat w (h c) \<le> count_concat w c)"
  shows "count_entry w e' \<le> count_entry w e"
proof (cases "\<exists>a. e = ARRAY a")
  case True
  then obtain g cs p where e: "e = ARRAY (Array g cs p)" by (metis array.exhaust)
  from assms(2) obtain h where h: "f (Array g cs p) = Array g (map h cs) p"
    "\<forall>c. count_concat w (h c) \<le> count_concat w c" by blast
  from assms(1) e h(1) have "e' = ARRAY (Array g (map h cs) p)"
    by (simp add: visit_neighbour_def split: if_splits)
  moreover have "(\<Sum>c \<leftarrow> map h cs. count_concat w c) \<le> (\<Sum>c \<leftarrow> cs. count_concat w c)"
    using h(2) by (induction cs) (auto intro: add_mono)
  ultimately show ?thesis using e at_array [of g "map h cs" p cs p] by (simp add: containers comp_def)
next
  case False
  then have "e' = e" using assms(1) by (cases e) (auto simp: visit_neighbour_def)
  then show ?thesis by simp
qed

lemma total_list_all2:
  "list_all2 (\<lambda>e f. count_entry w f \<le> count_entry w e) es fs \<Longrightarrow> total fs \<le> total es"
  by (induction rule: list_all2_induct) auto

lemma count_process_asterisk:
  assumes "process_asterisk before star after = Inr (before', after')" "count_concat w star = 0"
  shows "total (before' @ after') \<le> total (before @ after)"
proof -
  from assms(1) obtain bs names where bs:
    "list_all2 (\<lambda>e f. visit_neighbour (\<lambda>a. process_array_and_asterisk a star) e = Inr f) before bs"
    "list_all2 (\<lambda>e f. visit_neighbour (process_asterisk_and_array star) e = Inr f) after after'"
    "before' = bs @ (if names = [] then []
       else [OBJECT (Object (map (\<lambda>n. (n, star)) names) (concat_position (head star)))])"
    unfolding process_asterisk_Inr Let_def by blast
  have "total bs \<le> total before"
    by (rule total_list_all2, rule list_all2_mono [OF bs(1)], erule count_visit)
      (use count_with_asterisk(1) [OF assms(2)] in \<open>auto simp: process_array_and_asterisk_def\<close>)
  moreover have "total after' \<le> total after"
    by (rule total_list_all2, rule list_all2_mono [OF bs(2)], erule count_visit)
      (use count_with_asterisk(2) [OF assms(2)] in \<open>auto simp: process_asterisk_and_array_def\<close>)
  ultimately show ?thesis using assms(2) by (simp add: bs(3) containers comp_def)
qed

text \<open>A weight that nothing has is not created.\<close>

lemma zero_stays: "asterisks_concat c = Inr (d, n) \<Longrightarrow> count_concat w c = 0 \<Longrightarrow> count_concat w d = 0"
proof -
  have "asterisks_concat c = Inr (d, n) \<Longrightarrow> count_concat w c = 0 \<longrightarrow> count_concat w d = 0"
  proof (rule asterisks_induct(1) [where
      C = "\<lambda>c d n. count_concat w c = 0 \<longrightarrow> count_concat w d = 0" and
      B = "\<lambda>before es fs n. total (before @ es) = 0 \<longrightarrow> total fs = 0" and
      E = "\<lambda>single e e' n. count_entry w e = 0 \<longrightarrow> count_entry w e' = 0"])
    fix before star after before' after' es n
    assume *: "process_asterisk before star after = Inr (before', after')"
      "total (before' @ after') = 0 \<longrightarrow> total es = 0"
    show "total (before @ ASTERISK star # after) = 0 \<longrightarrow> total es = 0"
    proof
      assume "total (before @ ASTERISK star # after) = 0"
      then have "total (before @ after) = 0" "count_concat w star = 0" by simp_all
      then have "total (before' @ after') = 0" using count_process_asterisk [OF *(1)] by linarith
      with *(2) show "total es = 0" by blast
    qed
  next
    fix f cs ds p n
    assume *: "map_chg asterisks_concat cs = Inr (ds, n)"
      "\<And>c d m. c \<in> set cs \<Longrightarrow> asterisks_concat c = Inr (d, m) \<Longrightarrow> count_concat w c = 0 \<longrightarrow> count_concat w d = 0"
    have "count_concat w d = 0" if "(\<Sum>c \<leftarrow> cs. count_concat w c) = 0" "d \<in> set ds" for d
      using map_chg_in [OF *(1) that(2)] *(2) that(1) by auto
    then show "count_entry w (ARRAY (Array f cs p)) = 0 \<longrightarrow> count_entry w (ARRAY (Array f ds p)) = 0"
      using at_array [of f cs p ds p] by (simp add: containers)
  next
    fix ms ns :: "(string \<times> concat) list" and p n
    assume *: "map_chg (on_value_chg asterisks_concat) ms = Inr (ns, n)"
      "\<And>k c d m. (k, c) \<in> set ms \<Longrightarrow> asterisks_concat c = Inr (d, m) \<Longrightarrow> count_concat w c = 0 \<longrightarrow> count_concat w d = 0"
    show "count_entry w (OBJECT (Object ms p)) = 0 \<longrightarrow> count_entry w (OBJECT (Object ns p)) = 0"
      using map_chg_on_value_in [OF *(1)] *(2) by (fastforce simp: containers)
  qed (simp_all add: count_concat_total containers del: sum_list_eq_0_iff)
  then show "asterisks_concat c = Inr (d, n) \<Longrightarrow> count_concat w c = 0 \<Longrightarrow> count_concat w d = 0" by blast
qed

lemma phase2_asterisks_zero_stays:
  assumes "phase2_asterisks x = Inr (y, n)" "count_object w x = 0"
  shows "count_object w y = 0"
proof -
  have "count_concat w d = 0" if d: "(k, d) \<in> set (object_map y)" for k d
  proof -
    obtain c m where "(k, c) \<in> set (object_map x)" "asterisks_concat c = Inr (d, m)"
      using phase2_asterisks_members [OF assms(1) d] by blast
    with assms(2) show ?thesis by (cases x) (auto intro: zero_stays)
  qed
  then show ?thesis by (cases y) (auto simp: containers)
qed

end

interpretation copies_pending: copy_weight "pending k" for k
  by unfold_locales auto

interpretation copies_parse: copy_weight w_parse
  by unfold_locales auto


section \<open>The pass over asterisks\<close>

abbreviation pending_total :: "entry list \<Rightarrow> nat \<Rightarrow> nat" where
  "pending_total es k \<equiv> \<Sum>e \<leftarrow> es. count_entry (pending k) e"

lemma pending_bounded:
  "depth_entry e < k \<Longrightarrow> count_entry (pending k) e = 0"
  "depth_array a < k \<Longrightarrow> count_array (pending k) a = 0"
  "depth_object x < k \<Longrightarrow> count_object (pending k) x = 0"
  "depth_concat c < k \<Longrightarrow> count_concat (pending k) c = 0"
proof (induction e and a and x and c arbitrary: k and k and k and k rule: tree_induct)
  case (1 e)
  then show ?case by (cases e) auto
next
  case (5 c)
  then obtain j where "k = Suc j" "depth_concat c < j" by (cases k) auto
  with 5(1) [of k] 5(1) [of j] show ?case by simp
next
  case (6 f cs p)
  then have "count_concat (pending k) c = 0" if "c \<in> set cs" for c
    using depth_array_in [OF that, of f p] that by force
  moreover have "k \<noteq> 0" using 6(2) by simp
  ultimately show ?case by simp
next
  case (7 ms p)
  then have "count_concat (pending k) c = 0" if "(n, c) \<in> set ms" for n c
    using depth_object_in [OF that, of p] that by force
  then show ?case by auto
next
  case (8 h es)
  then have "count_entry (pending k) e = 0" if "e \<in> set es" for e
    using depth_entries_in [OF that] that by (force simp: depth_concat_list)
  then show ?case by simp
qed auto

text \<open>The height of an asterisk.\<close>

lemma asterisk_height:
  obtains h where "0 < h" "pending h (Node_entry (ASTERISK c)) = 1"
    "\<And>k. h \<le> k \<Longrightarrow> count_concat (pending k) c = 0"
    "\<And>k. h < k \<Longrightarrow> pending k (Node_entry (ASTERISK c)) = 0"
proof -
  let ?P = "\<lambda>h. 0 < h \<and> (\<forall>k \<ge> h. count_concat (pending k) c = 0)"
  have "?P (Suc (depth_concat c))" using pending_bounded(4) by auto
  then have h: "?P (LEAST h. ?P h)" by (rule LeastI)
  define h where "h = (LEAST h. ?P h)"
  have least: "\<not> ?P j" if "j < h" for j using that not_less_Least unfolding h_def by blast
  from h have p: "0 < h" "\<And>k. h \<le> k \<Longrightarrow> count_concat (pending k) c = 0" unfolding h_def by blast+
  then obtain j where j: "h = Suc j" by (cases h) auto
  show thesis
  proof (rule that [OF p(1) _ p(2)])
    show "pending h (Node_entry (ASTERISK c)) = 1"
    proof (cases "j = 0")
      case False
      then obtain k where "j \<le> k" "count_concat (pending k) c \<noteq> 0" using least [of j] j by auto
      with p(2) [of k] j have "count_concat (pending j) c \<noteq> 0" by (cases "k = j") auto
      then show ?thesis by (simp add: j)
    qed (simp add: j)
    show "pending k (Node_entry (ASTERISK c)) = 0" if "h < k" for k
    proof -
      from that obtain i where "k = Suc i" "h \<le> i" by (cases k) auto
      with p show ?thesis by simp
    qed
  qed
qed

lemma expansion_lower:
  assumes "process_asterisk before star after = Inr (before', after')"
  shows "lower (pending_total (before' @ after')) (pending_total (before @ ASTERISK star # after))"
proof -
  obtain h where h: "0 < h" "pending h (Node_entry (ASTERISK star)) = 1"
    "\<And>k. h \<le> k \<Longrightarrow> count_concat (pending k) star = 0"
    by (rule asterisk_height [of star], rule that)
  have le: "pending_total (before' @ after') k \<le> pending_total (before @ after) k" if "h \<le> k" for k
    by (rule copies_pending.count_process_asterisk [OF assms h(3) [OF that]])
  have "pending_total (before' @ after') h < pending_total (before @ ASTERISK star # after) h"
    using le [of h] h(2) by simp
  moreover have "pending_total (before' @ after') k \<le> pending_total (before @ ASTERISK star # after) k"
    if "k > h" for k
    using le [of k] that by simp
  ultimately show ?thesis unfolding lower_def by blast
qed

lemma asterisks_concat_descends:
  "asterisks_concat c = Inr (d, n) \<Longrightarrow>
     descends n (\<lambda>k. count_concat (pending k) d) (\<lambda>k. count_concat (pending k) c)"
proof (rule asterisks_induct(1) [where
    C = "\<lambda>c d n. descends n (\<lambda>k. count_concat (pending k) d) (\<lambda>k. count_concat (pending k) c)" and
    B = "\<lambda>before es fs n. descends n (pending_total fs) (pending_total (before @ es))" and
    E = "\<lambda>single e e' n. descends n (\<lambda>k. count_entry (pending k) e') (\<lambda>k. count_entry (pending k) e)"])
  fix before star after before' after' es n
  assume *: "process_asterisk before star after = Inr (before', after')"
    "descends n (pending_total es) (pending_total (before' @ after'))"
  have "descends 1 (pending_total (before' @ after')) (pending_total (before @ ASTERISK star # after))"
    using expansion_lower [OF *(1)] by (simp add: descends_def)
  from descends_trans [OF *(2) this] show "descends (n + 1) (pending_total es)
    (pending_total (before @ ASTERISK star # after))" .
next
  fix before i after e m es k
  assume *: "descends m (\<lambda>k. count_entry (pending k) e) (\<lambda>k. count_entry (pending k) i)"
    "descends k (pending_total es) (pending_total ((before @ [e]) @ after))"
  have "descends (m + 0) (\<lambda>k. count_entry (pending k) e + pending_total (before @ after) k)
      (\<lambda>k. count_entry (pending k) i + pending_total (before @ after) k)"
    by (rule descends_add [OF *(1)]) simp
  from descends_trans [OF *(2), of m] this show
    "descends (m + k) (pending_total es) (pending_total (before @ i # after))"
    by (simp add: add.left_commute add.commute [of k])
next
  fix f cs ds p n
  assume *: "map_chg asterisks_concat cs = Inr (ds, n)"
    "\<And>c d m. c \<in> set cs \<Longrightarrow> asterisks_concat c = Inr (d, m) \<Longrightarrow>
      descends m (\<lambda>k. count_concat (pending k) d) (\<lambda>k. count_concat (pending k) c)"
  have "descends n (\<lambda>k. \<Sum>d \<leftarrow> ds. count_concat (pending k) d) (\<lambda>k. \<Sum>c \<leftarrow> cs. count_concat (pending k) c)"
    by (rule map_chg_descends [OF *(1)]) (rule *(2))
  from descends_add [OF descends_refl this] show "descends n (\<lambda>k. count_entry (pending k) (ARRAY (Array f ds p)))
      (\<lambda>k. count_entry (pending k) (ARRAY (Array f cs p)))"
    by simp
next
  fix ms ns :: "(string \<times> concat) list" and p n
  assume *: "map_chg (on_value_chg asterisks_concat) ms = Inr (ns, n)"
    "\<And>k c d m. (k, c) \<in> set ms \<Longrightarrow> asterisks_concat c = Inr (d, m) \<Longrightarrow>
      descends m (\<lambda>k. count_concat (pending k) d) (\<lambda>k. count_concat (pending k) c)"
  have "descends n (\<lambda>k. \<Sum>d \<leftarrow> ns. count_concat (pending k) (snd d)) (\<lambda>k. \<Sum>c \<leftarrow> ms. count_concat (pending k) (snd c))"
    by (rule map_chg_descends [OF *(1)]) (auto simp: res_simps intro: *(2))
  then show "descends n (\<lambda>k. count_entry (pending k) (OBJECT (Object ns p)))
      (\<lambda>k. count_entry (pending k) (OBJECT (Object ms p)))"
    by (simp add: case_prod_unfold)
next
  fix c es n
  assume "descends n (pending_total es) (pending_total ([] @ concat_list c))"
  then show "descends n (\<lambda>k. count_concat (pending k) (Concat (head c) es)) (\<lambda>k. count_concat (pending k) c)"
    by (simp add: copies_pending.count_concat_total)
qed simp_all

lemma phase2_asterisks_descends:
  assumes "phase2_asterisks x = Inr (y, n)"
  shows "descends n (\<lambda>k. count_object (pending k) y) (\<lambda>k. count_object (pending k) x)"
proof -
  obtain ms p where x: "x = Object ms p" by (cases x)
  with assms obtain ns where ns: "y = Object ns p" "map_chg (on_value_chg asterisks_concat) ms = Inr (ns, n)"
    by (auto simp: phase2_asterisks_def res_simps)
  have "descends n (\<lambda>k. \<Sum>d \<leftarrow> ns. count_concat (pending k) (snd d)) (\<lambda>k. \<Sum>c \<leftarrow> ms. count_concat (pending k) (snd c))"
    by (rule map_chg_descends [OF ns(2)]) (auto simp: res_simps intro: asterisks_concat_descends)
  with x ns(1) show ?thesis by (simp add: case_prod_unfold)
qed


section \<open>The measure of an iteration\<close>

definition rank :: "nat \<Rightarrow> (object \<times> object) set" where
  "rank K = measures (map (\<lambda>k. count_object (pending k)) (rev [0..<Suc K]) @ [count_object w_entry])"

lemma wf_rank: "wf ((rank K)\<^sup>+)"
  by (rule wf_trancl) (simp add: rank_def)

lemma measures_first:
  assumes "h \<le> K" "T h y < (T h x :: nat)" "\<And>k. h < k \<Longrightarrow> T k y \<le> T k x"
  shows "(y, x) \<in> measures (map T (rev [0..<Suc K]) @ fs)"
  using assms(1)
proof (induction K)
  case 0
  then show ?case using assms(2) by simp
next
  case (Suc K)
  show ?case
  proof (cases "h = Suc K")
    case True
    then show ?thesis using assms(2) by simp
  next
    case False
    with Suc have "(y, x) \<in> measures (map T (rev [0..<Suc K]) @ fs)" by simp
    moreover have "T (Suc K) y \<le> T (Suc K) x" using assms(3) False Suc(2) by simp
    ultimately show ?thesis by (auto simp: le_less)
  qed
qed

lemma measures_last:
  assumes "\<And>k. T k y \<le> (T k x :: nat)" "(y, x) \<in> measures fs"
  shows "(y, x) \<in> measures (map T (rev [0..<Suc K]) @ fs)"
proof (induction K)
  case 0
  then show ?case using assms(1) [of 0] assms(2) by (auto simp: le_less)
next
  case (Suc K)
  then show ?case using assms(1) [of "Suc K"] by (auto simp: le_less)
qed

text \<open>The invariant: sorted maps, no call of \<open>parse\<close>, and no pending node above \<open>K\<close>.\<close>

definition bounded_pending :: "nat \<Rightarrow> object \<Rightarrow> bool" where
  "bounded_pending K x \<longleftrightarrow>
     wf_object x \<and> count_object w_parse x = 0 \<and> (\<forall>k > K. count_object (pending k) x = 0)"

lemma rank_lower:
  assumes "lower (\<lambda>k. count_object (pending k) y) (\<lambda>k. count_object (pending k) x)" "bounded_pending K x"
  shows "(y, x) \<in> rank K"
proof -
  obtain h where h: "count_object (pending h) y < count_object (pending h) x"
    "\<And>k. k > h \<Longrightarrow> count_object (pending k) y \<le> count_object (pending k) x"
    using assms(1) by (auto simp: lower_def)
  have "h \<le> K"
  proof (rule ccontr)
    assume "\<not> h \<le> K"
    then have "count_object (pending h) x = 0" using assms(2) by (simp add: bounded_pending_def)
    with h(1) show False by simp
  qed
  then show ?thesis unfolding rank_def by (rule measures_first [where T = "\<lambda>k. count_object (pending k)", OF _ h])
qed

text \<open>The contract of a pass that makes progress.\<close>

locale progress = pass_contract +
  assumes parse_free: "run x = Inr (y, n) \<Longrightarrow> wf_object x \<Longrightarrow> count_object w_parse x = 0 \<Longrightarrow>
      count_object w_parse y = 0"
    and bounded: "run x = Inr (y, n) \<Longrightarrow> wf_object x \<Longrightarrow> count_object w_parse x = 0 \<Longrightarrow>
      count_object (pending k) x = 0 \<Longrightarrow> count_object (pending k) y = 0"
    and ranked: "run x = Inr (y, n) \<Longrightarrow> bounded_pending K x \<Longrightarrow> n \<noteq> 0 \<Longrightarrow> (y, x) \<in> rank K"
begin

lemma bounded_pending_stays: "run x = Inr (y, n) \<Longrightarrow> bounded_pending K x \<Longrightarrow> bounded_pending K y"
  using sorted [of x y n] parse_free [of x y n] bounded [of x y n]
  unfolding bounded_pending_def by blast

lemma progress: "run x = Inr (y, n) \<Longrightarrow> bounded_pending K x \<Longrightarrow> (y, x) \<in> (rank K)\<^sup>* \<and> (n \<noteq> 0 \<longrightarrow> (y, x) \<in> (rank K)\<^sup>+)"
  using ranked [of x y n K] idle [of x y] by (cases "n = 0") auto

end

interpretation references_parse: shape_weight w_parse 0
  by unfold_locales (auto elim: plain_node.elims)

interpretation additions_parse: entry_weight fadd w_parse 0 for fadd
  by unfold_locales auto

interpretation ranked_references: progress phase2_references
proof
  fix x y n K
  assume run: "phase2_references x = Inr (y, n)"
  show "count_object w_parse x = 0 \<Longrightarrow> count_object w_parse y = 0"
    using references_parse.phase2_references_count [OF run] by simp
  show "count_object (pending k) x = 0 \<Longrightarrow> count_object (pending k) y = 0" for k
    using references_pending.phase2_references_count [OF run, of k] by simp
  assume "bounded_pending K x" "n \<noteq> 0"
  moreover have "lower (\<lambda>k. count_object (pending k) y) (\<lambda>k. count_object (pending k) x)"
    unfolding lower_def
  proof (intro exI [of _ 0] conjI allI impI)
    show "count_object (pending 0) y < count_object (pending 0) x"
      using references_pending.phase2_references_count [OF run, of 0] \<open>n \<noteq> 0\<close> by simp
    show "count_object (pending k) y \<le> count_object (pending k) x" for k
      using references_pending.phase2_references_count [OF run, of k] by (simp split: if_splits)
  qed
  ultimately show "(y, x) \<in> rank K" by (intro rank_lower)
qed

context function_table
begin

lemma functions_ranked: "progress (phase2_functions sys fm)"
proof (intro progress.intro progress_axioms.intro functions_contract)
  fix x y n K
  assume run: "phase2_functions sys fm x = Inr (y, n)"
  note counts = call_weight.functions_count(3) [OF pending_calls run [unfolded phase2_functions_def]]
  show "count_object w_parse x = 0 \<Longrightarrow> count_object w_parse y = 0"
    using call_weight.functions_count(3) [OF parse_calls run [unfolded phase2_functions_def]] by simp
  show "count_object w_parse x = 0 \<Longrightarrow> count_object (pending k) x = 0 \<Longrightarrow>
      count_object (pending k) y = 0" for k
    using counts [of k] by simp
  assume x: "bounded_pending K x" "n \<noteq> 0"
  then have np: "count_object w_parse x = 0" by (simp add: bounded_pending_def)
  have "lower (\<lambda>k. count_object (pending k) y) (\<lambda>k. count_object (pending k) x)"
    unfolding lower_def
  proof (intro exI [of _ 0] conjI allI impI)
    show "count_object (pending 0) y < count_object (pending 0) x"
      using counts [OF np, of 0] \<open>n \<noteq> 0\<close> by simp
    show "count_object (pending k) y \<le> count_object (pending k) x" for k
      using counts [OF np, of k] by (simp split: if_splits)
  qed
  with x show "(y, x) \<in> rank K" by (intro rank_lower)
qed

end

interpretation ranked_functions: progress "phase2_functions sys (config_functions sys)" for sys
  by (rule builtins.functions_ranked)

interpretation ranked_asterisks: progress phase2_asterisks
proof
  fix x y n K
  assume run: "phase2_asterisks x = Inr (y, n)"
  show "count_object w_parse x = 0 \<Longrightarrow> count_object w_parse y = 0"
    by (rule copies_parse.phase2_asterisks_zero_stays [OF run])
  show "count_object (pending k) x = 0 \<Longrightarrow> count_object (pending k) y = 0" for k
    using copies_pending.phase2_asterisks_zero_stays [OF run] by blast
  assume "bounded_pending K x" "n \<noteq> 0"
  with phase2_asterisks_descends [OF run] show "(y, x) \<in> rank K"
    by (intro rank_lower) (simp_all add: descends_def)
qed

interpretation ranked_additions: progress "phase2_additions fadd" for fadd
proof
  fix x y n K
  assume run: "phase2_additions fadd x = Inr (y, n)"
  note counts = additions_pending.additions_count(3) [OF run [unfolded phase2_additions_def]]
  show "wf_object x \<Longrightarrow> count_object w_parse x = 0 \<Longrightarrow> count_object w_parse y = 0"
    using additions_parse.additions_count(3) [OF run [unfolded phase2_additions_def]] by simp
  show "wf_object x \<Longrightarrow> count_object (pending k) x = 0 \<Longrightarrow> count_object (pending k) y = 0" for k
    using counts [of k] by simp
  assume x: "bounded_pending K x" "n \<noteq> 0"
  then have wf: "wf_object x" by (simp add: bounded_pending_def)
  show "(y, x) \<in> rank K" unfolding rank_def
  proof (rule measures_last)
    show "count_object (pending k) y \<le> count_object (pending k) x" for k using counts [OF wf, of k] by simp
    show "(y, x) \<in> measures [count_object w_entry]"
      using w_entry_entry.additions_count(3) [OF run [unfolded phase2_additions_def] wf] x(2) by simp
  qed
qed


section \<open>The loop returns\<close>

context function_table
begin

lemma run_pass_progress: "progress (run_pass sys fm p)"
  by (cases p) (simp_all add: run_pass_def functions_ranked
      ranked_references.progress_axioms ranked_asterisks.progress_axioms
      ranked_additions.progress_axioms)

lemma run_passes_progress:
  "run_passes sys fm ps x = Inr (y, n) \<Longrightarrow> bounded_pending K x \<Longrightarrow>
     bounded_pending K y \<and> (y, x) \<in> (rank K)\<^sup>* \<and> (n \<noteq> 0 \<longrightarrow> (y, x) \<in> (rank K)\<^sup>+)"
proof (induction ps arbitrary: x n)
  case (Cons p ps)
  then obtain z m k where *: "run_pass sys fm p x = Inr (z, m)"
    "run_passes sys fm ps z = Inr (y, k)" "n = Bit_Operations.or m k"
    by (auto simp: res_simps)
  note p = progress.progress [OF run_pass_progress *(1) Cons.prems(2)]
    progress.bounded_pending_stays [OF run_pass_progress *(1) Cons.prems(2)]
  note ps = Cons.IH [OF *(2) p(2)]
  have "(y, x) \<in> (rank K)\<^sup>+" if "n \<noteq> 0"
  proof (cases "m = 0")
    case True
    with that have "k \<noteq> 0" by (simp add: *(3))
    with p ps show ?thesis by (meson trancl_rtrancl_trancl)
  next
    case False
    with p ps show ?thesis by (meson rtrancl_trancl_trancl)
  qed
  with p ps show ?case by (meson rtrancl_trans)
qed simp

lemma phase2_everything_returns:
  assumes "wf_object x" "count_object w_parse x = 0"
  shows "\<exists>r. phase2_everything sys fm order x = Some r"
  unfolding phase2_everything_def
proof (rule while_changed_returns [where I = "bounded_pending (depth_object x)", OF wf_rank])
  show "bounded_pending (depth_object x) x"
    using assms pending_bounded(3) by (simp add: bounded_pending_def)
  fix s t
  assume "bounded_pending (depth_object x) s"
    and "phase2_iteration sys fm order s = Inr (t, True)"
  then show "bounded_pending (depth_object x) t \<and> (t, s) \<in> (rank (depth_object x))\<^sup>+"
    using run_passes_progress by (auto simp: phase2_iteration_Inr)
qed

end

end
