(* ===== verification/Config_Steps.thy ===== *)
theory Config_Steps
  imports Config_Termination
begin

text \<open>
  Phase two as an abstract state machine: a step is one pass over the root that changes
  something, and any pass may be next. The loop of \<open>phase2_everything.hpp\<close> implements it: what
  the loop returns is reachable by steps and allows no further one. Without the function
  \<open>parse\<close> the machine itself terminates, so that it is not the strategy of the loop that makes
  it return.
\<close>

section \<open>The machine\<close>

inductive pass_step :: "system \<Rightarrow> function_map \<Rightarrow> object \<Rightarrow> object \<Rightarrow> bool" for sys fm where
  pass_stepI: "run_pass sys fm p x = Inr (y, n) \<Longrightarrow> n \<noteq> 0 \<Longrightarrow> pass_step sys fm x y"

inductive_cases pass_stepE: "pass_step sys fm x y"

abbreviation pass_steps :: "system \<Rightarrow> function_map \<Rightarrow> object \<Rightarrow> object \<Rightarrow> bool" where
  "pass_steps sys fm \<equiv> (pass_step sys fm)\<^sup>*\<^sup>*"

context function_table
begin

lemma pass_step_wf: "pass_step sys fm x y \<Longrightarrow> wf_object x \<Longrightarrow> wf_object y"
  by (auto elim!: pass_stepE intro: pass_contract.sorted [OF run_pass_contract])

lemma pass_steps_wf: "pass_steps sys fm x y \<Longrightarrow> wf_object x \<Longrightarrow> wf_object y"
  by (induction rule: rtranclp_induct) (auto dest: pass_step_wf)

lemma run_pass_steps: "run_pass sys fm p x = Inr (y, n) \<Longrightarrow> pass_steps sys fm x y"
proof -
  assume run: "run_pass sys fm p x = Inr (y, n)"
  show ?thesis
  proof (cases "n = 0")
    case True
    then show ?thesis using pass_contract.idle [OF run_pass_contract] run by auto
  next
    case False
    then show ?thesis using pass_stepI [OF run] by blast
  qed
qed

lemma run_passes_steps: "run_passes sys fm ps x = Inr (y, n) \<Longrightarrow> pass_steps sys fm x y"
proof (induction ps arbitrary: x n)
  case (Cons p ps)
  then obtain z m k where "run_pass sys fm p x = Inr (z, m)" "run_passes sys fm ps z = Inr (y, k)"
    by (auto simp: res_simps)
  with run_pass_steps Cons.IH show ?case by (meson rtranclp_trans)
qed simp

lemma phase2_everything_steps:
  assumes "phase2_everything sys fm order x = Some (Inr y)"
  shows "pass_steps sys fm x y \<and> (\<forall>p \<in> set order. run_pass sys fm p y = Inr (y, 0))"
proof -
  have "\<exists>u. pass_steps sys fm x u \<and> phase2_iteration sys fm order u = Inr (y, False)"
    by (rule while_changed_last [where I = "pass_steps sys fm x",
          OF assms [unfolded phase2_everything_def]])
      (auto simp: phase2_iteration_Inr dest: run_passes_steps)
  then obtain u where u: "pass_steps sys fm x u" "run_passes sys fm order u = Inr (y, 0)"
    by (auto simp: phase2_iteration_Inr)
  with run_passes_idle [OF u(2)] show ?thesis by auto
qed

text \<open>A step decreases the rank.\<close>

lemma pass_step_ranked:
  assumes "pass_step sys fm x y" "bounded_pending K x"
  shows "bounded_pending K y \<and> (y, x) \<in> rank K"
  using assms(1)
proof cases
  case (pass_stepI p n)
  then show ?thesis
    using progress.ranked [OF run_pass_progress _ assms(2)]
      progress.bounded_pending_stays [OF run_pass_progress _ assms(2)] by blast
qed

lemma no_infinite_steps:
  assumes "bounded_pending K (f 0)"
  shows "\<exists>i. \<not> pass_step sys fm (f i) (f (Suc i))"
proof (rule ccontr)
  assume "\<not> ?thesis"
  then have step: "pass_step sys fm (f i) (f (Suc i))" for i by blast
  have "bounded_pending K (f i)" for i
  proof (induction i)
    case (Suc i)
    with step pass_step_ranked show ?case by blast
  qed (rule assms)
  with step pass_step_ranked have "(f (Suc i), f i) \<in> rank K" for i by blast
  moreover have "wf (rank K)" by (simp add: rank_def)
  ultimately show False unfolding wf_iff_no_infinite_down_chain by blast
qed

end

lemma bounded_pending_depth:
  "wf_object x \<Longrightarrow> count_object w_parse x = 0 \<Longrightarrow> bounded_pending (depth_object x) x"
  using pending_bounded(3) by (simp add: bounded_pending_def)

section \<open>Properties\<close>

text \<open>C5: the loop refines the machine: in whatever order it runs the four passes, its result is
  reached by steps from the root that was read, and in the result no step is possible.\<close>

theorem phase2_refines:
  assumes "function_table fm" "set order = UNIV" "phase2_everything sys fm order x = Some (Inr y)"
  shows "pass_steps sys fm x y \<and> \<not> (\<exists>z. pass_step sys fm y z)"
proof -
  note y = function_table.phase2_everything_steps [OF assms(1,3)]
  then have "run_pass sys fm p y = Inr (y, 0)" for p using assms(2) by blast
  with y show ?thesis by (auto elim!: pass_stepE)
qed

theorem phase2_refines_witness:
  "pass_steps system_example (config_functions system_example) calling_example
     (Object [(''a'', single (STRING ''y'' no_position))] no_position)"
proof -
  let ?order = "[Functions, Additions, References, Asterisks]"
  have "set ?order = UNIV" by (auto intro: pass.exhaust)
  moreover have "phase2_everything system_example (config_functions system_example) ?order calling_example =
      Some (Inr (Object [(''a'', single (STRING ''y'' no_position))] no_position))"
    by code_simp
  ultimately show ?thesis using phase2_refines [OF builtins.function_table_axioms] by blast
qed

text \<open>C6: the machine terminates: whatever pass is next, there is no infinite sequence of passes
  that change something, if the function \<open>parse\<close> is not called.\<close>

theorem passes_terminate:
  assumes "function_table fm" "wf_object (f 0)" "count_object w_parse (f 0) = 0"
  shows "\<not> (\<forall>i. pass_step sys fm (f i) (f (Suc i)))"
  using function_table.no_infinite_steps [where f = f, OF assms(1) bounded_pending_depth [OF assms(2,3)]]
  by blast

theorem passes_terminate_witness:
  "\<not> (\<forall>i::nat. pass_step system_example (config_functions system_example) calling_example calling_example)"
  by (rule passes_terminate [where f = "\<lambda>i. calling_example"])
    (simp_all add: builtins.function_table_axioms om_inv_def)

end
