(* ===== verification/Config_Plain.thy ===== *)
theory Config_Plain
  imports Config_Everything
begin

text \<open>
  Configs without anything for phase two to do: no references, asterisks or function calls, and
  at most one entry in every concat, none where the member was deleted. Every pass leaves such
  a root alone, so that the program returns what phase three leaves of it, converted by phase
  five, in whatever order the passes are evaluated.
\<close>

fun final_node :: "node \<Rightarrow> bool" where
  "final_node (Node_concat c) \<longleftrightarrow> length (concat_list c) \<le> 1"
| "final_node n \<longleftrightarrow> resolved_node n"

lemma final_resolved: "final_node n \<Longrightarrow> resolved_node n"
  by (cases n) auto

lemma final_settled: "final_node n \<Longrightarrow> settled_node n"
proof (cases n)
  case (Node_concat c)
  moreover assume "final_node n"
  ultimately show ?thesis by (cases c; cases "concat_list c") (auto simp: less_Suc_eq_le)
qed auto

lemma map_chg_idle: "(\<And>x. x \<in> set xs \<Longrightarrow> f x = Inr (x, 0)) \<Longrightarrow> map_chg f xs = Inr (xs, 0)"
  by (induction xs) auto

lemma map_chg_on_value_idle:
  "(\<And>k c. (k, c) \<in> set ms \<Longrightarrow> f c = Inr (c, 0)) \<Longrightarrow> map_chg (on_value_chg f) ms = Inr (ms, 0)"
  by (rule map_chg_idle) (auto simp: on_value_chg_def)

section \<open>The four passes\<close>

lemma functions_final:
  "all_entry final_node e \<Longrightarrow> functions_entry sys fm e = Inr (e, 0)"
  "all_array final_node a \<Longrightarrow> functions_array sys fm a = Inr (a, 0)"
  "all_object final_node x \<Longrightarrow> functions_object sys fm x = Inr (x, 0)"
  "all_concat final_node c \<Longrightarrow> functions_concat sys fm c = Inr (c, 0)"
proof (induction e and a and x and c rule: tree_induct)
  case (1 e)
  then show ?case by (cases e) auto
next
  case (3 a)
  then show ?case by (cases a) auto
next
  case (7 ms p)
  then have "map_chg (on_value_chg (functions_concat sys fm)) ms = Inr (ms, 0)"
    by (intro map_chg_on_value_idle) auto
  then show ?case by simp
qed (auto simp: map_chg_idle)

lemma additions_final:
  "all_entry final_node e \<Longrightarrow> additions_entry fadd e = Inr (e, 0)"
  "all_array final_node a \<Longrightarrow> additions_array fadd a = Inr (a, 0)"
  "all_object final_node x \<Longrightarrow> additions_object fadd x = Inr (x, 0)"
  "all_concat final_node c \<Longrightarrow> additions_concat fadd c = Inr (c, 0)"
proof (induction e and a and x and c rule: tree_induct)
  case (1 e)
  then show ?case by (cases e) auto
next
  case (8 h es)
  then have "length es \<le> 1" "map_chg (additions_entry fadd) es = Inr (es, 0)"
    by (auto intro: map_chg_idle)
  then show ?case by (cases es) auto
next
  case (7 ms p)
  then have "map_chg (on_value_chg (additions_concat fadd)) ms = Inr (ms, 0)"
    by (intro map_chg_on_value_idle) auto
  then show ?case by simp
qed (auto simp: map_chg_idle)

lemma references_entries_idle:
  "(\<And>e pre c rt. e \<in> set es \<Longrightarrow> references_entry pre rp c rt e = Inr (e, 0)) \<Longrightarrow>
     references_entries pre rp h rt before es = Inr (before @ es, 0)"
  by (induction es arbitrary: rt before) (auto simp: references_simps)

lemma references_elements_idle:
  "(\<And>c pre h rt before. c \<in> set cs \<Longrightarrow>
      references_entries pre rp h rt before (concat_list c) = Inr (before @ concat_list c, 0)) \<Longrightarrow>
     references_elements pre rp i rt before cs = Inr (before @ cs, 0)"
proof (induction cs arbitrary: i rt before)
  case (Cons c cs)
  obtain h es where c: "c = Concat h es" by (cases c)
  have "references_entries q rp g r b es = Inr (b @ es, 0)" for q g r b
    using Cons.prems [of c] c by simp
  moreover have "references_elements pre rp j r b cs = Inr (b @ cs, 0)" for j r b
    by (rule Cons.IH, rule Cons.prems) simp
  ultimately show ?case by (simp add: c references_simps)
qed (simp add: references_simps)

lemma references_members_idle:
  "(\<And>k c pre h rt before. (k, c) \<in> set ms \<Longrightarrow>
      references_entries pre rp h rt before (concat_list c) = Inr (before @ concat_list c, 0)) \<Longrightarrow>
     references_members pre rp rt before ms = Inr (before @ ms, 0)"
proof (induction ms arbitrary: rt before)
  case (Cons m ms)
  obtain k h es where m: "m = (k, Concat h es)" by (metis concat.exhaust surj_pair)
  have "references_entries p rp g r b es = Inr (b @ es, 0)" for p g r b
    using Cons.prems [of k "Concat h es"] m by simp
  moreover have "references_members pre rp r b ms = Inr (b @ ms, 0)" for r b
  proof (rule Cons.IH)
    show "references_entries q rp h g v (concat_list c) = Inr (v @ concat_list c, 0)"
      if "(k', c) \<in> set ms" for k' c q h g v
      using Cons.prems [of k' c] that by simp
  qed
  ultimately show ?case by (simp add: m references_simps)
qed (simp add: references_simps)

lemma references_final:
  "all_entry final_node e \<Longrightarrow> references_entry pre rp c rt e = Inr (e, 0)"
  "all_array final_node a \<Longrightarrow> references_entry pre rp c rt (ARRAY a) = Inr (ARRAY a, 0)"
  "all_object final_node x \<Longrightarrow> references_members pre rp mroot [] (object_map x) = Inr (object_map x, 0)"
  "all_concat final_node d \<Longrightarrow>
     references_entries pre rp h lroot before (concat_list d) = Inr (before @ concat_list d, 0)"
proof (induction e and a and x and d arbitrary: pre c rt and pre c rt and pre mroot
    and pre h lroot before rule: tree_induct)
  case (1 e)
  then show ?case by (cases e) (auto simp: references_simps)
next
  case (4 x)
  then show ?case by (cases x) (auto simp: references_simps)
next
  case (6 f cs p)
  then have "references_elements pre rp 0 r [] cs = Inr (cs, 0)" for r
    using references_elements_idle [of cs rp pre 0 r "[]"] by auto
  then show ?case by (simp add: references_simps)
next
  case (7 ms p)
  have "references_members pre rp mroot [] ms = Inr ([] @ ms, 0)"
    by (rule references_members_idle, rule 7(1)) (use 7(2) in auto)
  then show ?case by simp
next
  case (8 g es)
  then show ?case using references_entries_idle by auto
qed auto

lemma asterisks_entries_idle:
  "(\<And>e b. e \<in> set es \<Longrightarrow> kind e \<noteq> KIND_ASTERISK \<and> asterisks_entry b e = Inr (e, 0)) \<Longrightarrow>
     asterisks_entries before es = Inr (before @ es, 0)"
proof (induction es arbitrary: before)
  case (Cons e es)
  then have "asterisks_entries (before @ [e]) es = Inr ((before @ [e]) @ es, 0)" by simp
  moreover have "get_asterisk e = None" using Cons.prems [of e] by simp
  moreover have "asterisks_entry b e = Inr (e, 0)" for b using Cons.prems [of e] by simp
  ultimately show ?case by (simp only: asterisks_entries.simps option.case rbind.simps prod.case) simp
qed (simp add: asterisks_entries.simps)

lemma asterisks_final:
  "all_entry final_node e \<Longrightarrow> kind e \<noteq> KIND_ASTERISK \<and> asterisks_entry b e = Inr (e, 0)"
  "all_array final_node a \<Longrightarrow> asterisks_entry b (ARRAY a) = Inr (ARRAY a, 0)"
  "all_object final_node x \<Longrightarrow> asterisks_entry b (OBJECT x) = Inr (OBJECT x, 0) \<and> phase2_asterisks x = Inr (x, 0)"
  "all_concat final_node d \<Longrightarrow> asterisks_concat d = Inr (d, 0)"
proof (induction e and a and x and d arbitrary: b and b and b rule: tree_induct)
  case (1 e)
  then show ?case by (cases e) (auto simp: asterisks_entry.simps)
next
  case (8 h es)
  then show ?case using asterisks_entries_idle [of es "[]"] by (auto simp: asterisks_concat.simps)
next
  case (7 ms p)
  then have "map_chg (on_value_chg asterisks_concat) ms = Inr (ms, 0)"
    by (intro map_chg_on_value_idle) auto
  then show ?case by (simp add: asterisks_entry.simps phase2_asterisks_def)
qed (auto simp: asterisks_entry.simps map_chg_idle)

lemma run_pass_final:
  assumes "all_object final_node x"
  shows "run_pass sys fm p x = Inr (x, 0)"
proof -
  have "phase2_references x = Inr (x, 0)"
    using references_final(3) [OF assms] by (cases x) (simp add: phase2_references_def)
  then show ?thesis
    using functions_final(3) [OF assms] additions_final(3) [OF assms] asterisks_final(3) [OF assms]
    by (cases p) (simp_all add: run_pass_def phase2_functions_def phase2_additions_def)
qed

section \<open>What the program returns\<close>

lemma finish_final:
  assumes "all_object final_node (st_root (parser_state c))"
  shows "finish sys order c = Some (phase5_repack (prune_object (st_root (parser_state c)))) \<and>
    is_ok (phase5_repack (prune_object (st_root (parser_state c))))"
proof -
  let ?x = "st_root (parser_state c)"
  have "run_passes sys (parser_functions c) ps ?x = Inr (?x, 0)" for ps
    by (induction ps) (simp_all add: run_pass_final [OF assms])
  then have "phase2_everything sys (parser_functions c) order ?x = Some (Inr ?x)"
    by (simp add: phase2_everything_def while_changed.simps [of _ ?x] phase2_iteration_def)
  moreover have "resolved_object ?x" "all_object settled_node ?x"
    using all_mono(3) [OF _ assms] final_resolved final_settled by blast+
  ultimately show ?thesis
    using prune_repackable(3) [of ?x] phase5_repack_ok(3) [of "[]" "prune_object ?x"]
    by (simp add: finish_def phase3_remove_prune(3) phase5_repack_def)
qed

end
