(* ===== verification/Config_Text.thy ===== *)
theory Config_Text
  imports Config_Plain
begin

text \<open>
  What is written is what is read: a text of assignments \<open>name=value\<close>, through the grammar and
  its actions, phases one, two, three and five, to the value that the program returns. The
  values are single JAXN values, as taoJSON reads them.
\<close>

section \<open>The text\<close>

type_synonym assignment = "string \<times> string \<times> (position \<Rightarrow> entry)"

text \<open>The name, the text of the value, and the entry that taoJSON makes of it at a position.\<close>

fun assignment_text :: "assignment list \<Rightarrow> string" where
  "assignment_text [] = []"
| "assignment_text ((n, t, e) # as) = n @ ''='' @ t @ '' '' @ assignment_text as"

fun last_value :: "string \<Rightarrow> assignment list \<Rightarrow> (position \<Rightarrow> entry) option" where
  "last_value k [] = None"
| "last_value k ((n, t, e) # as) =
     (case last_value k as of Some f \<Rightarrow> Some f | None \<Rightarrow> if n = k then Some e else None)"

text \<open>
  What the documentation of taoJSON says about its rules: a blank is white space, and the
  characters of an identifier and \<open>=\<close> are not; a name does not begin an object.
\<close>

definition blank_rules :: "config_env \<Rightarrow> bool" where
  "blank_rules env \<longleftrightarrow>
     (\<forall>s. take_rule (ws_rule env) (CHR '' '' # s) = Some s) \<and>
     (\<forall>c s. ident_first c \<or> c = CHR ''='' \<longrightarrow> take_rule (ws_rule env) (c # s) = None) \<and>
     (\<forall>c s. ident_first c \<longrightarrow> take_rule (begin_object_rule env) (c # s) = None)"

text \<open>A text that taoJSON reads as a single value, wherever it stands before a blank.\<close>

definition reads_value :: "config_env \<Rightarrow> positions \<Rightarrow> string \<Rightarrow> (position \<Rightarrow> entry) \<Rightarrow> bool" where
  "reads_value env pos t e \<longleftrightarrow>
     t \<noteq> [] \<and> hd t \<noteq> CHR ''('' \<and> (\<forall>p. atomic (e p)) \<and>
     (\<forall>r. let s = t @ CHR '' '' # r in
        take_rule (ws_rule env) s = None \<and> take_rule (begin_array_rule env) s = None \<and>
        take_rule (begin_object_rule env) s = None \<and> remove_rule s = None \<and>
        (\<exists>ms st. single_value_rule env pos s = (ms, Inr (length t)) \<and>
           jaxn_run (json_env env) ms jaxn_to_entry_init = Inr st \<and>
           jvalue st = Held (e (pos (length s)))))"

definition readable :: "config_env \<Rightarrow> positions \<Rightarrow> assignment list \<Rightarrow> bool" where
  "readable env pos as \<longleftrightarrow>
     blank_rules env \<and> (\<forall>(n, t, e) \<in> set as. is_identifier n \<and> reads_value env pos t e)"

section \<open>One assignment\<close>

lemma wss_stop: "take_rule (ws_rule env) s = None \<Longrightarrow> wss env s = s"
  by (simp add: wss.simps)

lemma wss_blank: "blank_rules env \<Longrightarrow> wss env (CHR '' '' # s) = wss env s"
  by (subst wss.simps) (simp add: blank_rules_def)

lemma take_rule_Nil [simp]: "take_rule m [] = None"
  by (simp add: take_rule_def split: option.splits)

lemma identifier_first: "is_identifier n \<Longrightarrow> \<exists>c cs. n = c # cs \<and> ident_first c"
  by (cases n) (auto simp: is_identifier_def split: if_splits)

text \<open>What may follow: nothing, or a name.\<close>

definition next_name :: "string \<Rightarrow> bool" where
  "next_name s \<longleftrightarrow> s = [] \<or> ident_first (hd s)"

lemma next_name_wss: "blank_rules env \<Longrightarrow> next_name s \<Longrightarrow> wss env s = s"
  by (cases s) (auto simp: next_name_def blank_rules_def intro!: wss_stop)

lemma next_name_text:
  "\<forall>(n, t, e) \<in> set as. is_identifier n \<Longrightarrow> next_name (assignment_text as)"
  by (cases as rule: assignment_text.cases) (auto simp: next_name_def dest!: identifier_first)

lemma ident_first_no: "ident_first c \<Longrightarrow> c \<noteq> CHR '','' \<and> c \<noteq> CHR ''+'' \<and> c \<noteq> CHR ''(''"
  by (auto simp: ident_first_def less_eq_char_def)

lemma next_name_one_rule:
  "next_name s \<Longrightarrow> one_rule '','' s = None" "next_name s \<Longrightarrow> one_rule ''+'' s = None"
  by (cases s; auto simp: next_name_def one_rule_def dest: ident_first_no)+

lemma match_ident_before_equal:
  assumes "is_identifier n"
  shows "match_ident (n @ CHR ''='' # s) = Some (n, CHR ''='' # s)"
proof -
  from assms obtain c cs where n: "n = c # cs" "ident_first c" "dropWhile ident_other cs = []"
    by (cases n) (auto simp: is_identifier_def split: if_splits)
  then have "\<forall>x \<in> set cs. ident_other x" by (simp add: dropWhile_eq_Nil_conv)
  moreover have "\<not> ident_other (CHR ''='')" by (simp add: ident_other_def less_eq_char_def)
  ultimately show ?thesis using n by simp
qed

lemma parse_name:
  "is_identifier n \<Longrightarrow> parse_key1 qf pos (n @ CHR ''='' # s) =
     Inr ([K1_name n (pos (length (n @ CHR ''='' # s)))], CHR ''='' # s)"
  by (simp add: parse_key1_def match_key1_part_def match_ident_before_equal match_key1_tail.simps)

text \<open>The value, which is stored in the member that the state is at.\<close>

definition append_entry :: "entry \<Rightarrow> concat \<Rightarrow> concat" where
  "append_entry e = (\<lambda>c. Concat (head c) (concat_list c @ [e]))"

lemma value_part_reads:
  assumes "reads_value env pos t e"
  shows "value_part env (Suc d) pos st (t @ CHR '' '' # r) =
     rbind (store [] (append_entry (e (pos (length (t @ CHR '' '' # r))))) Phase1_manifest st)
       (\<lambda>st. Inr (st, CHR '' '' # r))"
proof -
  let ?s = "t @ CHR '' '' # r"
  from assms obtain ms js where *: "t \<noteq> []" "hd t \<noteq> CHR ''(''"
    "take_rule (begin_array_rule env) ?s = None" "take_rule (begin_object_rule env) ?s = None"
    "single_value_rule env pos ?s = (ms, Inr (length t))"
    "jaxn_run (json_env env) ms jaxn_to_entry_init = Inr js" "jvalue js = Held (e (pos (length ?s)))"
    by (force simp: reads_value_def Let_def)
  have "one_rule ''('' ?s = None" using *(1,2) by (cases t) (auto simp: one_rule_def)
  moreover have "take_rule (\<lambda>_. Some (length t)) ?s = Some (CHR '' '' # r)"
    using *(1) by (simp add: take_rule_def)
  ultimately show ?thesis using *(3-)
    by (simp add: value_part_body_def sor_def array_rule_def object_rule_def bracketed_value_def
        jaxn_value_def append_entry_def)
qed

text \<open>The root behind an assignment.\<close>

definition assign_root :: "string \<Rightarrow> position \<Rightarrow> entry \<Rightarrow> object \<Rightarrow> object" where
  "assign_root n p e x =
     Object (om_put n
       (Concat ((head (case om_find n (object_map x) of Some c \<Rightarrow> c | None \<Rightarrow> concat_init p))
                \<lparr>remove := True, implicit := False\<rparr>) [e]) (object_map x)) (object_position x)"

lemma om_put_twice: "om_put k w (om_put k v m) = om_put k w m"
  by (induction k v m rule: om_put.induct) auto

lemma store_name:
  assumes "st_prefix st = []" "st_suffix st = [K1_name n p]"
  shows "store [] f mode st = Inr (st\<lparr>st_root := Object
     (om_put n (f (set_implicit (mode = Phase1_implicit \<and>
        (case om_find n (object_map (st_root st)) of Some c \<Rightarrow> implicit (head c) | None \<Rightarrow> True))
        (case om_find n (object_map (st_root st)) of Some c \<Rightarrow> c | None \<Rightarrow> concat_init p)))
      (object_map (st_root st))) (object_position (st_root st))\<rparr>)"
  using assms
  by (cases "om_find n (object_map (st_root st))")
    (simp_all add: store_def phase1_append_object_def try_emplace_def still_implicit_def
      global_nesting_limit_def om_put_twice)


lemma store_assignment:
  assumes "st_prefix st = []" "st_suffix st = [K1_name n p]"
  shows "rbind (assign_head_action st) (store [] (append_entry e) Phase1_manifest) =
     Inr (st\<lparr>st_root := assign_root n p e (st_root st)\<rparr>)"
  using assms
  by (cases "om_find n (object_map (st_root st))")
    (simp_all add: assign_head_action_def store_name om_find_put om_put_twice assign_root_def
      clear_concat_def set_implicit_def append_entry_def concat_init_def)

lemma member_reads:
  assumes "is_identifier n" "blank_rules env" "reads_value env pos t e" "next_name r"
    and "st_prefix st = []" "st_suffix st = []" "st_generation st + 1 \<noteq> 0"
  shows "\<exists>p q. list_body env (member_rule env pos (value_part env (Suc d) pos) parse) st (n @ ''='' @ t @ '' '' @ r) =
     Inr (st\<lparr>st_root := assign_root n p (e q) (st_root st), st_generation := st_generation st + 1\<rparr>, r)"
proof -
  let ?s = "n @ CHR ''='' # t @ CHR '' '' # r"
  let ?st = "key1_guard [K1_name n (pos (length ?s))] st"
  let ?q = "pos (length (t @ CHR '' '' # r))"
  obtain c cs where n: "n = c # cs" "ident_first c" using identifier_first [OF assms(1)] by blast
  then have ext: "extension_member env pos parse st' ?s = Inr None" for st'
    using ident_first_no [OF n(2)] by (simp add: extension_member_def one_rule_def)
  have equal: "wss env (CHR ''='' # t @ CHR '' '' # r) = CHR ''='' # t @ CHR '' '' # r"
    using assms(2) by (intro wss_stop) (simp add: blank_rules_def)
  have val: "wss env (t @ CHR '' '' # r) = t @ CHR '' '' # r" "remove_rule (t @ CHR '' '' # r) = None"
    using assms(3) by (simp_all add: reads_value_def Let_def wss_stop)
  have rest: "wss env (CHR '' '' # r) = r" "wss env r = r" "one_rule '','' r = None" "one_rule ''+'' r = None"
    using assms(2,4) by (simp_all add: wss_blank next_name_wss next_name_one_rule)
  obtain st1 where st1: "assign_head_action ?st = Inr st1"
    "store [] (append_entry (e ?q)) Phase1_manifest st1 =
       Inr (?st\<lparr>st_root := assign_root n (pos (length ?s)) (e ?q) (st_root st)\<rparr>)"
    using store_assignment [of ?st n "pos (length ?s)" "e ?q"] assms(5,6)
    by (auto simp: key1_guard_def res_simps)
  have part: "value_part env (Suc d) pos st1 (t @ CHR '' '' # r) =
      Inr (?st\<lparr>st_root := assign_root n (pos (length ?s)) (e ?q) (st_root st)\<rparr>, CHR '' '' # r)"
    unfolding value_part_reads [OF assms(3)] st1(2) by simp
  have tail: "value_tail env vp st' (CHR '' '' # r) = Inr (st', CHR '' '' # r)" for vp st'
    by (subst value_tail.simps) (simp add: rest)
  have "value_list env (value_part env (Suc d) pos) st1 (t @ CHR '' '' # r) =
      Inr (?st\<lparr>st_root := assign_root n (pos (length ?s)) (e ?q) (st_root st),
               st_generation := st_generation st + 1\<rparr>, CHR '' '' # r)"
    using assms(7)
    by (simp add: value_list_def part tail value_list_action_def key1_guard_def Let_def del: value_part.simps)
  then have "key_member env (value_part env (Suc d) pos) ?st (CHR ''='' # t @ CHR '' '' # r) =
      Inr (?st\<lparr>st_root := assign_root n (pos (length ?s)) (e ?q) (st_root st),
               st_generation := st_generation st + 1\<rparr>, CHR '' '' # r)"
    using st1(1) by (simp add: key_member_def sor_def assign_member_def equal one_rule_def val del: value_part.simps)
  then have "list_body env (member_rule env pos (value_part env (Suc d) pos) parse) st ?s =
     Inr (st\<lparr>st_root := assign_root n (pos (length ?s)) (e ?q) (st_root st),
             st_generation := st_generation st + 1\<rparr>, r)"
    using assms(5,6)
    by (cases st) (simp add: list_body_def member_rule_def sor_def ext member_key_def parse_name [OF assms(1)]
        with_guard_def key1_guard_leave_def key1_guard_def rest opt_comma_def del: value_part.simps)
  then show ?thesis by auto
qed


section \<open>The whole text\<close>

text \<open>What the root looks like behind the assignments: every member is plain, and has the last
  value that was assigned to it.\<close>

definition plain_member :: "concat \<Rightarrow> bool" where
  "plain_member c \<longleftrightarrow>
     \<not> implicit (head c) \<and> \<not> temporary (head c) \<and> (\<exists>e. concat_list c = [e] \<and> atomic e)"

definition holds_values :: "assignment list \<Rightarrow> object \<Rightarrow> object \<Rightarrow> bool" where
  "holds_values as x y \<longleftrightarrow>
     (\<forall>k. case last_value k as of
        None \<Rightarrow> om_find k (object_map y) = om_find k (object_map x)
      | Some e \<Rightarrow> \<exists>c q. om_find k (object_map y) = Some c \<and> concat_list c = [e q])"

definition plain_root :: "object \<Rightarrow> bool" where
  "plain_root x \<longleftrightarrow> (\<forall>(k, c) \<in> set (object_map x). plain_member c)"

lemma assign_root_plain:
  assumes "plain_root x" "atomic e"
  shows "plain_root (assign_root n p e x)"
proof -
  let ?c = "case om_find n (object_map x) of Some c \<Rightarrow> c | None \<Rightarrow> concat_init p"
  have "\<not> temporary (head ?c)"
  proof (cases "om_find n (object_map x)")
    case (Some c)
    with om_find_in assms(1) show ?thesis by (fastforce simp: plain_root_def plain_member_def)
  qed (simp add: concat_init_def)
  with assms show ?thesis
    using set_om_put [of n "Concat ((head ?c)\<lparr>remove := True, implicit := False\<rparr>) [e]" "object_map x"]
    by (fastforce simp: plain_root_def plain_member_def assign_root_def)
qed

lemma members_read:
  assumes "readable env pos as" "st_prefix st = []" "st_suffix st = []" "plain_root (st_root st)"
    and "unat (st_generation st) + length as < 2 ^ 64"
  shows "\<exists>st'. until_loop eof_rule (list_body env (member_rule env pos (value_part env (Suc d) pos) parse)) st
       (assignment_text as) = Inr (st', []) \<and>
     plain_root (st_root st') \<and> holds_values as (st_root st) (st_root st')"
  using assms
proof (induction as arbitrary: st)
  case Nil
  then show ?case by (simp add: until_loop.simps eof_rule_def holds_values_def)
next
  case (Cons a as)
  obtain n t e where a: "a = (n, t, e)" by (cases a)
  have as: "readable env pos as" "is_identifier n" "blank_rules env" "reads_value env pos t e"
    "\<forall>(n, t, e) \<in> set as. is_identifier n"
    using Cons.prems(1) a by (auto simp: readable_def)
  have g: "st_generation st + 1 \<noteq> 0" "unat (st_generation st + 1) = unat (st_generation st) + 1"
  proof -
    show *: "unat (st_generation st + 1) = unat (st_generation st) + 1"
      using Cons.prems(5) by (simp add: unat_word_ariths)
    then show "st_generation st + 1 \<noteq> 0" by auto
  qed
  obtain p q where body: "list_body env (member_rule env pos (value_part env (Suc d) pos) parse) st
      (n @ ''='' @ t @ '' '' @ assignment_text as) =
      Inr (st\<lparr>st_root := assign_root n p (e q) (st_root st), st_generation := st_generation st + 1\<rparr>,
        assignment_text as)"
    using member_reads [OF as(2,3,4) next_name_text [OF as(5)] Cons.prems(2,3) g(1)] by blast
  let ?st = "st\<lparr>st_root := assign_root n p (e q) (st_root st), st_generation := st_generation st + 1\<rparr>"
  have "atomic (e q)" using as(4) by (simp add: reads_value_def)
  then have "plain_root (st_root ?st)" using assign_root_plain Cons.prems(4) by simp
  then obtain st' where st': "until_loop eof_rule (list_body env (member_rule env pos (value_part env (Suc d) pos) parse))
      ?st (assignment_text as) = Inr (st', [])" "plain_root (st_root st')"
    "holds_values as (st_root ?st) (st_root st')"
    using Cons.IH [of ?st] as(1) Cons.prems g(2) by (auto simp del: value_part.simps)
  have "n \<noteq> []" using as(2) by (auto simp: is_identifier_def)
  then have "until_loop eof_rule (list_body env (member_rule env pos (value_part env (Suc d) pos) parse)) st
      (assignment_text (a # as)) = Inr (st', [])"
    using body st'(1) a by (subst until_loop.simps) (simp add: eof_rule_def del: value_part.simps)
  moreover have "holds_values (a # as) (st_root st) (st_root st')"
    unfolding holds_values_def a
  proof
    fix k
    show "case last_value k ((n, t, e) # as) of
        None \<Rightarrow> om_find k (object_map (st_root st')) = om_find k (object_map (st_root st))
      | Some e \<Rightarrow> \<exists>c q. om_find k (object_map (st_root st')) = Some c \<and> concat_list c = [e q]"
      using st'(3) [unfolded holds_values_def, rule_format, of k]
      by (cases "last_value k as"; cases "n = k") (auto simp: assign_root_def om_find_put)
  qed
  ultimately show ?case using st'(2) by blast
qed


lemma text_read:
  assumes "readable env pos as" "Suc (length as) < 2 ^ 64"
  shows "\<exists>st. config_file env (Suc (Suc d)) pos (state_init b) (assignment_text as) = Inr (st, []) \<and>
    plain_root (st_root st) \<and> holds_values as (st_root (state_init b)) (st_root st)"
proof -
  have "next_name (assignment_text as)" "blank_rules env"
    using assms(1) by (auto simp: readable_def intro: next_name_text)
  then have "wss env (assignment_text as) = assignment_text as"
    "take_rule (begin_object_rule env) (assignment_text as) = None"
    using next_name_wss
    by (auto simp: next_name_def blank_rules_def) (cases "assignment_text as"; auto)
  then show ?thesis
    using members_read [of env pos as "state_init b" d "config_file env (Suc d)"] assms
    by (simp add: config_file_body_def member_list_def plain_root_def state_init_def del: value_part.simps)
qed

lemma plain_member_final:
  assumes "plain_member c"
  shows "all_concat final_node c" "all_concat kept_node c" "\<not> omit_from_final_result c"
  using assms
  by (cases c; auto simp: plain_member_def omit_from_final_result_def elim!: atomic_cases)+

lemma plain_root_final:
  assumes "plain_root x"
  shows "all_object final_node x" "prune_object x = x"
proof -
  obtain ms p where x: "x = Object ms p" by (cases x)
  have member: "plain_member c" if "(k, c) \<in> set ms" for k c
    using that assms x by (auto simp: plain_root_def)
  have "\<forall>(k, c) \<in> set ms. all_concat final_node c" "\<forall>(k, c) \<in> set ms. all_concat kept_node c"
    "\<forall>(k, c) \<in> set ms. \<not> omit_from_final_result c"
    using member plain_member_final by blast+
  then have "all_object final_node x" "all_object kept_node x" unfolding x by simp_all
  then show "all_object final_node x" "prune_object x = x" by (simp_all add: prune_id(3))
qed

lemma map_res_on_member_finds:
  "map_res (on_member f) ms = Inr vs \<Longrightarrow>
     (case om_find n ms of
        None \<Rightarrow> om_find n vs = None
      | Some c \<Rightarrow> \<exists>w. f n c = Inr w \<and> om_find n vs = Some w)"
  by (induction ms arbitrary: vs) (auto simp: res_simps on_member_def split: option.splits if_splits)

lemma access_repacked:
  assumes "phase5_repack x = Inr v"
  shows "access v [Key_name k] =
    (case om_find k (object_map x) of
       None \<Rightarrow> Inl (not_found_error k)
     | Some c \<Rightarrow> phase5_repack_concat [Key_name k] c)"
proof -
  obtain ms p where x: "x = Object ms p" by (cases x)
  with assms obtain vs a where "v = V_object vs a"
    "map_res (on_member (\<lambda>n c. phase5_repack_concat (key_append_part [] (Key_name n)) c)) ms = Inr vs"
    by (auto simp: phase5_repack_def res_simps)
  with map_res_on_member_finds [OF this(2), of k] x show ?thesis
    by (auto simp: access_part_simps key_append_part_def split: option.splits)
qed

section \<open>A concrete reader\<close>

text \<open>Strings without escape sequences, \<open>null\<close>, and what the reader of the prior examples knows.\<close>

definition reader_example :: config_env where
  "reader_example = env_example
     \<lparr>single_value_rule := (\<lambda>pos s.
        if take 1 s = [CHR 0x22]
        then (case plain_quoted s of
                Some (t, n) \<Rightarrow> ([(Scalar (String_value t), pos (length s))], Inr n)
              | None \<Rightarrow> ([], Inl ''sor_single_value''))
        else if take 4 s = ''null'' then ([(Scalar Kw_null, pos (length s))], Inr 4)
        else single_value_rule env_example pos s)\<rparr>"

definition text_example :: system where
  "text_example = system_example\<lparr>reader := reader_example\<rparr>"

section \<open>Properties\<close>

text \<open>What is written is what is read: a text of assignments of single JAXN values is read and
  finished without an error, in every order of the passes, and \<open>access\<close> finds for every name
  the last value that was assigned to it, and nothing for any other name.\<close>

theorem assignments_are_read:
  assumes "readable (reader sys) (text_positions sys name (assignment_text as)) as"
    and "2 \<le> stack_room sys" "Suc (length as) < 2 ^ 64"
  shows "\<exists>v. from_string sys order (assignment_text as) name = Some (Inr v) \<and>
    (\<exists>q. \<forall>k. access v [Key_name k] =
       (case last_value k as of
          None \<Rightarrow> Inl (not_found_error k)
        | Some e \<Rightarrow> phase5_repack_entry [Key_name k] (e (q k))))"
proof -
  obtain d where d: "stack_room sys = Suc (Suc d)"
    using assms(2) that [of "stack_room sys - 2"] by simp
  obtain st where st: "config_file (reader sys) (stack_room sys)
      (text_positions sys name (assignment_text as)) (state_init (initial_flag sys)) (assignment_text as) = Inr (st, [])"
    "plain_root (st_root st)" "holds_values as (st_root (state_init (initial_flag sys))) (st_root st)"
    using text_read [OF assms(1,3), of d "initial_flag sys"] unfolding d by blast
  let ?c = "config_parser_init sys\<lparr>parser_state := st\<rparr>"
  have "from_string sys order (assignment_text as) name = finish sys order ?c"
    using st(1) by (simp add: from_string_def finish_parsed_def parse_string_def parse_input_def config_parser_init_def)
  moreover obtain v where v: "finish sys order ?c = Some (Inr v)" "phase5_repack (st_root st) = Inr v"
    using finish_final [of ?c sys order] plain_root_final [OF st(2)] by (auto simp: is_ok_iff)
  have "\<exists>q. access v [Key_name k] =
       (case last_value k as of
          None \<Rightarrow> Inl (not_found_error k)
        | Some e \<Rightarrow> phase5_repack_entry [Key_name k] (e q))" for k
  proof (cases "last_value k as")
    case None
    then show ?thesis using st(3) [unfolded holds_values_def, rule_format, of k]
      unfolding access_repacked [OF v(2)] by (simp add: state_init_def)
  next
    case (Some e)
    then obtain c q where c: "om_find k (object_map (st_root st)) = Some c" "concat_list c = [e q]"
      using st(3) [unfolded holds_values_def, rule_format, of k] by auto
    then obtain h where "c = Concat h [e q]" by (cases c) auto
    with c Some show ?thesis unfolding access_repacked [OF v(2)] by auto
  qed
  then have "\<exists>q. \<forall>k. access v [Key_name k] =
       (case last_value k as of
          None \<Rightarrow> Inl (not_found_error k)
        | Some e \<Rightarrow> phase5_repack_entry [Key_name k] (e (q k)))"
    by (intro choice) blast
  ultimately show ?thesis using v(1) by auto
qed

lemma readable_example:
  "readable (reader text_example) pos
     [(''a'', ''null'', NULL), (''b'', ''\"x\"'', STRING ''x''), (''a'', ''0'', UNSIGNED 0)]"
proof -
  have blanks: "blank_rules (reader text_example)"
    by (auto simp: blank_rules_def text_example_def reader_example_def env_example_def system_example_def
        take_rule_def char_rule_def ident_first_def less_eq_char_def)
  moreover have "is_identifier ''a''" "is_identifier ''b''" by code_simp+
  moreover have "reads_value (reader text_example) pos ''null'' NULL"
    by (simp add: reads_value_def text_example_def reader_example_def env_example_def system_example_def
        take_rule_def char_rule_def remove_rule_def string_rule.simps jaxn_run_def Let_def)
  moreover have "reads_value (reader text_example) pos ''\"x\"'' (STRING ''x'')"
    by (simp add: reads_value_def text_example_def reader_example_def env_example_def system_example_def
        take_rule_def char_rule_def remove_rule_def string_rule.simps jaxn_run_def Let_def plain_quoted_def)
  moreover have "match_index (CHR ''0'' # CHR '' '' # r) = Some (0, CHR '' '' # r)" for r
    by (simp add: match_index_def is_digit_def less_eq_char_def stoul_def digit_value_def)
  then have "reads_value (reader text_example) pos ''0'' (UNSIGNED 0)"
    by (simp add: reads_value_def text_example_def reader_example_def env_example_def system_example_def
        take_rule_def char_rule_def remove_rule_def string_rule.simps jaxn_run_def Let_def)
  ultimately show ?thesis by (simp add: readable_def)
qed

theorem assignments_are_read_witness:
  "\<exists>v q. from_string text_example [Asterisks, Additions, Functions, References] ''a=null b=\"x\" a=0 '' '''' = Some (Inr v) \<and>
     access v [Key_name ''a''] = Inr (V_unsigned 0 q)"
proof -
  let ?as = "[(''a'', ''null'', NULL), (''b'', ''\"x\"'', STRING ''x''), (''a'', ''0'', UNSIGNED 0)]"
  have s: "assignment_text ?as = ''a=null b=\"x\" a=0 ''" by simp
  have "2 \<le> stack_room text_example" by (simp add: text_example_def system_example_def)
  then obtain v q where v: "from_string text_example [Asterisks, Additions, Functions, References]
      (assignment_text ?as) '''' = Some (Inr v)"
    "\<forall>k. access v [Key_name k] = (case last_value k ?as of
        None \<Rightarrow> Inl (not_found_error k)
      | Some e \<Rightarrow> phase5_repack_entry [Key_name k] (e (q k)))"
    using assignments_are_read [OF readable_example,
      where name = "''''" and order = "[Asterisks, Additions, Functions, References]"]
    by auto
  have "last_value ''a'' ?as = Some (UNSIGNED 0)" by simp
  with v(2) have "access v [Key_name ''a''] = phase5_repack_entry [Key_name ''a''] (UNSIGNED 0 (q ''a''))"
    by (metis option.simps(5))
  with v(1) show ?thesis unfolding s by auto
qed

end
