(* ===== verification/Config_Document.thy ===== *)
theory Config_Document
  imports Config_Text
begin

text \<open>
  Whole documents: nested arrays and objects of single values, written in the syntax of config
  files, are read as the value that they denote. A document has its text and its value; one
  simultaneous induction over documents, elements and members follows the grammar, the keys of
  the state and phase one from the text to the representation, and the lemmas of
  \<open>Config_Plain\<close> lead from there to the value that the program returns.
\<close>

section \<open>Documents\<close>

text \<open>A scalar is given by its text and by the value that taoJSON reads there.\<close>

datatype doc = Doc_scalar string json_value | Doc_array "doc list" | Doc_object "(string \<times> doc) list"

fun doc_text :: "doc \<Rightarrow> string"
  and elements_text :: "doc list \<Rightarrow> string"
  and members_text :: "(string \<times> doc) list \<Rightarrow> string" where
  "doc_text (Doc_scalar t v) = t"
| "doc_text (Doc_array ds) = ''['' @ elements_text ds @ '']''"
| "doc_text (Doc_object ms) = ''{'' @ members_text ms @ ''}''"
| "elements_text [] = []"
| "elements_text (d # ds) = doc_text d @ '' '' @ elements_text ds"
| "members_text [] = []"
| "members_text ((n, d) # ms) = n @ ''='' @ doc_text d @ '' '' @ members_text ms"

text \<open>The value, without annotations. A name that is assigned again gets the new value.\<close>

fun doc_value :: "doc \<Rightarrow> json_value"
  and elements_value :: "doc list \<Rightarrow> json_value list"
  and members_value :: "(string \<times> doc) list \<Rightarrow> (string \<times> json_value) list \<Rightarrow> (string \<times> json_value) list" where
  "doc_value (Doc_scalar t v) = v"
| "doc_value (Doc_array ds) = V_array (elements_value ds) annotation_init"
| "doc_value (Doc_object ms) = V_object (members_value ms []) annotation_init"
| "elements_value [] = []"
| "elements_value (d # ds) = doc_value d # elements_value ds"
| "members_value [] vs = vs"
| "members_value ((n, d) # ms) vs = members_value ms (om_put n (doc_value d) vs)"

fun height :: "doc \<Rightarrow> nat"
  and elements_height :: "doc list \<Rightarrow> nat"
  and members_height :: "(string \<times> doc) list \<Rightarrow> nat" where
  "height (Doc_scalar t v) = 0"
| "height (Doc_array ds) = Suc (elements_height ds)"
| "height (Doc_object ms) = Suc (members_height ms)"
| "elements_height [] = 0"
| "elements_height (d # ds) = max (height d) (elements_height ds)"
| "members_height [] = 0"
| "members_height ((n, d) # ms) = max (height d) (members_height ms)"

text \<open>How often the generation of the state is increased.\<close>

fun generations :: "doc \<Rightarrow> nat"
  and elements_generations :: "doc list \<Rightarrow> nat"
  and members_generations :: "(string \<times> doc) list \<Rightarrow> nat" where
  "generations (Doc_scalar t v) = 0"
| "generations (Doc_array ds) = Suc (elements_generations ds)"
| "generations (Doc_object ms) = members_generations ms"
| "elements_generations [] = 0"
| "elements_generations (d # ds) = Suc (generations d + elements_generations ds)"
| "members_generations [] = 0"
| "members_generations ((n, d) # ms) = Suc (generations d + members_generations ms)"

fun strip :: "json_value \<Rightarrow> json_value" where
  "strip (V_array vs a) = V_array (map strip vs) annotation_init"
| "strip (V_object ms a) = V_object (map (\<lambda>(k, v). (k, strip v)) ms) annotation_init"
| "strip (V_null a) = V_null annotation_init"
| "strip (V_boolean b a) = V_boolean b annotation_init"
| "strip (V_string s a) = V_string s annotation_init"
| "strip (V_binary b a) = V_binary b annotation_init"
| "strip (V_signed i a) = V_signed i annotation_init"
| "strip (V_unsigned u a) = V_unsigned u annotation_init"
| "strip (V_double d a) = V_double d annotation_init"

section \<open>Entries that become a value\<close>

text \<open>Nothing is left to do for phases two and three, and phase five makes the value of it.\<close>

definition yields :: "entry \<Rightarrow> json_value \<Rightarrow> bool" where
  "yields e v \<longleftrightarrow>
     all_entry final_node e \<and> all_entry kept_node e \<and>
     (\<forall>k. \<exists>w. phase5_repack_entry k e = Inr w \<and> strip w = v)"

definition concat_yields :: "concat \<Rightarrow> json_value \<Rightarrow> bool" where
  "concat_yields c v \<longleftrightarrow>
     \<not> implicit (head c) \<and> \<not> temporary (head c) \<and> (\<exists>e. concat_list c = [e] \<and> yields e v)"

definition members_yield :: "(string \<times> concat) list \<Rightarrow> (string \<times> json_value) list \<Rightarrow> bool" where
  "members_yield = list_all2 (\<lambda>(k, c) (l, v). k = l \<and> concat_yields c v)"

lemma concat_yieldsD:
  assumes "concat_yields c v"
  shows "all_concat final_node c" "all_concat kept_node c" "\<not> omit_from_final_result c"
    "\<exists>w. phase5_repack_concat k c = Inr w \<and> strip w = v"
proof -
  obtain h e where c: "c = Concat h [e]" "yields e v" "\<not> implicit h" "\<not> temporary h"
    using assms by (cases c) (auto simp: concat_yields_def)
  then show "all_concat final_node c" "all_concat kept_node c" "\<not> omit_from_final_result c"
    "\<exists>w. phase5_repack_concat k c = Inr w \<and> strip w = v"
    by (auto simp: yields_def omit_from_final_result_def)
qed

lemma yields_scalar:
  "strip (V_null a) = v \<Longrightarrow> yields (NULL p) v" "strip (V_boolean b a) = v \<Longrightarrow> yields (BOOLEAN b p) v"
  "strip (V_string s a) = v \<Longrightarrow> yields (STRING s p) v" "strip (V_binary y a) = v \<Longrightarrow> yields (BINARY y p) v"
  "strip (V_signed i a) = v \<Longrightarrow> yields (SIGNED i p) v" "strip (V_unsigned u a) = v \<Longrightarrow> yields (UNSIGNED u p) v"
  "strip (V_double d a) = v \<Longrightarrow> yields (DOUBLE d p) v"
  by (simp_all add: yields_def)

lemma yields_array:
  assumes "list_all2 concat_yields cs vs"
  shows "yields (ARRAY (Array [] cs p)) (V_array vs annotation_init)"
proof -
  have all: "\<forall>c \<in> set cs. all_concat final_node c \<and> all_concat kept_node c \<and> \<not> omit_from_final_result c"
    using assms by (induction rule: list_all2_induct) (auto simp: concat_yieldsD(1,2,3))
  have "\<exists>ws. map_res_idx (\<lambda>i c. phase5_repack_concat (key_append_part k (Key_index i)) c) n cs = Inr ws \<and>
      map strip ws = vs" for k n
    using assms
  proof (induction cs vs arbitrary: n rule: list_all2_induct)
    case (Cons c cs v vs)
    obtain w where "phase5_repack_concat (key_append_part k (Key_index n)) c = Inr w" "strip w = v"
      using concat_yieldsD(4) [OF Cons.hyps(1)] by blast
    moreover obtain ws where "map_res_idx (\<lambda>i c. phase5_repack_concat (key_append_part k (Key_index i)) c) (Suc n) cs = Inr ws"
      "map strip ws = vs"
      using Cons.IH by blast
    ultimately show ?case by simp
  qed simp
  then have "\<exists>w. phase5_repack_entry k (ARRAY (Array [] cs p)) = Inr w \<and> strip w = V_array vs annotation_init" for k
    by (metis array.sel(1) phase5_repack_array.simps phase5_repack_entry.simps(8) rbind.simps(2) strip.simps(1))
  with all show ?thesis unfolding yields_def by simp
qed

lemma members_yield_in: "members_yield ms vs \<Longrightarrow> (k, c) \<in> set ms \<Longrightarrow> \<exists>v. concat_yields c v"
  unfolding members_yield_def by (induction rule: list_all2_induct) auto

lemma yields_object:
  assumes "members_yield ms vs"
  shows "yields (OBJECT (Object ms p)) (V_object vs annotation_init)"
proof -
  have "\<exists>ws. map_res (on_member (\<lambda>n c. phase5_repack_concat (key_append_part k (Key_name n)) c)) ms = Inr ws \<and>
      map (\<lambda>(k, v). (k, strip v)) ws = vs" for k
    using assms unfolding members_yield_def
  proof (induction ms vs rule: list_all2_induct)
    case (Cons m ms lv vs)
    obtain n c v where m: "m = (n, c)" "lv = (n, v)" "concat_yields c v"
      using Cons.hyps(1) by (cases m; cases lv) auto
    obtain w where "phase5_repack_concat (key_append_part k (Key_name n)) c = Inr w" "strip w = v"
      using concat_yieldsD(4) [OF m(3)] by blast
    moreover obtain ws where "map_res (on_member (\<lambda>n c. phase5_repack_concat (key_append_part k (Key_name n)) c)) ms = Inr ws"
      "map (\<lambda>(k, v). (k, strip v)) ws = vs"
      using Cons.IH by blast
    moreover have "on_member (\<lambda>n c. phase5_repack_concat (key_append_part k (Key_name n)) c) (n, c) = Inr (n, w)"
      using calculation(1) by (simp add: on_member_def)
    ultimately show ?case using m by simp
  qed simp
  then have "\<exists>w. phase5_repack_entry k (OBJECT (Object ms p)) = Inr w \<and> strip w = V_object vs annotation_init" for k
    by (metis phase5_repack_object.simps phase5_repack_entry.simps(9) rbind.simps(2) strip.simps(2))
  moreover have "\<forall>(k, c) \<in> set ms. all_concat final_node c \<and> all_concat kept_node c \<and> \<not> omit_from_final_result c"
    using members_yield_in [OF assms] concat_yieldsD(1,2,3) by blast
  ultimately show ?thesis unfolding yields_def by (fastforce split: prod.splits)
qed

lemma members_yield_put:
  assumes "members_yield ms vs" "concat_yields c v"
  shows "members_yield (om_put n c ms) (om_put n v vs)"
  using assms(1) unfolding members_yield_def
proof (induction ms vs rule: list_all2_induct)
  case (Cons m ms w vs)
  then show ?case using assms(2) by (cases m; cases w) auto
qed (use assms(2) in simp)

section \<open>Where the state stores\<close>

text \<open>
  \<open>put\<close> rebuilds the root around the concat that a key leads to. \<open>ready\<close>: a store in the
  root changes the concat; \<open>live\<close>: the same in every root that \<open>put\<close> builds, however
  often the concat was changed. Both speak about longer keys too.
\<close>

definition ready :: "key1 \<Rightarrow> (concat \<Rightarrow> object) \<Rightarrow> concat \<Rightarrow> object \<Rightarrow> bool" where
  "ready path put c x \<longleftrightarrow>
     (\<forall>q f. length (path @ q) \<le> global_nesting_limit \<longrightarrow>
        phase1_append_object x (path @ q) f Phase1_manifest =
          rbind (phase1_append c q f Phase1_manifest) (\<lambda>d. Inr (put d)))"

definition live :: "key1 \<Rightarrow> (concat \<Rightarrow> object) \<Rightarrow> bool" where
  "live path put \<longleftrightarrow>
     (\<forall>c q f mode. \<not> implicit (head c) \<longrightarrow> length (path @ q) \<le> global_nesting_limit \<longrightarrow>
        phase1_append_object (put c) (path @ q) f mode =
          rbind (phase1_append c q f mode) (\<lambda>d. Inr (put d)))"

text \<open>The same for the members of an object, where the store creates the member.\<close>

definition live_members :: "key1 \<Rightarrow> ((string \<times> concat) list \<Rightarrow> object) \<Rightarrow> bool" where
  "live_members path put \<longleftrightarrow>
     (\<forall>ms n p q f mode. length (path @ K1_name n p # q) \<le> global_nesting_limit \<longrightarrow>
        phase1_append_object (put ms) (path @ K1_name n p # q) f mode =
          (case try_emplace n (concat_init p) ms of
             (ms', d, inserted) \<Rightarrow>
               rbind (phase1_append (set_implicit (still_implicit mode inserted d) d) q f mode)
                 (\<lambda>d'. Inr (put (om_put n d' ms')))))"

lemma liveD:
  "live path put \<Longrightarrow> \<not> implicit (head c) \<Longrightarrow> length (path @ q) \<le> global_nesting_limit \<Longrightarrow>
     phase1_append_object (put c) (path @ q) f mode = rbind (phase1_append c q f mode) (\<lambda>d. Inr (put d))"
  by (simp add: live_def)

lemma live_ready: "live path put \<Longrightarrow> \<not> implicit (head c) \<Longrightarrow> ready path put c (put c)"
  by (simp add: live_def ready_def)

lemma live_members_root: "live_members [] (\<lambda>ms. Object ms p)"
  by (simp add: live_members_def phase1_append_object_def)

lemma back_ensure_init_one: "kind e = kind init \<Longrightarrow> back_ensure_init init [e] = [e]"
  by (simp add: back_ensure_init_def)

lemma live_members_object:
  assumes "live path put" "\<not> implicit h"
  shows "live_members path (\<lambda>ms. put (Concat h [OBJECT (Object ms q)]))"
  unfolding live_members_def
proof (intro allI impI)
  fix ms n p qs f mode
  assume "length (path @ K1_name n p # qs) \<le> global_nesting_limit"
  then have "phase1_append_object (put (Concat h [OBJECT (Object ms q)])) (path @ K1_name n p # qs) f mode =
      rbind (phase1_append (Concat h [OBJECT (Object ms q)]) (K1_name n p # qs) f mode) (\<lambda>d. Inr (put d))"
    using assms by (intro liveD) simp_all
  then show "phase1_append_object (put (Concat h [OBJECT (Object ms q)])) (path @ K1_name n p # qs) f mode =
      (case try_emplace n (concat_init p) ms of
         (ms', d, inserted) \<Rightarrow>
           rbind (phase1_append (set_implicit (still_implicit mode inserted d) d) qs f mode)
             (\<lambda>d'. Inr (put (Concat h [OBJECT (Object (om_put n d' ms') q)]))))"
    by (simp add: phase1_append.simps [of _ "K1_name n p # qs"] phase1_append_name.simps Let_def
        back_ensure_init_one rbind_assoc split: prod.splits)
qed

text \<open>A member: after the implicit store of an assignment, which empties it.\<close>

lemma set_implicit_same: "\<not> implicit (head c) \<Longrightarrow> set_implicit False c = c"
  by (cases c) (simp add: set_implicit_def)

lemma live_member:
  assumes "live_members path put"
  shows "live (path @ [K1_name n p]) (\<lambda>c. put (om_put n c ms))"
  unfolding live_def
proof (intro allI impI)
  fix c q f mode
  assume "\<not> implicit (head c)" "length ((path @ [K1_name n p]) @ q) \<le> global_nesting_limit"
  then show "phase1_append_object (put (om_put n c ms)) ((path @ [K1_name n p]) @ q) f mode =
      rbind (phase1_append c q f mode) (\<lambda>d. Inr (put (om_put n d ms)))"
    using assms [unfolded live_members_def, rule_format, of n p q "om_put n c ms" f mode]
    by (simp add: try_emplace_def om_find_put still_implicit_def set_implicit_same om_put_twice)
qed

definition emptied_member :: "string \<Rightarrow> position \<Rightarrow> (string \<times> concat) list \<Rightarrow> concat" where
  "emptied_member n p ms =
     Concat ((head (case om_find n ms of Some c \<Rightarrow> c | None \<Rightarrow> concat_init p))
       \<lparr>remove := True, implicit := False\<rparr>) []"

lemma assign_member_ready:
  assumes "live_members path put" "length (path @ [K1_name n p]) \<le> global_nesting_limit"
  shows "\<exists>y. phase1_append_object (put ms) (path @ [K1_name n p]) clear_concat Phase1_implicit = Inr y \<and>
    ready (path @ [K1_name n p]) (\<lambda>c. put (om_put n c ms)) (emptied_member n p ms) y"
proof -
  let ?c = "case om_find n ms of Some c \<Rightarrow> c | None \<Rightarrow> concat_init p"
  obtain b where y: "phase1_append_object (put ms) (path @ [K1_name n p]) clear_concat Phase1_implicit =
      Inr (put (om_put n (clear_concat (set_implicit b ?c)) ms))"
    using assms(1) [unfolded live_members_def, rule_format, of n p "[]" ms clear_concat Phase1_implicit] assms(2)
    by (cases "om_find n ms") (simp_all add: try_emplace_def om_put_twice)
  have "ready (path @ [K1_name n p]) (\<lambda>c. put (om_put n c ms)) (emptied_member n p ms)
      (put (om_put n (clear_concat (set_implicit b ?c)) ms))"
    unfolding ready_def
  proof (intro allI impI)
    fix q f
    assume "length ((path @ [K1_name n p]) @ q) \<le> global_nesting_limit"
    moreover have "set_implicit False (clear_concat (set_implicit b ?c)) = emptied_member n p ms"
      by (simp add: set_implicit_def clear_concat_def emptied_member_def)
    ultimately show "phase1_append_object (put (om_put n (clear_concat (set_implicit b ?c)) ms))
        ((path @ [K1_name n p]) @ q) f Phase1_manifest =
        rbind (phase1_append (emptied_member n p ms) q f Phase1_manifest) (\<lambda>d. Inr (put (om_put n d ms)))"
      using assms(1) [unfolded live_members_def, rule_format, of n p q _ f Phase1_manifest]
      by (simp add: try_emplace_def om_find_put still_implicit_def om_put_twice)
  qed
  with y show ?thesis by blast
qed

text \<open>An element: the first store with a new generation appends it.\<close>

definition with_element :: "concat_head \<Rightarrow> position \<Rightarrow> concat list \<Rightarrow> u64 \<Rightarrow> concat \<Rightarrow> concat" where
  "with_element h q cs g c = Concat (h\<lparr>generation := g\<rparr>) [ARRAY (Array [] (cs @ [c]) q)]"

lemma live_element:
  assumes "live path put" "\<not> implicit h" "g \<noteq> 0"
  shows "live (path @ [K1_append g p]) (\<lambda>c. put (with_element h q cs g c))"
  unfolding live_def
proof (intro allI impI)
  fix c qs f mode
  assume "\<not> implicit (head c)" "length ((path @ [K1_append g p]) @ qs) \<le> global_nesting_limit"
  then have "phase1_append_object (put (with_element h q cs g c)) (path @ K1_append g p # qs) f mode =
      rbind (phase1_append (with_element h q cs g c) (K1_append g p # qs) f mode) (\<lambda>d. Inr (put d))"
    using assms(1,2) by (intro liveD) (simp_all add: with_element_def)
  then show "phase1_append_object (put (with_element h q cs g c)) ((path @ [K1_append g p]) @ qs) f mode =
      rbind (phase1_append c qs f mode) (\<lambda>d. Inr (put (with_element h q cs g d)))"
    using assms(3)
    by (simp add: phase1_append.simps [of _ "K1_append g p # qs"] phase1_append_append.simps Let_def
        back_ensure_init_one array_init_def with_element_def rbind_assoc)
qed

lemma element_ready:
  assumes "live path put" "\<not> implicit h" "g > generation h"
  shows "ready (path @ [K1_append g p]) (\<lambda>c. put (with_element h q cs g c)) (concat_init p)
    (put (Concat h [ARRAY (Array [] cs q)]))"
  unfolding ready_def
proof (intro allI impI)
  fix qs f
  assume "length ((path @ [K1_append g p]) @ qs) \<le> global_nesting_limit"
  then have "phase1_append_object (put (Concat h [ARRAY (Array [] cs q)])) (path @ K1_append g p # qs) f Phase1_manifest =
      rbind (phase1_append (Concat h [ARRAY (Array [] cs q)]) (K1_append g p # qs) f Phase1_manifest) (\<lambda>d. Inr (put d))"
    using assms(1,2) by (intro liveD) simp_all
  moreover have "g \<noteq> 0" using assms(3) by auto
  ultimately show "phase1_append_object (put (Concat h [ARRAY (Array [] cs q)])) ((path @ [K1_append g p]) @ qs) f Phase1_manifest =
      rbind (phase1_append (concat_init p) qs f Phase1_manifest) (\<lambda>d. Inr (put (with_element h q cs g d)))"
    using assms(3)
    by (simp add: phase1_append.simps [of _ "K1_append g p # qs"] phase1_append_append.simps Let_def
        back_ensure_init_one array_init_def with_element_def rbind_assoc)
qed


section \<open>What the rules of taoJSON match\<close>

text \<open>White space is a blank, a line break, or a comment, which begins with one of two characters.
  Brackets are single characters, with white space inside them.\<close>

definition ws_char :: "char \<Rightarrow> bool" where
  "ws_char c \<longleftrightarrow> c \<in> {CHR '' '', CHR 0x09, CHR 0x0A, CHR 0x0D, CHR ''#'', CHR ''/''}"

definition bracket_rules :: "config_env \<Rightarrow> bool" where
  "bracket_rules env \<longleftrightarrow>
     (\<forall>s. take_rule (ws_rule env) (CHR '' '' # s) = Some s) \<and>
     (\<forall>c s. \<not> ws_char c \<longrightarrow>
        take_rule (ws_rule env) (c # s) = None \<and>
        take_rule (begin_array_rule env) (CHR ''['' # c # s) = Some (c # s) \<and>
        take_rule (begin_object_rule env) (CHR ''{'' # c # s) = Some (c # s) \<and>
        (c \<noteq> CHR ''['' \<longrightarrow> take_rule (begin_array_rule env) (c # s) = None) \<and>
        (c \<noteq> CHR ''{'' \<longrightarrow> take_rule (begin_object_rule env) (c # s) = None) \<and>
        (c \<noteq> CHR '']'' \<longrightarrow> take_rule (end_array_rule env) (c # s) = None) \<and>
        (c \<noteq> CHR ''}'' \<longrightarrow> take_rule (end_object_rule env) (c # s) = None)) \<and>
     (\<forall>s. take_rule (end_array_rule env) (CHR '']'' # s) = Some s \<and>
        take_rule (end_object_rule env) (CHR ''}'' # s) = Some s)"

text \<open>A text that taoJSON reads as the single value \<open>v\<close>, wherever it stands before a blank.\<close>

definition scalar_text :: "config_env \<Rightarrow> positions \<Rightarrow> string \<Rightarrow> json_value \<Rightarrow> bool" where
  "scalar_text env pos t v \<longleftrightarrow>
     t \<noteq> [] \<and> \<not> ws_char (hd t) \<and> hd t \<notin> set ''()[]{}+,'' \<and>
     (\<forall>r. remove_rule (t @ CHR '' '' # r) = None \<and>
        (\<exists>ms js e. single_value_rule env pos (t @ CHR '' '' # r) = (ms, Inr (length t)) \<and>
           jaxn_run (json_env env) ms jaxn_to_entry_init = Inr js \<and> jvalue js = Held e \<and> yields e v))"

fun document :: "config_env \<Rightarrow> positions \<Rightarrow> doc \<Rightarrow> bool"
  and document_elements :: "config_env \<Rightarrow> positions \<Rightarrow> doc list \<Rightarrow> bool"
  and document_members :: "config_env \<Rightarrow> positions \<Rightarrow> (string \<times> doc) list \<Rightarrow> bool" where
  "document env pos (Doc_scalar t v) \<longleftrightarrow> scalar_text env pos t v"
| "document env pos (Doc_array ds) \<longleftrightarrow> document_elements env pos ds"
| "document env pos (Doc_object ms) \<longleftrightarrow> document_members env pos ms"
| "document_elements env pos [] \<longleftrightarrow> True"
| "document_elements env pos (d # ds) \<longleftrightarrow> document env pos d \<and> document_elements env pos ds"
| "document_members env pos [] \<longleftrightarrow> True"
| "document_members env pos ((n, d) # ms) \<longleftrightarrow>
     is_identifier n \<and> document env pos d \<and> document_members env pos ms"

lemma bracket_rulesD:
  assumes "bracket_rules env"
  shows "take_rule (ws_rule env) (CHR '' '' # s) = Some s"
    "\<not> ws_char c \<Longrightarrow> take_rule (ws_rule env) (c # s) = None"
    "\<not> ws_char c \<Longrightarrow> take_rule (begin_array_rule env) (CHR ''['' # c # s) = Some (c # s)"
    "\<not> ws_char c \<Longrightarrow> take_rule (begin_object_rule env) (CHR ''{'' # c # s) = Some (c # s)"
    "\<not> ws_char c \<Longrightarrow> c \<noteq> CHR ''['' \<Longrightarrow> take_rule (begin_array_rule env) (c # s) = None"
    "\<not> ws_char c \<Longrightarrow> c \<noteq> CHR ''{'' \<Longrightarrow> take_rule (begin_object_rule env) (c # s) = None"
    "\<not> ws_char c \<Longrightarrow> c \<noteq> CHR '']'' \<Longrightarrow> take_rule (end_array_rule env) (c # s) = None"
    "\<not> ws_char c \<Longrightarrow> c \<noteq> CHR ''}'' \<Longrightarrow> take_rule (end_object_rule env) (c # s) = None"
    "take_rule (end_array_rule env) (CHR '']'' # s) = Some s"
    "take_rule (end_object_rule env) (CHR ''}'' # s) = Some s"
  using assms unfolding bracket_rules_def by blast+

lemma ident_first_plain: "ident_first c \<Longrightarrow> \<not> ws_char c \<and> c \<notin> set ''()[]{}+,''"
  by (auto simp: ident_first_def ws_char_def less_eq_char_def)

text \<open>What a value, and what the rest behind an item, can begin with.\<close>

definition item_start :: "string \<Rightarrow> bool" where
  "item_start s \<longleftrightarrow> s \<noteq> [] \<and> \<not> ws_char (hd s) \<and> hd s \<notin> set '')]}+,''"

definition quiet :: "string \<Rightarrow> bool" where
  "quiet s \<longleftrightarrow> s = [] \<or> \<not> ws_char (hd s) \<and> hd s \<notin> set ''+,''"

lemma item_start_append: "item_start s \<Longrightarrow> item_start (s @ r)"
  by (auto simp: item_start_def)

lemma item_start_quiet: "item_start s \<Longrightarrow> quiet s"
  by (auto simp: item_start_def quiet_def)

lemma document_start: "document env pos d \<Longrightarrow> item_start (doc_text d)"
  by (cases d) (auto simp: scalar_text_def item_start_def ws_char_def)

lemma identifier_start: "is_identifier n \<Longrightarrow> item_start (n @ s)"
  by (auto simp: item_start_def dest!: identifier_first ident_first_plain)

lemma quiet_elements:
  assumes "document_elements env pos ds"
  shows "quiet (elements_text ds @ CHR '']'' # r)"
proof (cases ds)
  case (Cons d ds')
  with assms have "document env pos d" by simp
  from item_start_quiet [OF item_start_append [OF document_start [OF this]]]
  show ?thesis by (simp add: Cons)
qed (simp add: quiet_def ws_char_def)

lemma quiet_members:
  assumes "document_members env pos ms" "quiet e"
  shows "quiet (members_text ms @ e)"
proof (cases ms)
  case (Cons m ms')
  obtain n d where m: "m = (n, d)" by (cases m)
  with assms(1) Cons have "is_identifier n" by simp
  from item_start_quiet [OF identifier_start [OF this]] show ?thesis by (simp add: Cons m)
qed (use assms(2) in simp)

lemma quiet_rules:
  assumes "bracket_rules env" "quiet s"
  shows "wss env s = s" "wss env (CHR '' '' # s) = s" "one_rule '','' s = None" "one_rule ''+'' s = None"
proof -
  show *: "wss env s = s"
    using assms by (cases s) (auto simp: quiet_def bracket_rulesD(2) intro!: wss_stop)
  then show "wss env (CHR '' '' # s) = s"
    by (subst wss.simps) (simp add: bracket_rulesD(1) [OF assms(1)])
  show "one_rule '','' s = None" "one_rule ''+'' s = None"
    using assms(2) by (cases s; auto simp: quiet_def one_rule_def)+
qed

text \<open>A value list of one part, before a blank and a quiet rest.\<close>

lemma value_list_one:
  assumes "bracket_rules env" "quiet r" "vp st s = Inr (st', CHR '' '' # r)"
  shows "value_list env vp st s = rbind (value_list_action st') (\<lambda>st. Inr (st, CHR '' '' # r))"
proof -
  have "value_tail env vp st' (CHR '' '' # r) = Inr (st', CHR '' '' # r)"
    by (subst value_tail.simps) (simp add: quiet_rules [OF assms(1,2)])
  then show ?thesis by (simp add: value_list_def assms(3))
qed

lemma list_body_one:
  assumes "bracket_rules env" "quiet r" "item st s = Inr (st', CHR '' '' # r)"
  shows "list_body env item st s = Inr (st', r)"
  using quiet_rules [OF assms(1,2)] by (simp add: list_body_def opt_comma_def assms(3))

lemma document_no_remove:
  assumes "document env pos d"
  shows "remove_rule (doc_text d @ CHR '' '' # r) = None"
  using assms by (cases d) (auto simp: scalar_text_def remove_rule_def string_rule.simps)


lemma quiet_begin:
  assumes "bracket_rules env" "quiet s" "s \<noteq> []"
  shows "take_rule (begin_array_rule env) (CHR ''['' # s) = Some s"
    "take_rule (begin_object_rule env) (CHR ''{'' # s) = Some s"
  using assms by (cases s; auto simp: quiet_def bracket_rulesD(3,4))+

lemma item_start_no_end:
  assumes "bracket_rules env" "item_start s"
  shows "take_rule (end_array_rule env) s = None" "take_rule (end_object_rule env) s = None"
  using assms by (cases s; auto simp: item_start_def bracket_rulesD(7,8))+

section \<open>What is read\<close>

definition value_claim :: "config_env \<Rightarrow> positions \<Rightarrow> doc \<Rightarrow> bool" where
  "value_claim env pos d \<longleftrightarrow>
     (\<forall>depth st put c r.
        height d < depth \<longrightarrow>
        length (st_prefix st @ st_suffix st) + height d \<le> global_nesting_limit \<longrightarrow>
        live (st_prefix st @ st_suffix st) put \<longrightarrow>
        ready (st_prefix st @ st_suffix st) put c (st_root st) \<longrightarrow>
        \<not> implicit (head c) \<and> \<not> temporary (head c) \<and> concat_list c = [] \<longrightarrow>
        generation (head c) \<le> st_generation st \<longrightarrow>
        unat (st_generation st) + generations d < 2 ^ 64 \<longrightarrow>
        (\<exists>e h g.
           value_part env depth pos st (doc_text d @ CHR '' '' # r) =
             Inr (st\<lparr>st_root := put (Concat h [e]), st_generation := g\<rparr>, CHR '' '' # r) \<and>
           concat_yields (Concat h [e]) (doc_value d) \<and> generation h \<le> g \<and>
           st_generation st \<le> g \<and> unat g \<le> unat (st_generation st) + generations d))"

definition elements_claim :: "config_env \<Rightarrow> positions \<Rightarrow> doc list \<Rightarrow> bool" where
  "elements_claim env pos ds \<longleftrightarrow>
     (\<forall>depth st put h cs q p vs r.
        elements_height ds < depth \<longrightarrow>
        Suc (length (st_prefix st) + elements_height ds) \<le> global_nesting_limit \<longrightarrow>
        live (st_prefix st) put \<longrightarrow>
        st_root st = put (Concat h [ARRAY (Array [] cs q)]) \<longrightarrow>
        st_suffix st = [K1_append (st_generation st) p] \<longrightarrow>
        \<not> implicit h \<and> \<not> temporary h \<longrightarrow> generation h < st_generation st \<longrightarrow>
        list_all2 concat_yields cs vs \<longrightarrow>
        unat (st_generation st) + elements_generations ds < 2 ^ 64 \<longrightarrow>
        (\<exists>cs' h' g.
           until_loop (take_rule (end_array_rule env))
               (list_body env (value_list env (value_part env depth pos))) st (elements_text ds @ CHR '']'' # r) =
             Inr (st\<lparr>st_suffix := [K1_append g p], st_root := put (Concat h' [ARRAY (Array [] cs' q)]),
                     st_generation := g\<rparr>, r) \<and>
           list_all2 concat_yields cs' (vs @ elements_value ds) \<and>
           \<not> implicit h' \<and> \<not> temporary h' \<and> generation h' \<le> g \<and>
           st_generation st \<le> g \<and> unat g \<le> unat (st_generation st) + elements_generations ds))"

definition members_claim :: "config_env \<Rightarrow> positions \<Rightarrow> (string \<times> doc) list \<Rightarrow> bool" where
  "members_claim env pos ms \<longleftrightarrow>
     (\<forall>depth st put cs vs stop rest r parse.
        members_height ms < depth \<longrightarrow>
        Suc (length (st_prefix st @ st_suffix st) + members_height ms) \<le> global_nesting_limit \<longrightarrow>
        live_members (st_prefix st @ st_suffix st) put \<longrightarrow>
        st_root st = put cs \<longrightarrow> members_yield cs vs \<longrightarrow>
        (\<forall>(k, c) \<in> set cs. generation (head c) \<le> st_generation st) \<longrightarrow>
        unat (st_generation st) + members_generations ms < 2 ^ 64 \<longrightarrow>
        stop rest = Some r \<longrightarrow> quiet rest \<longrightarrow> (\<forall>s. item_start s \<longrightarrow> stop s = None) \<longrightarrow>
        (\<exists>cs' g.
           until_loop stop (list_body env (member_rule env pos (value_part env depth pos) parse)) st
               (members_text ms @ rest) =
             Inr (st\<lparr>st_root := put cs', st_generation := g\<rparr>, r) \<and>
           members_yield cs' (members_value ms vs) \<and>
           (\<forall>(k, c) \<in> set cs'. generation (head c) \<le> g) \<and>
           st_generation st \<le> g \<and> unat g \<le> unat (st_generation st) + members_generations ms))"

lemma store_ready:
  "ready (st_prefix st @ st_suffix st) put c (st_root st) \<Longrightarrow>
     length (st_prefix st @ st_suffix st) \<le> global_nesting_limit \<Longrightarrow>
     store [] f Phase1_manifest st = Inr (st\<lparr>st_root := put (f c)\<rparr>)"
  unfolding ready_def store_def by (drule spec [of _ "[]"]) simp

lemma next_generation:
  fixes g :: u64
  assumes "unat g + n < 2 ^ 64" "0 < n"
  shows "unat (g + 1) = Suc (unat g)" "g < g + 1" "g + 1 \<noteq> 0"
proof -
  show *: "unat (g + 1) = Suc (unat g)" using assms by (simp add: unat_word_ariths)
  then show "g < g + 1" "g + 1 \<noteq> 0" by (auto simp: word_less_nat_alt)
qed

lemma scalar_claim:
  assumes "bracket_rules env" "scalar_text env pos t v"
  shows "value_claim env pos (Doc_scalar t v)"
  unfolding value_claim_def
proof (intro allI impI)
  fix depth and st :: state and put c r
  assume *: "height (Doc_scalar t v) < depth"
    "length (st_prefix st @ st_suffix st) + height (Doc_scalar t v) \<le> global_nesting_limit"
    "ready (st_prefix st @ st_suffix st) put c (st_root st)"
    "\<not> implicit (head c) \<and> \<not> temporary (head c) \<and> concat_list c = []"
    "generation (head c) \<le> st_generation st"
  let ?s = "t @ CHR '' '' # r"
  obtain a t' where t: "t = a # t'" "\<not> ws_char a" "a \<notin> set ''()[]{}+,''"
    using assms(2) by (cases t) (auto simp: scalar_text_def)
  obtain ms js e where m: "single_value_rule env pos ?s = (ms, Inr (length t))"
    "jaxn_run (json_env env) ms jaxn_to_entry_init = Inr js" "jvalue js = Held e" "yields e v"
    using assms(2) unfolding scalar_text_def by blast
  have none: "take_rule (begin_array_rule env) ?s = None" "take_rule (begin_object_rule env) ?s = None"
    "one_rule ''('' ?s = None"
    using t bracket_rulesD(5,6) [OF assms(1) t(2)] by (auto simp: one_rule_def)
  have "take_rule (\<lambda>_. Some (length t)) ?s = Some (CHR '' '' # r)"
    using t(1) by (simp add: take_rule_def)
  moreover obtain d where "depth = Suc d" using *(1) by (cases depth) auto
  moreover have "store [] (\<lambda>c. Concat (head c) (concat_list c @ [e])) Phase1_manifest st =
      Inr (st\<lparr>st_root := put (Concat (head c) [e])\<rparr>)"
    using *(2,4) by (simp add: store_ready [OF *(3)])
  ultimately have "value_part env depth pos st ?s =
      Inr (st\<lparr>st_root := put (Concat (head c) [e]), st_generation := st_generation st\<rparr>, CHR '' '' # r)"
    using m none by (simp add: value_part_body_def sor_def array_rule_def object_rule_def
        bracketed_value_def jaxn_value_def)
  moreover have "concat_yields (Concat (head c) [e]) v"
    using *(4) m(4) by (simp add: concat_yields_def)
  ultimately show "\<exists>e h g. value_part env depth pos st (doc_text (Doc_scalar t v) @ CHR '' '' # r) =
      Inr (st\<lparr>st_root := put (Concat h [e]), st_generation := g\<rparr>, CHR '' '' # r) \<and>
      concat_yields (Concat h [e]) (doc_value (Doc_scalar t v)) \<and> generation h \<le> g \<and>
      st_generation st \<le> g \<and> unat g \<le> unat (st_generation st) + generations (Doc_scalar t v)"
    using *(5)
    by (intro exI [of _ e] exI [of _ "head c"] exI [of _ "st_generation st"]) (simp del: value_part.simps)
qed


text \<open>Entering and leaving the list of elements of an array.\<close>

lemma element_list_leaves:
  assumes "until_loop stop body (key1_guard_append p st) s =
      Inr ((key1_guard_append p st)\<lparr>st_suffix := k, st_root := x, st_generation := g\<rparr>, r)"
  shows "with_guard (key1_guard_append p) (until_loop stop body) st s =
      Inr (st\<lparr>st_root := x, st_generation := g\<rparr>, r)"
  using assms by (cases st) (simp add: with_guard_def key1_guard_append_def key1_guard_leave_def)

lemma array_claim:
  assumes "bracket_rules env" "document_elements env pos ds" "elements_claim env pos ds"
  shows "value_claim env pos (Doc_array ds)"
  unfolding value_claim_def
proof (intro allI impI)
  fix depth and st :: state and put c r
  let ?path = "st_prefix st @ st_suffix st"
  assume *: "height (Doc_array ds) < depth"
    "length ?path + height (Doc_array ds) \<le> global_nesting_limit"
    "live ?path put" "ready ?path put c (st_root st)"
    "\<not> implicit (head c) \<and> \<not> temporary (head c) \<and> concat_list c = []"
    "generation (head c) \<le> st_generation st"
    "unat (st_generation st) + generations (Doc_array ds) < 2 ^ 64"
  obtain d where depth: "depth = Suc d" "elements_height ds < d" using *(1) by (cases depth) auto
  note gens = next_generation [of "st_generation st" "generations (Doc_array ds)"]
  let ?r = "CHR '' '' # r"
  let ?s = "elements_text ds @ CHR '']'' # ?r"
  let ?q = "pos (length (CHR ''['' # ?s))"
  let ?st = "st\<lparr>st_root := put (Concat (head c) [ARRAY (Array [] [] ?q)])\<rparr>"
  have opened: "begin_array_action ?q st = Inr ?st"
    using *(2,5) by (simp add: begin_array_action_def store_ready [OF *(4)] back_ensure_init_def array_init_def)
  let ?g = "key1_guard_append (pos (length ?s)) ?st"
  have g: "st_prefix ?g = ?path" "st_suffix ?g = [K1_append (st_generation ?g) (pos (length ?s))]"
    "st_generation ?g = st_generation st + 1" "st_root ?g = put (Concat (head c) [ARRAY (Array [] [] ?q)])"
    by (simp_all add: key1_guard_append_def)
  have gen: "generation (head c) < st_generation ?g"
    "unat (st_generation ?g) + elements_generations ds < 2 ^ 64"
    unfolding g(3) using *(6,7) gens by auto
  have len: "Suc (length (st_prefix ?g) + elements_height ds) \<le> global_nesting_limit"
    "live (st_prefix ?g) put"
    unfolding g(1) using *(2,3) by simp_all
  obtain cs' h' g' where loop: "until_loop (take_rule (end_array_rule env))
        (list_body env (value_list env (value_part env d pos))) ?g ?s =
      Inr (?g\<lparr>st_suffix := [K1_append g' (pos (length ?s))], st_root := put (Concat h' [ARRAY (Array [] cs' ?q)]),
              st_generation := g'\<rparr>, ?r)"
    "list_all2 concat_yields cs' ([] @ elements_value ds)" "\<not> implicit h' \<and> \<not> temporary h'"
    "generation h' \<le> g'" "st_generation ?g \<le> g'" "unat g' \<le> unat (st_generation ?g) + elements_generations ds"
    using assms(3) [unfolded elements_claim_def, rule_format, OF depth(2) len g(4,2) _ gen(1) _ gen(2),
        of "[]" ?r] *(5)
    by auto
  have "take_rule (begin_array_rule env) (CHR ''['' # ?s) = Some ?s"
    using quiet_begin(1) [OF assms(1) quiet_elements [OF assms(2)]] by simp
  then have "value_part env depth pos st (CHR ''['' # ?s) =
      Inr (st\<lparr>st_root := put (Concat h' [ARRAY (Array [] cs' ?q)]), st_generation := g'\<rparr>, ?r)"
    using opened element_list_leaves [OF loop(1)] depth(1)
    by (simp add: value_part_body_def sor_def array_rule_def element_list_def)
  moreover have "concat_yields (Concat h' [ARRAY (Array [] cs' ?q)]) (doc_value (Doc_array ds))"
    using loop(2,3) yields_array by (simp add: concat_yields_def)
  moreover have "st_generation st \<le> g'" "unat g' \<le> unat (st_generation st) + generations (Doc_array ds)"
    using loop(5,6) gens *(7) unfolding g(3) by (auto simp: word_le_nat_alt)
  ultimately show "\<exists>e h g. value_part env depth pos st (doc_text (Doc_array ds) @ ?r) =
      Inr (st\<lparr>st_root := put (Concat h [e]), st_generation := g\<rparr>, ?r) \<and>
      concat_yields (Concat h [e]) (doc_value (Doc_array ds)) \<and> generation h \<le> g \<and>
      st_generation st \<le> g \<and> unat g \<le> unat (st_generation st) + generations (Doc_array ds)"
    using loop(4) by auto
qed

lemma object_claim:
  assumes "bracket_rules env" "document_members env pos ms" "members_claim env pos ms"
  shows "value_claim env pos (Doc_object ms)"
  unfolding value_claim_def
proof (intro allI impI)
  fix depth and st :: state and put c r
  let ?path = "st_prefix st @ st_suffix st"
  assume *: "height (Doc_object ms) < depth"
    "length ?path + height (Doc_object ms) \<le> global_nesting_limit"
    "live ?path put" "ready ?path put c (st_root st)"
    "\<not> implicit (head c) \<and> \<not> temporary (head c) \<and> concat_list c = []"
    "generation (head c) \<le> st_generation st"
    "unat (st_generation st) + generations (Doc_object ms) < 2 ^ 64"
  obtain d where depth: "depth = Suc d" "members_height ms < d" using *(1) by (cases depth) auto
  let ?r = "CHR '' '' # r"
  let ?rest = "CHR ''}'' # ?r"
  let ?s = "members_text ms @ ?rest"
  let ?q = "pos (length (CHR ''{'' # ?s))"
  let ?put = "\<lambda>cs. put (Concat (head c) [OBJECT (Object cs ?q)])"
  let ?st = "st\<lparr>st_root := ?put []\<rparr>"
  have opened: "begin_object_action ?q st = Inr ?st"
    using *(2,5) by (simp add: begin_object_action_def store_ready [OF *(4)] back_ensure_init_def object_init_def)
  have "live_members (st_prefix ?st @ st_suffix ?st) ?put"
    using live_members_object *(3,5) by simp
  moreover have quiet: "quiet ?rest" by (simp add: quiet_def ws_char_def)
  moreover have "Suc (length (st_prefix ?st @ st_suffix ?st) + members_height ms) \<le> global_nesting_limit"
    "unat (st_generation ?st) + members_generations ms < 2 ^ 64" "members_yield [] []"
    using *(2,7) by (simp_all add: members_yield_def)
  ultimately obtain cs' g where loop: "until_loop (take_rule (end_object_rule env))
        (list_body env (member_rule env pos (value_part env d pos) (config_file env d))) ?st ?s =
      Inr (?st\<lparr>st_root := ?put cs', st_generation := g\<rparr>, ?r)"
    "members_yield cs' (members_value ms [])" "st_generation st \<le> g"
    "unat g \<le> unat (st_generation st) + members_generations ms"
    using assms(3) [unfolded members_claim_def, rule_format, of d ?st ?put "[]" "[]"
        "take_rule (end_object_rule env)" ?rest ?r "config_file env d"] depth(2)
    by (auto simp: bracket_rulesD(10) [OF assms(1)] item_start_no_end(2) [OF assms(1)]
        simp del: value_part.simps)
  have "take_rule (begin_object_rule env) (CHR ''{'' # ?s) = Some ?s"
    using quiet_begin(2) [OF assms(1) quiet_members [OF assms(2) quiet]] by simp
  moreover have "take_rule (begin_array_rule env) (CHR ''{'' # ?s) = None"
    using bracket_rulesD(5) [OF assms(1), of "CHR ''{''"] by (simp add: ws_char_def)
  ultimately have "value_part env depth pos st (CHR ''{'' # ?s) =
      Inr (st\<lparr>st_root := ?put cs', st_generation := g\<rparr>, ?r)"
    using opened loop(1) depth(1)
    by (simp add: value_part_body_def sor_def array_rule_def object_rule_def member_list_def)
  moreover have "concat_yields (Concat (head c) [OBJECT (Object cs' ?q)]) (doc_value (Doc_object ms))"
    using loop(2) *(5) yields_object by (simp add: concat_yields_def)
  ultimately show "\<exists>e h g. value_part env depth pos st (doc_text (Doc_object ms) @ ?r) =
      Inr (st\<lparr>st_root := put (Concat h [e]), st_generation := g\<rparr>, ?r) \<and>
      concat_yields (Concat h [e]) (doc_value (Doc_object ms)) \<and> generation h \<le> g \<and>
      st_generation st \<le> g \<and> unat g \<le> unat (st_generation st) + generations (Doc_object ms)"
    using loop(3,4) *(6) by (auto intro: order_trans)
qed


lemma elements_claim_Nil:
  assumes "bracket_rules env"
  shows "elements_claim env pos []"
  unfolding elements_claim_def
proof (intro allI impI)
  fix depth and st :: state and put h cs q p vs r
  assume *: "st_root st = put (Concat h [ARRAY (Array [] cs q)])"
    "st_suffix st = [K1_append (st_generation st) p]" "\<not> implicit h \<and> \<not> temporary h"
    "generation h < st_generation st" "list_all2 concat_yields cs vs"
  have "st = st\<lparr>st_suffix := [K1_append (st_generation st) p],
      st_root := put (Concat h [ARRAY (Array [] cs q)]), st_generation := st_generation st\<rparr>"
    using *(1,2) by (cases st) simp
  moreover have "until_loop (take_rule (end_array_rule env)) body st (elements_text [] @ CHR '']'' # r) =
      Inr (st, r)" for body
    by (subst until_loop.simps) (simp add: bracket_rulesD(9) [OF assms])
  ultimately show "\<exists>cs' h' g. until_loop (take_rule (end_array_rule env))
      (list_body env (value_list env (value_part env depth pos))) st (elements_text [] @ CHR '']'' # r) =
      Inr (st\<lparr>st_suffix := [K1_append g p], st_root := put (Concat h' [ARRAY (Array [] cs' q)]),
              st_generation := g\<rparr>, r) \<and>
      list_all2 concat_yields cs' (vs @ elements_value []) \<and>
      \<not> implicit h' \<and> \<not> temporary h' \<and> generation h' \<le> g \<and>
      st_generation st \<le> g \<and> unat g \<le> unat (st_generation st) + elements_generations []"
    using *(3,4,5)
    by (intro exI [of _ cs] exI [of _ h] exI [of _ "st_generation st"]) auto
qed

lemma elements_claim_Cons:
  assumes "bracket_rules env" "document env pos d" "document_elements env pos ds"
    and "value_claim env pos d" "elements_claim env pos ds"
  shows "elements_claim env pos (d # ds)"
  unfolding elements_claim_def
proof (intro allI impI)
  fix depth and st :: state and put h cs q p vs r
  let ?g = "st_generation st"
  assume *: "elements_height (d # ds) < depth"
    "Suc (length (st_prefix st) + elements_height (d # ds)) \<le> global_nesting_limit"
    "live (st_prefix st) put" "st_root st = put (Concat h [ARRAY (Array [] cs q)])"
    "st_suffix st = [K1_append ?g p]" "\<not> implicit h \<and> \<not> temporary h" "generation h < ?g"
    "list_all2 concat_yields cs vs" "unat ?g + elements_generations (d # ds) < 2 ^ 64"
  let ?r = "elements_text ds @ CHR '']'' # r"
  let ?path = "st_prefix st @ st_suffix st"
  let ?put = "\<lambda>c. put (with_element h q cs ?g c)"
  have "?g \<noteq> 0" using *(7) by auto
  then have "live ?path ?put" "ready ?path ?put (concat_init p) (st_root st)"
    using live_element [OF *(3)] element_ready [OF *(3)] *(4-7) by auto
  moreover have "height d < depth" "length ?path + height d \<le> global_nesting_limit"
    "unat ?g + generations d < 2 ^ 64" "generation (head (concat_init p)) \<le> ?g"
    "\<not> implicit (head (concat_init p)) \<and> \<not> temporary (head (concat_init p)) \<and> concat_list (concat_init p) = []"
    using *(1,2,5,9) by (simp_all add: concat_init_def)
  ultimately obtain e h1 g1 where val: "value_part env depth pos st (doc_text d @ CHR '' '' # ?r) =
      Inr (st\<lparr>st_root := ?put (Concat h1 [e]), st_generation := g1\<rparr>, CHR '' '' # ?r)"
    "concat_yields (Concat h1 [e]) (doc_value d)" "?g \<le> g1" "unat g1 \<le> unat ?g + generations d"
    using assms(4) [unfolded value_claim_def, rule_format, of depth st ?put "concat_init p" ?r] by blast
  let ?st = "st\<lparr>st_suffix := [K1_append (g1 + 1) p],
      st_root := put (Concat (h\<lparr>generation := ?g\<rparr>) [ARRAY (Array [] (cs @ [Concat h1 [e]]) q)]),
      st_generation := g1 + 1\<rparr>"
  have gens: "unat (g1 + 1) = Suc (unat g1)" "g1 < g1 + 1" "g1 + 1 \<noteq> 0"
    using next_generation [of g1 "elements_generations (d # ds) - generations d"] val(4) *(9) by auto
  then have "value_list_action (st\<lparr>st_root := ?put (Concat h1 [e]), st_generation := g1\<rparr>) = Inr ?st"
    using *(5) val(3) by (simp add: value_list_action_def Let_def with_element_def)
  then have "value_list env (value_part env depth pos) st (doc_text d @ CHR '' '' # ?r) = Inr (?st, CHR '' '' # ?r)"
    unfolding value_list_one [where vp = "value_part env depth pos", OF assms(1) quiet_elements [OF assms(3)] val(1)]
    by simp
  then have body: "list_body env (value_list env (value_part env depth pos)) st (doc_text d @ CHR '' '' # ?r) = Inr (?st, ?r)"
    by (rule list_body_one [OF assms(1) quiet_elements [OF assms(3)]])
  have "take_rule (end_array_rule env) (doc_text d @ CHR '' '' # ?r) = None"
    by (rule item_start_no_end(1) [OF assms(1) item_start_append [OF document_start [OF assms(2)]]])
  then have step: "until_loop (take_rule (end_array_rule env)) (list_body env (value_list env (value_part env depth pos)))
      st (doc_text d @ CHR '' '' # ?r) =
      until_loop (take_rule (end_array_rule env)) (list_body env (value_list env (value_part env depth pos))) ?st ?r"
    by (subst until_loop.simps) (simp add: body)
  have "elements_height ds < depth" "Suc (length (st_prefix ?st) + elements_height ds) \<le> global_nesting_limit"
    "live (st_prefix ?st) put"
    "st_root ?st = put (Concat (h\<lparr>generation := ?g\<rparr>) [ARRAY (Array [] (cs @ [Concat h1 [e]]) q)])"
    "st_suffix ?st = [K1_append (st_generation ?st) p]"
    "\<not> implicit (h\<lparr>generation := ?g\<rparr>) \<and> \<not> temporary (h\<lparr>generation := ?g\<rparr>)"
    "generation (h\<lparr>generation := ?g\<rparr>) < st_generation ?st"
    "list_all2 concat_yields (cs @ [Concat h1 [e]]) (vs @ [doc_value d])"
    "unat (st_generation ?st) + elements_generations ds < 2 ^ 64"
    using *(1,2,3,6,8,9) val(2,3,4) gens by (auto intro!: list_all2_appendI)
  then obtain cs' h' g where "until_loop (take_rule (end_array_rule env))
        (list_body env (value_list env (value_part env depth pos))) ?st ?r =
      Inr (?st\<lparr>st_suffix := [K1_append g p], st_root := put (Concat h' [ARRAY (Array [] cs' q)]),
              st_generation := g\<rparr>, r)"
    "list_all2 concat_yields cs' ((vs @ [doc_value d]) @ elements_value ds)"
    "\<not> implicit h'" "\<not> temporary h'" "generation h' \<le> g" "st_generation ?st \<le> g"
    "unat g \<le> unat (st_generation ?st) + elements_generations ds"
    using assms(5) [unfolded elements_claim_def] by blast
  moreover have "?g \<le> g" using calculation(6) val(3) gens(2) by simp
  moreover have "unat g \<le> unat ?g + elements_generations (d # ds)"
    using calculation(7) val(4) gens(1) by simp
  ultimately show "\<exists>cs' h' g. until_loop (take_rule (end_array_rule env))
      (list_body env (value_list env (value_part env depth pos))) st (elements_text (d # ds) @ CHR '']'' # r) =
      Inr (st\<lparr>st_suffix := [K1_append g p], st_root := put (Concat h' [ARRAY (Array [] cs' q)]),
              st_generation := g\<rparr>, r) \<and>
      list_all2 concat_yields cs' (vs @ elements_value (d # ds)) \<and>
      \<not> implicit h' \<and> \<not> temporary h' \<and> generation h' \<le> g \<and>
      ?g \<le> g \<and> unat g \<le> unat ?g + elements_generations (d # ds)"
    using step by (intro exI [of _ cs'] exI [of _ h'] exI [of _ g]) (simp del: value_part.simps)
qed


lemma members_claim_Nil: "members_claim env pos []"
  unfolding members_claim_def
proof (intro allI impI)
  fix depth and st :: state and put cs vs and stop :: "string \<Rightarrow> string option" and rest r parse
  assume *: "st_root st = put cs" "members_yield cs vs"
    "\<forall>(k, c) \<in> set cs. generation (head c) \<le> st_generation st" "stop rest = Some r"
  have "st = st\<lparr>st_root := put cs, st_generation := st_generation st\<rparr>" using *(1) by (cases st) simp
  moreover have "until_loop stop body st (members_text [] @ rest) = Inr (st, r)" for body
    using *(4) by (subst until_loop.simps) simp
  ultimately show "\<exists>cs' g. until_loop stop (list_body env (member_rule env pos (value_part env depth pos) parse)) st
        (members_text [] @ rest) = Inr (st\<lparr>st_root := put cs', st_generation := g\<rparr>, r) \<and>
      members_yield cs' (members_value [] vs) \<and> (\<forall>(k, c) \<in> set cs'. generation (head c) \<le> g) \<and>
      st_generation st \<le> g \<and> unat g \<le> unat (st_generation st) + members_generations []"
    using *(2,3) by (intro exI [of _ cs] exI [of _ "st_generation st"]) auto
qed

lemma members_yield_find:
  "members_yield ms vs \<Longrightarrow> om_find n ms = Some c \<Longrightarrow> \<not> temporary (head c)"
  using members_yield_in om_find_in by (fastforce simp: concat_yields_def)

lemma emptied_member_head:
  assumes "members_yield ms vs" "\<forall>(k, c) \<in> set ms. generation (head c) \<le> g"
  shows "\<not> implicit (head (emptied_member n p ms)) \<and> \<not> temporary (head (emptied_member n p ms)) \<and>
    concat_list (emptied_member n p ms) = []" "generation (head (emptied_member n p ms)) \<le> g"
proof -
  show "\<not> implicit (head (emptied_member n p ms)) \<and> \<not> temporary (head (emptied_member n p ms)) \<and>
    concat_list (emptied_member n p ms) = []"
    using members_yield_find [OF assms(1)]
    by (cases "om_find n ms") (auto simp: emptied_member_def concat_init_def)
  show "generation (head (emptied_member n p ms)) \<le> g"
  proof (cases "om_find n ms")
    case (Some c)
    with om_find_in assms(2) have "generation (head c) \<le> g" by fastforce
    with Some show ?thesis by (simp add: emptied_member_def)
  qed (simp add: emptied_member_def concat_init_def)
qed

text \<open>One member of an object, and its value.\<close>

lemma member_claim:
  assumes "bracket_rules env" "is_identifier n" "document env pos d" "value_claim env pos d" "quiet r"
    and "height d < depth" "Suc (length (st_prefix st @ st_suffix st) + height d) \<le> global_nesting_limit"
    and "live_members (st_prefix st @ st_suffix st) put" "st_root st = put cs" "members_yield cs vs"
    and "\<forall>(k, c) \<in> set cs. generation (head c) \<le> st_generation st"
    and "unat (st_generation st) + Suc (generations d) < 2 ^ 64"
  shows "\<exists>c g. list_body env (member_rule env pos (value_part env depth pos) parse) st
        (n @ ''='' @ doc_text d @ '' '' @ r) =
      Inr (st\<lparr>st_root := put (om_put n c cs), st_generation := g\<rparr>, r) \<and>
    concat_yields c (doc_value d) \<and> generation (head c) \<le> g \<and> st_generation st \<le> g \<and>
    unat g \<le> unat (st_generation st) + Suc (generations d)"
proof -
  let ?t = "doc_text d @ CHR '' '' # r"
  let ?s = "n @ CHR ''='' # ?t"
  let ?p = "pos (length ?s)"
  let ?put = "\<lambda>c. put (om_put n c cs)"
  let ?path = "(st_prefix st @ st_suffix st) @ [K1_name n ?p]"
  let ?st = "key1_guard [K1_name n ?p] st"
  have len: "length ?path \<le> global_nesting_limit" using assms(7) by simp
  obtain y where y: "phase1_append_object (st_root st) ?path clear_concat Phase1_implicit = Inr y"
    "ready ?path ?put (emptied_member n ?p cs) y"
    using assign_member_ready [OF assms(8) len] unfolding assms(9) by blast
  let ?st1 = "?st\<lparr>st_root := y\<rparr>"
  have path: "st_prefix ?st1 @ st_suffix ?st1 = ?path" by (simp add: key1_guard_def)
  have assign: "assign_head_action ?st = Inr ?st1"
    using y(1) by (simp add: assign_head_action_def store_def key1_guard_def)
  have ready1: "live (st_prefix ?st1 @ st_suffix ?st1) ?put"
    "ready (st_prefix ?st1 @ st_suffix ?st1) ?put (emptied_member n ?p cs) (st_root ?st1)"
    "length (st_prefix ?st1 @ st_suffix ?st1) + height d \<le> global_nesting_limit"
    unfolding path using live_member [OF assms(8)] y(2) assms(7) by simp_all
  have gen1: "generation (head (emptied_member n ?p cs)) \<le> st_generation ?st1"
    "unat (st_generation ?st1) + generations d < 2 ^ 64"
    using emptied_member_head(2) [OF assms(10,11)] assms(12) by (simp_all add: key1_guard_def)
  obtain e h g where val: "value_part env depth pos ?st1 ?t =
      Inr (?st1\<lparr>st_root := ?put (Concat h [e]), st_generation := g\<rparr>, CHR '' '' # r)"
    "concat_yields (Concat h [e]) (doc_value d)" "generation h \<le> g" "st_generation ?st1 \<le> g"
    "unat g \<le> unat (st_generation ?st1) + generations d"
    using assms(4) [unfolded value_claim_def, rule_format, OF assms(6) ready1(3,1,2)
        emptied_member_head(1) [OF assms(10,11)] gen1, of r] by blast
  have gens: "unat (g + 1) = Suc (unat g)" "g < g + 1" "g + 1 \<noteq> 0"
    using next_generation [of g 1] val(5) assms(12) by (auto simp: key1_guard_def)
  let ?st2 = "?st1\<lparr>st_root := ?put (Concat h [e]), st_generation := g + 1\<rparr>"
  have "value_list_action (?st1\<lparr>st_root := ?put (Concat h [e]), st_generation := g\<rparr>) = Inr ?st2"
    using gens(3) by (simp add: value_list_action_def Let_def key1_guard_def)
  then have list: "value_list env (value_part env depth pos) ?st1 ?t = Inr (?st2, CHR '' '' # r)"
    unfolding value_list_one [where vp = "value_part env depth pos", OF assms(1,5) val(1)] by simp
  have "item_start ?t" by (rule item_start_append [OF document_start [OF assms(3)]])
  then have stops: "wss env ?t = ?t" using quiet_rules(1) [OF assms(1) item_start_quiet] by blast
  have equal: "wss env (CHR ''='' # ?t) = CHR ''='' # ?t"
    using bracket_rulesD(2) [OF assms(1), of "CHR ''=''"] by (intro wss_stop) (simp add: ws_char_def)
  have "key_member env (value_part env depth pos) ?st (CHR ''='' # ?t) = Inr (?st2, CHR '' '' # r)"
    using assign list
    by (simp add: key_member_def sor_def assign_member_def equal one_rule_def stops
        document_no_remove [OF assms(3)] del: value_part.simps)
  moreover have "extension_member env pos parse st ?s = Inr None"
  proof -
    obtain c n' where "n = c # n'" "ident_first c" using identifier_first [OF assms(2)] by blast
    then show ?thesis using ident_first_plain [of c] by (simp add: extension_member_def one_rule_def)
  qed
  ultimately have "member_rule env pos (value_part env depth pos) parse st ?s =
      Inr (st\<lparr>st_root := ?put (Concat h [e]), st_generation := g + 1\<rparr>, CHR '' '' # r)"
    by (cases st) (simp add: member_rule_def sor_def member_key_def parse_name [OF assms(2)] with_guard_def
        key1_guard_leave_def key1_guard_def del: value_part.simps)
  then have "list_body env (member_rule env pos (value_part env depth pos) parse) st ?s =
      Inr (st\<lparr>st_root := ?put (Concat h [e]), st_generation := g + 1\<rparr>, r)"
    by (rule list_body_one [OF assms(1,5)])
  moreover have "generation (head (Concat h [e])) \<le> g + 1" "st_generation st \<le> g + 1"
    "unat (g + 1) \<le> unat (st_generation st) + Suc (generations d)"
    using val(3-5) gens by (auto simp: key1_guard_def)
  ultimately show ?thesis using val(2) by (intro exI [of _ "Concat h [e]"] exI [of _ "g + 1"]) simp
qed


lemma members_claim_Cons:
  assumes "bracket_rules env" "is_identifier n" "document env pos d" "document_members env pos ms"
    and "value_claim env pos d" "members_claim env pos ms"
  shows "members_claim env pos ((n, d) # ms)"
  unfolding members_claim_def
proof (intro allI impI)
  fix depth and st :: state and put cs vs and stop :: "string \<Rightarrow> string option" and rest r parse
  let ?g = "st_generation st"
  let ?path = "st_prefix st @ st_suffix st"
  assume *: "members_height ((n, d) # ms) < depth"
    "Suc (length ?path + members_height ((n, d) # ms)) \<le> global_nesting_limit"
    "live_members ?path put" "st_root st = put cs" "members_yield cs vs"
    "\<forall>(k, c) \<in> set cs. generation (head c) \<le> ?g"
    "unat ?g + members_generations ((n, d) # ms) < 2 ^ 64"
    "stop rest = Some r" "quiet rest" "\<forall>s. item_start s \<longrightarrow> stop s = None"
  let ?r = "members_text ms @ rest"
  have "height d < depth" "Suc (length ?path + height d) \<le> global_nesting_limit"
    "unat ?g + Suc (generations d) < 2 ^ 64"
    using *(1,2,7) by simp_all
  then obtain c g1 where body: "list_body env (member_rule env pos (value_part env depth pos) parse) st
        (n @ ''='' @ doc_text d @ '' '' @ ?r) =
      Inr (st\<lparr>st_root := put (om_put n c cs), st_generation := g1\<rparr>, ?r)"
    "concat_yields c (doc_value d)" "generation (head c) \<le> g1" "?g \<le> g1"
    "unat g1 \<le> unat ?g + Suc (generations d)"
    using member_claim [OF assms(1,2,3,5) quiet_members [OF assms(4) *(9)] _ _ *(3-6)] by blast
  let ?st = "st\<lparr>st_root := put (om_put n c cs), st_generation := g1\<rparr>"
  have "stop (n @ ''='' @ doc_text d @ '' '' @ ?r) = None"
    using *(10) identifier_start [OF assms(2)] by blast
  then have step: "until_loop stop (list_body env (member_rule env pos (value_part env depth pos) parse)) st
        (n @ ''='' @ doc_text d @ '' '' @ ?r) =
      until_loop stop (list_body env (member_rule env pos (value_part env depth pos) parse)) ?st ?r"
    using body(1) by (subst until_loop.simps) (simp del: value_part.simps)
  have "\<forall>(k, c) \<in> set (om_put n c cs). generation (head c) \<le> g1"
  proof clarify
    fix k c'
    assume "(k, c') \<in> set (om_put n c cs)"
    then consider "c' = c" | "(k, c') \<in> set cs" using set_om_put [of n c cs] by blast
    then show "generation (head c') \<le> g1"
    proof cases
      case 2
      then have "generation (head c') \<le> ?g" using *(6) by blast
      with body(4) show ?thesis by (rule order_trans [rotated])
    qed (use body(3) in simp)
  qed
  moreover have "members_yield (om_put n c cs) (om_put n (doc_value d) vs)"
    by (rule members_yield_put [OF *(5) body(2)])
  moreover have "members_height ms < depth" "Suc (length ?path + members_height ms) \<le> global_nesting_limit"
    "unat g1 + members_generations ms < 2 ^ 64"
    using *(1,2,7) body(5) by simp_all
  ultimately obtain cs' g where loop: "until_loop stop (list_body env (member_rule env pos (value_part env depth pos) parse))
        ?st ?r = Inr (?st\<lparr>st_root := put cs', st_generation := g\<rparr>, r)"
    "members_yield cs' (members_value ms (om_put n (doc_value d) vs))"
    "\<forall>(k, c) \<in> set cs'. generation (head c) \<le> g" "g1 \<le> g" "unat g \<le> unat g1 + members_generations ms"
    using assms(6) [unfolded members_claim_def, rule_format, of depth ?st put "om_put n c cs"
        "om_put n (doc_value d) vs" stop rest r parse] *(3,8,9,10)
    by (auto simp del: value_part.simps)
  have "?g \<le> g" "unat g \<le> unat ?g + members_generations ((n, d) # ms)"
    using body(4,5) loop(4,5) by auto
  then show "\<exists>cs' g. until_loop stop (list_body env (member_rule env pos (value_part env depth pos) parse)) st
        (members_text ((n, d) # ms) @ rest) = Inr (st\<lparr>st_root := put cs', st_generation := g\<rparr>, r) \<and>
      members_yield cs' (members_value ((n, d) # ms) vs) \<and> (\<forall>(k, c) \<in> set cs'. generation (head c) \<le> g) \<and>
      ?g \<le> g \<and> unat g \<le> unat ?g + members_generations ((n, d) # ms)"
    using step loop by (intro exI [of _ cs'] exI [of _ g]) (simp del: value_part.simps)
qed

theorem documents_read:
  assumes "bracket_rules env"
  shows "document env pos d \<Longrightarrow> value_claim env pos d"
    and "document_elements env pos ds \<Longrightarrow> elements_claim env pos ds"
    and "document_members env pos ms \<Longrightarrow> members_claim env pos ms"
proof (induction d and ds and ms rule: doc_text_elements_text_members_text.induct)
  case (1 t v)
  then show ?case by (simp add: scalar_claim [OF assms])
next
  case (2 ds)
  then show ?case by (simp add: array_claim [OF assms])
next
  case (3 ms)
  then show ?case by (simp add: object_claim [OF assms])
next
  case 4
  then show ?case by (simp add: elements_claim_Nil [OF assms])
next
  case (5 d ds)
  then show ?case by (simp add: elements_claim_Cons [OF assms])
next
  case 6
  then show ?case by (simp add: members_claim_Nil)
next
  case (7 n d ms)
  then show ?case by (simp add: members_claim_Cons [OF assms])
qed

section \<open>The whole file\<close>

lemma file_reads:
  assumes "bracket_rules env" "document_members env pos ms"
    and "members_height ms < depth" "Suc (members_height ms) \<le> global_nesting_limit"
    and "Suc (members_generations ms) < 2 ^ 64"
  shows "\<exists>st p cs. config_file env (Suc depth) pos (state_init b) (members_text ms) = Inr (st, []) \<and>
    st_root st = Object cs p \<and> members_yield cs (members_value ms [])"
proof -
  let ?p = "object_position (st_root (state_init b))"
  have quiet: "quiet (members_text ms)" using quiet_members [OF assms(2), of "[]"] by (simp add: quiet_def)
  have "take_rule (begin_object_rule env) (members_text ms) = None"
  proof (cases ms)
    case (Cons m ms')
    obtain n d where m: "m = (n, d)" by (cases m)
    with Cons assms(2) obtain c n' where "n = c # n'" "ident_first c" using identifier_first by fastforce
    then show ?thesis
      using bracket_rulesD(6) [OF assms(1), of c] ident_first_plain [of c] by (simp add: Cons m)
  qed simp
  then have "config_file env (Suc depth) pos (state_init b) (members_text ms) =
      until_loop eof_rule (list_body env (member_rule env pos (value_part env depth pos) (config_file env depth)))
        (state_init b) (members_text ms @ [])"
    using quiet_rules(1) [OF assms(1) quiet]
    by (simp add: config_file_body_def member_list_def del: value_part.simps)
  moreover have "live_members (st_prefix (state_init b) @ st_suffix (state_init b)) (\<lambda>cs. Object cs ?p)"
    using live_members_root by simp
  moreover have "st_root (state_init b) = Object [] ?p" "members_yield [] []"
    by (simp_all add: state_init_def members_yield_def)
  moreover have "eof_rule [] = Some []" "quiet []" "\<forall>s. item_start s \<longrightarrow> eof_rule s = None"
    by (simp_all add: eof_rule_def quiet_def item_start_def)
  moreover have "unat (st_generation (state_init b)) + members_generations ms < 2 ^ 64"
    using assms(5) by (simp add: state_init_def)
  ultimately show ?thesis
    using documents_read(3) [OF assms(1,2), unfolded members_claim_def, rule_format,
        of depth "state_init b" "\<lambda>cs. Object cs ?p" "[]" "[]" eof_rule "[]" "[]" "config_file env depth"]
      assms(3,4)
    by (auto simp del: value_part.simps)
qed


section \<open>Properties\<close>

text \<open>C2: what is written is what is read: a text of assignments whose values are nested arrays
  and objects of single JAXN values, up to the nesting limit, is read and finished without an
  error, in every order of the passes, and the result is, up to annotations, the value that the
  text denotes, in which the last of several assignments to a name counts.\<close>

theorem document_is_read:
  assumes "bracket_rules (reader sys)"
    and "document_members (reader sys) (text_positions sys name (members_text ms)) ms"
    and "members_height ms + 2 \<le> stack_room sys" "members_height ms < global_nesting_limit"
    and "Suc (members_generations ms) < 2 ^ 64"
  shows "\<exists>v. from_string sys order (members_text ms) name = Some (Inr v) \<and>
    strip v = doc_value (Doc_object ms)"
proof -
  obtain depth where depth: "stack_room sys = Suc depth" "members_height ms < depth"
    using assms(3) that [of "stack_room sys - 1"] by simp
  obtain st p cs where st: "config_file (reader sys) (stack_room sys)
      (text_positions sys name (members_text ms)) (state_init (initial_flag sys)) (members_text ms) = Inr (st, [])"
    "st_root st = Object cs p" "members_yield cs (members_value ms [])"
    using file_reads [OF assms(1,2) depth(2) _ assms(5), of "initial_flag sys"] assms(4)
    unfolding depth(1) by auto
  let ?c = "config_parser_init sys\<lparr>parser_state := st\<rparr>"
  have yields: "yields (OBJECT (st_root st)) (doc_value (Doc_object ms))"
    using yields_object [OF st(3), of p] by (simp add: st(2))
  then have final: "all_object final_node (st_root st)" "prune_object (st_root st) = st_root st"
    by (simp_all add: yields_def prune_id(3))
  obtain v where v: "phase5_repack (st_root st) = Inr v" "strip v = doc_value (Doc_object ms)"
    using yields by (auto simp: yields_def phase5_repack_def)
  have "from_string sys order (members_text ms) name = finish sys order ?c"
    using st(1) by (simp add: from_string_def finish_parsed_def parse_string_def parse_input_def config_parser_init_def)
  also have "\<dots> = Some (Inr v)"
    using finish_final [of ?c sys order] final v(1) by simp
  finally show ?thesis using v(2) by blast
qed

lemma text_example_brackets: "bracket_rules (reader text_example)"
  by (auto simp: bracket_rules_def text_example_def reader_example_def env_example_def system_example_def
      take_rule_def char_rule_def ws_char_def)

lemma text_example_scalars:
  "scalar_text (reader text_example) pos ''null'' (V_null annotation_init)"
  "scalar_text (reader text_example) pos ''0'' (V_unsigned 0 annotation_init)"
proof -
  show "scalar_text (reader text_example) pos ''null'' (V_null annotation_init)"
    by (simp add: scalar_text_def text_example_def reader_example_def env_example_def system_example_def
        ws_char_def remove_rule_def string_rule.simps jaxn_run_def yields_def)
  have "match_index (CHR ''0'' # CHR '' '' # r) = Some (0, CHR '' '' # r)" for r
    by (simp add: match_index_def is_digit_def less_eq_char_def stoul_def digit_value_def)
  then show "scalar_text (reader text_example) pos ''0'' (V_unsigned 0 annotation_init)"
    by (simp add: scalar_text_def text_example_def reader_example_def env_example_def system_example_def
        ws_char_def remove_rule_def string_rule.simps jaxn_run_def yields_def)
qed

theorem document_is_read_witness:
  "\<exists>v. from_string text_example [Asterisks, Additions, Functions, References]
       ''b=0 a={x=[null [0 ] ] x=[0 {} ] } b=[] '' '''' = Some (Inr v) \<and>
     strip v = V_object
       [(''a'', V_object [(''x'', V_array [V_unsigned 0 annotation_init, V_object [] annotation_init]
            annotation_init)] annotation_init),
        (''b'', V_array [] annotation_init)] annotation_init"
proof -
  let ?null = "Doc_scalar ''null'' (V_null annotation_init)"
  let ?zero = "Doc_scalar ''0'' (V_unsigned 0 annotation_init)"
  let ?ms = "[(''b'', ?zero),
    (''a'', Doc_object [(''x'', Doc_array [?null, Doc_array [?zero]]), (''x'', Doc_array [?zero, Doc_object []])]),
    (''b'', Doc_array [])]"
  have "is_identifier ''a''" "is_identifier ''b''" "is_identifier ''x''" by code_simp+
  then have "document_members (reader text_example) pos ?ms" for pos
    by (simp add: text_example_scalars)
  moreover have "members_height ?ms + 2 \<le> stack_room text_example"
    by (simp add: text_example_def system_example_def)
  moreover have "members_text ?ms = ''b=0 a={x=[null [0 ] ] x=[0 {} ] } b=[] ''" by simp
  ultimately show ?thesis
    using document_is_read [OF text_example_brackets, of "''''" ?ms "[Asterisks, Additions, Functions, References]"]
    by (simp add: global_nesting_limit_def)
qed

end
