(* ===== verification/Config_Custom.thy ===== *)
theory Config_Custom
  imports Config_Termination
begin

text \<open>
  Functions that a program adds to the parser with \<open>set_inner_extension\<close>
  (\<open>parser.hpp\<close>), and the one that the library brings along for that,
  \<open>contrib/rot13.hpp\<close>. What is proved of the passes over any table of functions with the
  contract holds for a table to which such a function was added.
\<close>

section \<open>The function \<open>rot13\<close>\<close>

text \<open>The comparisons are those of C++ on \<open>char\<close>; what they accept is ASCII, so its sign is irrelevant.\<close>

definition rot13_char :: "char \<Rightarrow> char" where
  "rot13_char c =
     (let n = (of_char c :: nat) in
      if 0x61 \<le> n \<and> n \<le> 0x6D \<or> 0x41 \<le> n \<and> n \<le> 0x4D then char_of (n + 13)
      else if 0x6E \<le> n \<and> n \<le> 0x7A \<or> 0x4E \<le> n \<and> n \<le> 0x5A then char_of (n - 13)
      else c)"

definition rot13 :: "position \<Rightarrow> string \<Rightarrow> error + function_result" where
  "rot13 p s = Inr (Result_string (map rot13_char s) p)"

lemma rot13_char_twice [simp]: "rot13_char (rot13_char c) = c"
proof -
  define n where "n = (of_char c :: nat)"
  then have c: "c = char_of n" "n < 256" by (simp_all add: nat_of_char_less_256)
  then have n: "of_char (char_of n :: char) = n" by simp
  consider (first) "0x61 \<le> n \<and> n \<le> 0x6D \<or> 0x41 \<le> n \<and> n \<le> 0x4D"
    | (second) "0x6E \<le> n \<and> n \<le> 0x7A \<or> 0x4E \<le> n \<and> n \<le> 0x5A"
    | (other) "\<not> (0x61 \<le> n \<and> n \<le> 0x7A)" "\<not> (0x41 \<le> n \<and> n \<le> 0x5A)"
    by linarith
  then show ?thesis
  proof cases
    case first
    then have "rot13_char c = char_of (n + 13)" by (simp only: rot13_char_def Let_def c(1) n if_True)
    moreover from first have "of_char (char_of (n + 13) :: char) = n + 13"
      "0x6E \<le> n + 13 \<and> n + 13 \<le> 0x7A \<or> 0x4E \<le> n + 13 \<and> n + 13 \<le> 0x5A"
      "\<not> (0x61 \<le> n + 13 \<and> n + 13 \<le> 0x6D \<or> 0x41 \<le> n + 13 \<and> n + 13 \<le> 0x4D)"
      by auto
    ultimately show ?thesis by (simp only: rot13_char_def Let_def if_False if_True c(1) add_diff_cancel_right')
  next
    case second
    then have "\<not> (0x61 \<le> n \<and> n \<le> 0x6D \<or> 0x41 \<le> n \<and> n \<le> 0x4D)" by auto
    with second have "rot13_char c = char_of (n - 13)"
      by (simp only: rot13_char_def Let_def c(1) n if_True if_False)
    moreover from second have "of_char (char_of (n - 13) :: char) = n - 13"
      "0x61 \<le> n - 13 \<and> n - 13 \<le> 0x6D \<or> 0x41 \<le> n - 13 \<and> n - 13 \<le> 0x4D" "n - 13 + 13 = n"
      by auto
    ultimately show ?thesis by (simp only: rot13_char_def Let_def if_True c(1))
  next
    case other
    then have "\<not> (0x61 \<le> n \<and> n \<le> 0x6D \<or> 0x41 \<le> n \<and> n \<le> 0x4D)"
      "\<not> (0x6E \<le> n \<and> n \<le> 0x7A \<or> 0x4E \<le> n \<and> n \<le> 0x5A)" by auto
    then have "rot13_char c = c" by (simp only: rot13_char_def Let_def c(1) n if_False)
    then show ?thesis by simp
  qed
qed

interpretation rot13_function: config_function "wrap_1 sys rot13" for sys
  by (rule wrap_1_function) (auto simp: rot13_def)

section \<open>Adding a function\<close>

lemma set_inner_extension_contract:
  assumes "function_table (parser_functions c)" "config_function f"
  shows "function_table (parser_functions (set_inner_extension name f c))"
  using assms by (auto simp: function_table_def set_inner_extension_def om_find_put split: if_splits)

section \<open>Properties\<close>

text \<open>C39: the function \<open>rot13\<close>, added to the parser, is its own inverse.\<close>

theorem rot13_inverse:
  assumes "om_find name (parser_functions (set_inner_extension name (wrap_1 sys rot13) c)) = Some f"
    and "f (ARRAY (Array name [single (STRING s q)] p)) = Inr (e, b)"
  shows "b \<and> f (ARRAY (Array name [single e] p)) = Inr (STRING s p, True)"
proof -
  have f: "f = wrap_1 sys rot13" using assms(1) by (simp add: set_inner_extension_def om_find_put)
  with assms(2) have "e = STRING (map rot13_char s) p" "b"
    by (simp_all add: wrap_1_def entry_array_def function_traits_string_def
        function_traits_entry_def rot13_def catch_unready_def)
  with f show ?thesis
    by (simp add: wrap_1_def entry_array_def function_traits_string_def
        function_traits_entry_def rot13_def catch_unready_def comp_def)
qed

theorem rot13_inverse_witness:
  "wrap_1 system_example rot13 (ARRAY (Array ''rot13'' [single (STRING ''uryyb'' no_position)] no_position)) =
     Inr (STRING ''hello'' no_position, True)"
proof -
  let ?c = "set_inner_extension ''rot13'' (wrap_1 system_example rot13) (config_parser_init system_example)"
  have "om_find ''rot13'' (parser_functions ?c) = Some (wrap_1 system_example rot13)"
    by (simp add: set_inner_extension_def om_find_put)
  moreover have "wrap_1 system_example rot13 (ARRAY (Array ''rot13'' [single (STRING ''hello'' no_position)] no_position)) =
     Inr (STRING ''uryyb'' no_position, True)"
    by code_simp
  ultimately have "wrap_1 system_example rot13
      (ARRAY (Array ''rot13'' [single (STRING ''uryyb'' no_position)] no_position)) = Inr (STRING ''hello'' no_position, True)"
    by (rule rot13_inverse [THEN conjunct2])
  then show ?thesis .
qed

end
