(* ===== verification/Config_Debug.thy ===== *)
theory Config_Debug
  imports Config_Value
begin

text \<open>
  What the library prints of its data structures (\<open>debug_traits.hpp\<close>,
  \<open>events_from_value.hpp\<close>): every specialisation of \<open>debug_traits\<close> produces a sequence of
  calls of a taoJSON consumer, the events. How taoJSON produces the standard types and its
  bindings is a parameter, the record \<open>tao_json\<close>. The rules of its events interface are a
  stack machine, \<open>event_step\<close>: values, elements and members in their order, and announced
  sizes that are met. The property is that everything that is printed is one complete value.
\<close>

section \<open>Writing keys to a stream\<close>

text \<open>
  \<open>to_stream\<close> for parts and keys (\<open>key_part.hpp\<close>, \<open>key.hpp\<close>), which does not go through the
  \<open>to_string\<close> of the parts; a stream is the text that was written to it. The text that
  \<open>annotation\<close> adds to error messages ends with what taoJSON writes for the position.
\<close>

definition name_to_stream :: "(string \<Rightarrow> string) \<Rightarrow> string \<Rightarrow> string \<Rightarrow> string" where
  "name_to_stream esc out n =
     (if is_identifier n then out @ n else ((out @ [CHR 0x22]) @ esc n) @ [CHR 0x22])"

fun key_part_to_stream :: "(string \<Rightarrow> string) \<Rightarrow> string \<Rightarrow> key_part \<Rightarrow> string" where
  "key_part_to_stream esc out (Key_name n) = name_to_stream esc out n"
| "key_part_to_stream esc out (Key_index i) = out @ nat_to_string i"

definition key_to_stream :: "(string \<Rightarrow> string) \<Rightarrow> string \<Rightarrow> key \<Rightarrow> string" where
  "key_to_stream esc out k =
     (case k of
        [] \<Rightarrow> out
      | p # ps \<Rightarrow>
          fold (\<lambda>q w. key_part_to_stream esc (w @ [CHR ''.'']) q) ps (key_part_to_stream esc out p))"

definition append_message_extension ::
  "(string \<Rightarrow> string) \<Rightarrow> (position \<Rightarrow> string \<Rightarrow> string) \<Rightarrow> annotation \<Rightarrow> string \<Rightarrow> string" where
  "append_message_extension esc position_extension a out =
     position_extension (ann_position a) (key_to_stream esc out (ann_key a) @ [CHR '' ''])"

lemma key_part_to_stream_string: "key_part_to_stream esc out p = out @ key_part_to_string esc p"
  by (cases p) (simp_all add: name_to_stream_def name_to_string_def)

text \<open>Both ways of printing a key agree.\<close>

theorem key_to_stream_string: "key_to_stream esc out k = out @ key_to_string esc k"
proof -
  have "fold (\<lambda>q w. key_part_to_stream esc (w @ [CHR ''.'']) q) ps w =
      w @ concat (map (\<lambda>q. CHR ''.'' # key_part_to_string esc q) ps)" for ps w
    by (induction ps arbitrary: w) (simp_all add: key_part_to_stream_string)
  then show ?thesis by (cases k) (simp_all add: key_to_stream_def key_part_to_stream_string)
qed

section \<open>Events\<close>

datatype event =
    Null_event | Boolean_event bool | String_event string | Binary_event "byte list"
  | Signed_event i64 | Unsigned_event u64 | Double_event double
  | Begin_array "nat option" | Element_event | End_array "nat option"
  | Begin_object "nat option" | Key_event string | Member_event | End_object "nat option"

text \<open>The standard types that the traits hand on to taoJSON.\<close>

datatype datum =
    Datum_boolean bool | Datum_string string | Datum_binary "byte list" | Datum_signed i64
  | Datum_unsigned u64 | Datum_double double | Datum_size nat | Datum_shared_size u64

text \<open>
  taoJSON: the traits of these types, of vectors and lists, of maps, the objects of the
  bindings (of the members that are shown), whether a binding shows an optional string, and
  \<open>json::events::from_value\<close>, given the events of the values in an array or object.
\<close>

record tao_json =
  produce :: "datum \<Rightarrow> event list"
  produce_list :: "event list list \<Rightarrow> event list"
  produce_map :: "(string \<times> event list) list \<Rightarrow> event list"
  produce_binding :: "(string \<times> event list) list \<Rightarrow> event list"
  shows_optional :: "string \<Rightarrow> bool"
  from_value :: "json_value \<Rightarrow> event list list \<Rightarrow> event list"

section \<open>Keys, positions and annotations\<close>

fun debug_key_kind :: "key_kind \<Rightarrow> event list" where
  "debug_key_kind KEY_name = [String_event ''name'']"
| "debug_key_kind KEY_index = [String_event ''index'']"

definition debug_key_part :: "tao_json \<Rightarrow> key_part \<Rightarrow> event list" where
  "debug_key_part js p =
     [Begin_object (Some 2), Key_event ''key_kind''] @ debug_key_kind (key_part_kind p) @
     [Member_event, Key_event ''key_data''] @
     produce js (case p of Key_name n \<Rightarrow> Datum_string n | Key_index i \<Rightarrow> Datum_size i) @
     [Member_event, End_object (Some 2)]"

definition debug_key :: "tao_json \<Rightarrow> key \<Rightarrow> event list" where
  "debug_key js k = produce_list js (map (debug_key_part js) k)"

definition debug_position :: "position \<Rightarrow> event list" where
  "debug_position p =
     [String_event (source p @ [CHR '':''] @ nat_to_string (line p) @ [CHR '':''] @
        nat_to_string (column p))]"

definition debug_annotation :: "tao_json \<Rightarrow> annotation \<Rightarrow> event list" where
  "debug_annotation js a =
     produce_binding js
       [(''key'', debug_key js (ann_key a)), (''position'', debug_position (ann_position a))]"

section \<open>Internal keys and references\<close>

definition debug_part_asterisk :: "event list" where
  "debug_part_asterisk = [String_event ''asterisk'']"

fun debug_key1_kind :: "key1_kind \<Rightarrow> event list" where
  "debug_key1_kind KEY1_name = [String_event ''name'']"
| "debug_key1_kind KEY1_index = [String_event ''index'']"
| "debug_key1_kind KEY1_asterisk = [String_event ''asterisk'']"
| "debug_key1_kind KEY1_append = [String_event ''append'']"

fun debug_key1_data :: "tao_json \<Rightarrow> key1_part \<Rightarrow> event list" where
  "debug_key1_data js (K1_name n p) = produce js (Datum_string n)"
| "debug_key1_data js (K1_index i p) = produce js (Datum_size i)"
| "debug_key1_data js (K1_asterisk p) = debug_part_asterisk"
| "debug_key1_data js (K1_append g p) = produce js (Datum_shared_size g)"

definition debug_key1_part :: "tao_json \<Rightarrow> key1_part \<Rightarrow> event list" where
  "debug_key1_part js p =
     [Begin_object (Some 3), Key_event ''key1_kind''] @ debug_key1_kind (key1_part_kind p) @
     [Member_event, Key_event ''key1_data''] @ debug_key1_data js p @
     [Member_event, Key_event ''position''] @ debug_position (k1_position p) @
     [Member_event, End_object (Some 3)]"

definition debug_key1 :: "tao_json \<Rightarrow> key1 \<Rightarrow> event list" where
  "debug_key1 js k = produce_list js (map (debug_key1_part js) k)"

datatype reference2_kind = REFERENCE2_name | REFERENCE2_index | REFERENCE2_vector

fun reference2_part_kind :: "reference2_part \<Rightarrow> reference2_kind" where
  "reference2_part_kind (R2_name n p) = REFERENCE2_name"
| "reference2_part_kind (R2_index i p) = REFERENCE2_index"
| "reference2_part_kind (R2_vector r p) = REFERENCE2_vector"

fun debug_reference2_kind :: "reference2_kind \<Rightarrow> event list" where
  "debug_reference2_kind REFERENCE2_name = [String_event ''name'']"
| "debug_reference2_kind REFERENCE2_index = [String_event ''index'']"
| "debug_reference2_kind REFERENCE2_vector = [String_event ''reference'']"

fun debug_reference2_part :: "tao_json \<Rightarrow> reference2_part \<Rightarrow> event list" where
  "debug_reference2_part js p =
     [Begin_object (Some 3), Key_event ''reference2_kind''] @
     debug_reference2_kind (reference2_part_kind p) @
     [Member_event, Key_event ''reference2_data''] @
     (case p of
        R2_name n q \<Rightarrow> produce js (Datum_string n)
      | R2_index i q \<Rightarrow> produce js (Datum_size i)
      | R2_vector r q \<Rightarrow> produce_list js (map (debug_reference2_part js) r)) @
     [Member_event, Key_event ''position''] @ debug_position (r2_position p) @
     [Member_event, End_object (Some 3)]"

declare debug_reference2_part.simps [simp del]

definition debug_reference2 :: "tao_json \<Rightarrow> reference2 \<Rightarrow> event list" where
  "debug_reference2 js r = produce_list js (map (debug_reference2_part js) r)"

section \<open>Entries\<close>

fun debug_entry_kind :: "entry_kind \<Rightarrow> event list" where
  "debug_entry_kind KIND_NULL = [String_event ''null'']"
| "debug_entry_kind KIND_BOOLEAN = [String_event ''boolean'']"
| "debug_entry_kind KIND_STRING = [String_event ''string'']"
| "debug_entry_kind KIND_BINARY = [String_event ''binary'']"
| "debug_entry_kind KIND_SIGNED = [String_event ''signed'']"
| "debug_entry_kind KIND_UNSIGNED = [String_event ''unsigned'']"
| "debug_entry_kind KIND_DOUBLE = [String_event ''double'']"
| "debug_entry_kind KIND_ARRAY = [String_event ''array'']"
| "debug_entry_kind KIND_OBJECT = [String_event ''object'']"
| "debug_entry_kind KIND_ASTERISK = [String_event ''asterisk'']"
| "debug_entry_kind KIND_REFERENCE = [String_event ''reference'']"

text \<open>The object around an entry; \<open>data\<close> is the switch, and a null returns from inside of it.\<close>

definition debug_typed :: "entry_kind \<Rightarrow> event list option \<Rightarrow> event list" where
  "debug_typed k data =
     [Begin_object None, Key_event ''type''] @ debug_entry_kind k @ [Member_event] @
     (case data of
        None \<Rightarrow> [End_object None]
      | Some es \<Rightarrow> [Key_event ''data''] @ es @ [Member_event, End_object None])"

fun debug_entry :: "tao_json \<Rightarrow> entry \<Rightarrow> event list"
  and debug_array :: "tao_json \<Rightarrow> array \<Rightarrow> event list"
  and debug_object :: "tao_json \<Rightarrow> object \<Rightarrow> event list"
  and debug_concat :: "tao_json \<Rightarrow> concat \<Rightarrow> event list" where
  "debug_entry js (NULL p) = debug_typed KIND_NULL None"
| "debug_entry js (BOOLEAN b p) = debug_typed KIND_BOOLEAN (Some (produce js (Datum_boolean b)))"
| "debug_entry js (STRING s p) = debug_typed KIND_STRING (Some (produce js (Datum_string s)))"
| "debug_entry js (BINARY b p) = debug_typed KIND_BINARY (Some (produce js (Datum_binary b)))"
| "debug_entry js (SIGNED i p) = debug_typed KIND_SIGNED (Some (produce js (Datum_signed i)))"
| "debug_entry js (UNSIGNED u p) = debug_typed KIND_UNSIGNED (Some (produce js (Datum_unsigned u)))"
| "debug_entry js (DOUBLE d p) = debug_typed KIND_DOUBLE (Some (produce js (Datum_double d)))"
| "debug_entry js (ARRAY a) = debug_typed KIND_ARRAY (Some (debug_array js a))"
| "debug_entry js (OBJECT x) = debug_typed KIND_OBJECT (Some (debug_object js x))"
| "debug_entry js (ASTERISK c) = debug_typed KIND_ASTERISK (Some (debug_concat js c))"
| "debug_entry js (REFERENCE r) = debug_typed KIND_REFERENCE (Some (debug_reference2 js r))"
| "debug_array js (Array f cs p) =
     produce_binding js
       ([(''position'', debug_position p)] @
        (if shows_optional js f then [(''function'', produce js (Datum_string f))] else []) @
        [(''array_data'', produce_list js (map (debug_concat js) cs))])"
| "debug_object js (Object ms p) =
     produce_binding js
       [(''position'', debug_position p),
        (''object_data'', produce_map js (map (\<lambda>(k, c). (k, debug_concat js c)) ms))]"
| "debug_concat js (Concat h es) =
     produce_binding js
       [(''remove'', produce js (Datum_boolean (remove h))),
        (''implicit'', produce js (Datum_boolean (implicit h))),
        (''temporary'', produce js (Datum_boolean (temporary h))),
        (''position'', debug_position (concat_position h)),
        (''concat_list'', produce_list js (map (debug_entry js) es))]"

section \<open>Values with their annotations\<close>

definition debug_value :: "tao_json \<Rightarrow> annotation \<Rightarrow> event list \<Rightarrow> event list" where
  "debug_value js a data =
     [Begin_object (Some 2), Key_event ''meta''] @ debug_annotation js a @
     [Member_event, Key_event ''data''] @ data @ [Member_event, End_object (Some 2)]"

fun events_from_value :: "tao_json \<Rightarrow> json_value \<Rightarrow> event list" where
  "events_from_value js (V_array vs a) =
     debug_value js a (from_value js (V_array vs a) (map (events_from_value js) vs))"
| "events_from_value js (V_object ms a) =
     debug_value js a (from_value js (V_object ms a) (map (\<lambda>(k, v). events_from_value js v) ms))"
| "events_from_value js v = debug_value js (public_base v) (from_value js v [])"

section \<open>The rules of the events interface\<close>

text \<open>The open arrays and objects with their announced sizes and the number of their elements.\<close>

datatype frame = Complete | In_array "nat option" nat | In_object "nat option" nat | Behind_key

fun may_value :: "frame list \<Rightarrow> bool" where
  "may_value [] = True"
| "may_value (In_array n k # s) = True"
| "may_value (Behind_key # s) = True"
| "may_value s = False"

definition size_met :: "nat option \<Rightarrow> nat \<Rightarrow> bool" where
  "size_met n k \<longleftrightarrow> n = None \<or> n = Some k"

fun event_step :: "event \<Rightarrow> frame list \<Rightarrow> frame list option" where
  "event_step (Begin_array n) s = (if may_value s then Some (In_array n 0 # s) else None)"
| "event_step Element_event (Complete # In_array n k # s) = Some (In_array n (k + 1) # s)"
| "event_step Element_event s = None"
| "event_step (End_array m) (In_array n k # s) =
     (if m = n \<and> size_met n k then Some (Complete # s) else None)"
| "event_step (End_array m) s = None"
| "event_step (Begin_object n) s = (if may_value s then Some (In_object n 0 # s) else None)"
| "event_step (Key_event k) (In_object n i # s) = Some (Behind_key # In_object n i # s)"
| "event_step (Key_event k) s = None"
| "event_step Member_event (Complete # Behind_key # In_object n k # s) = Some (In_object n (k + 1) # s)"
| "event_step Member_event s = None"
| "event_step (End_object m) (In_object n k # s) =
     (if m = n \<and> size_met n k then Some (Complete # s) else None)"
| "event_step (End_object m) s = None"
| "event_step e s = (if may_value s then Some (Complete # s) else None)"

fun event_run :: "event list \<Rightarrow> frame list \<Rightarrow> frame list option" where
  "event_run [] s = Some s"
| "event_run (e # es) s = Option.bind (event_step e s) (event_run es)"

text \<open>One complete value, wherever a value may be.\<close>

definition complete_value :: "event list \<Rightarrow> bool" where
  "complete_value es \<longleftrightarrow> (\<forall>s. \<not> may_value s \<or> event_run es s = Some (Complete # s))"

text \<open>What the documentation of taoJSON says of its traits and bindings.\<close>

definition documented :: "tao_json \<Rightarrow> bool" where
  "documented js \<longleftrightarrow>
     (\<forall>d. complete_value (produce js d)) \<and>
     (\<forall>ess. list_all complete_value ess \<longrightarrow> complete_value (produce_list js ess)) \<and>
     (\<forall>ms. list_all complete_value (map snd ms) \<longrightarrow> complete_value (produce_map js ms)) \<and>
     (\<forall>ms. list_all complete_value (map snd ms) \<longrightarrow> complete_value (produce_binding js ms)) \<and>
     (\<forall>v ess. list_all complete_value ess \<longrightarrow>
        length ess = (case v of V_array vs a \<Rightarrow> length vs | V_object ms a \<Rightarrow> length ms | _ \<Rightarrow> 0) \<longrightarrow>
        complete_value (from_value js v ess))"

lemma documentedD:
  assumes "documented js"
  shows "complete_value (produce js d)"
    and "(\<And>es. es \<in> set ess \<Longrightarrow> complete_value es) \<Longrightarrow> complete_value (produce_list js ess)"
    and "(\<And>k es. (k, es) \<in> set ms \<Longrightarrow> complete_value es) \<Longrightarrow> complete_value (produce_map js ms)"
    and "(\<And>k es. (k, es) \<in> set ms \<Longrightarrow> complete_value es) \<Longrightarrow> complete_value (produce_binding js ms)"
    and "(\<And>es. es \<in> set ess \<Longrightarrow> complete_value es) \<Longrightarrow>
      length ess = (case v of V_array vs a \<Rightarrow> length vs | V_object ms a \<Rightarrow> length ms | _ \<Rightarrow> 0) \<Longrightarrow>
      complete_value (from_value js v ess)"
proof -
  show "complete_value (produce js d)"
    using assms by (simp add: documented_def)
  show "(\<And>es. es \<in> set ess \<Longrightarrow> complete_value es) \<Longrightarrow> complete_value (produce_list js ess)"
    using assms by (simp add: documented_def list_all_iff)
  have pairs: "list_all complete_value (map snd ms)" if "\<And>k es. (k, es) \<in> set ms \<Longrightarrow> complete_value es"
    using that by (auto simp: list_all_iff)
  show "(\<And>k es. (k, es) \<in> set ms \<Longrightarrow> complete_value es) \<Longrightarrow> complete_value (produce_map js ms)"
    using assms pairs by (simp add: documented_def)
  show "(\<And>k es. (k, es) \<in> set ms \<Longrightarrow> complete_value es) \<Longrightarrow> complete_value (produce_binding js ms)"
    using assms pairs by (simp add: documented_def)
  show "(\<And>es. es \<in> set ess \<Longrightarrow> complete_value es) \<Longrightarrow>
      length ess = (case v of V_array vs a \<Rightarrow> length vs | V_object ms a \<Rightarrow> length ms | _ \<Rightarrow> 0) \<Longrightarrow>
      complete_value (from_value js v ess)"
    using assms by (simp add: documented_def list_all_iff)
qed

lemma event_run_append: "event_run (es @ fs) s = Option.bind (event_run es s) (event_run fs)"
proof (induction es arbitrary: s)
  case (Cons e es)
  then show ?case by (cases "event_step e s") simp_all
qed simp

lemma complete_valueI: "(\<And>s. may_value s \<Longrightarrow> event_run es s = Some (Complete # s)) \<Longrightarrow> complete_value es"
  by (auto simp: complete_value_def)

lemma complete_value_run [simp]: "complete_value es \<Longrightarrow> may_value s \<Longrightarrow> event_run es s = Some (Complete # s)"
  by (auto simp: complete_value_def)

lemma complete_string [simp]: "complete_value [String_event s]"
  by (rule complete_valueI) simp

section \<open>Everything printed is one value\<close>

lemma debug_simple [simp]:
  "complete_value (debug_position p)" "complete_value debug_part_asterisk"
  by (simp_all add: debug_position_def debug_part_asterisk_def)

lemma debug_kinds [simp]:
  "complete_value (debug_key_kind k)" "complete_value (debug_key1_kind k1)"
  "complete_value (debug_reference2_kind k2)" "complete_value (debug_entry_kind k3)"
  by ((cases k, simp_all) [], (cases k1, simp_all) [], (cases k2, simp_all) [], (cases k3, simp_all) [])

lemma complete_object2:
  "complete_value a \<Longrightarrow> complete_value b \<Longrightarrow>
     complete_value ([Begin_object (Some 2), Key_event k] @ a @ [Member_event, Key_event l] @ b @
       [Member_event, End_object (Some 2)])"
  by (rule complete_valueI) (simp add: event_run_append size_met_def)

lemma complete_object3:
  "complete_value a \<Longrightarrow> complete_value b \<Longrightarrow> complete_value c \<Longrightarrow>
     complete_value ([Begin_object (Some 3), Key_event k] @ a @ [Member_event, Key_event l] @ b @
       [Member_event, Key_event m] @ c @ [Member_event, End_object (Some 3)])"
  by (rule complete_valueI) (simp add: event_run_append size_met_def)

lemma debug_typed_complete:
  "(\<And>es. data = Some es \<Longrightarrow> complete_value es) \<Longrightarrow> complete_value (debug_typed k data)"
  by (rule complete_valueI, cases data) (simp_all add: debug_typed_def event_run_append size_met_def)


lemma debug_key_complete: "documented js \<Longrightarrow> complete_value (debug_key js k)"
  unfolding debug_key_def
  by (rule documentedD(2), assumption)
    (auto simp: debug_key_part_def documentedD(1) intro!: complete_object2 [simplified])

lemma debug_annotation_complete: "documented js \<Longrightarrow> complete_value (debug_annotation js a)"
  unfolding debug_annotation_def
  by (rule documentedD(4), assumption) (auto simp: debug_key_complete)

lemma debug_key1_complete: "documented js \<Longrightarrow> complete_value (debug_key1 js k)"
proof -
  assume js: "documented js"
  then have "complete_value (debug_key1_data js p)" for p
    by (cases p) (simp_all add: documentedD(1))
  then show ?thesis unfolding debug_key1_def
    by (intro documentedD(2) [OF js]) (auto simp: debug_key1_part_def intro!: complete_object3 [simplified])
qed

lemma debug_reference2_part_complete: "documented js \<Longrightarrow> complete_value (debug_reference2_part js p)"
proof (induction p)
  case (R2_name n q)
  then show ?case
    by (subst debug_reference2_part.simps, intro complete_object3) (simp_all add: documentedD(1))
next
  case (R2_index i q)
  then show ?case
    by (subst debug_reference2_part.simps, intro complete_object3) (simp_all add: documentedD(1))
next
  case (R2_vector r q)
  then have "complete_value (produce_list js (map (debug_reference2_part js) r))"
    by (intro documentedD(2)) auto
  then show ?case
    by (subst debug_reference2_part.simps, intro complete_object3) simp_all
qed

lemma debug_reference2_complete: "documented js \<Longrightarrow> complete_value (debug_reference2 js r)"
  unfolding debug_reference2_def
  by (rule documentedD(2), assumption) (auto simp: debug_reference2_part_complete)

lemma debug_complete:
  assumes "documented js"
  shows "complete_value (debug_entry js e)" "complete_value (debug_array js a)"
    "complete_value (debug_object js x)" "complete_value (debug_concat js c)"
proof (induction e and a and x and c rule: tree_induct)
  case (1 e)
  then show ?case
    by (cases e) (auto intro!: debug_typed_complete simp: documentedD(1) [OF assms])
next
  case (6 f cs p)
  then have "complete_value (produce_list js (map (debug_concat js) cs))"
    by (intro documentedD(2) [OF assms]) auto
  then show ?case
    by (auto intro!: documentedD(4) [OF assms] simp: documentedD(1) [OF assms] split: if_splits)
next
  case (7 ms p)
  then have "complete_value (produce_map js (map (\<lambda>(k, c). (k, debug_concat js c)) ms))"
    by (intro documentedD(3) [OF assms]) auto
  then show ?case by (auto intro!: documentedD(4) [OF assms])
next
  case (8 h es)
  then have "complete_value (produce_list js (map (debug_entry js) es))"
    by (intro documentedD(2) [OF assms]) auto
  then show ?case by (auto intro!: documentedD(4) [OF assms] simp: documentedD(1) [OF assms])
qed (auto intro!: debug_typed_complete simp: debug_reference2_complete [OF assms])

lemma debug_value_complete:
  "documented js \<Longrightarrow> complete_value es \<Longrightarrow> complete_value (debug_value js a es)"
  by (auto simp: debug_value_def debug_annotation_complete intro!: complete_object2 [simplified])

lemma events_from_value_complete: "documented js \<Longrightarrow> complete_value (events_from_value js v)"
proof (induction v)
  case (V_array vs a)
  then show ?case by (auto intro!: debug_value_complete documentedD(5))
next
  case (V_object ms a)
  then show ?case by (fastforce intro!: debug_value_complete documentedD(5))
qed (auto intro!: debug_value_complete documentedD(5))


section \<open>A concrete stand-in for taoJSON\<close>

definition array_events :: "event list list \<Rightarrow> event list" where
  "array_events ess =
     [Begin_array (Some (length ess))] @ concat (map (\<lambda>es. es @ [Element_event]) ess) @
     [End_array (Some (length ess))]"

definition object_events :: "(string \<times> event list) list \<Rightarrow> event list" where
  "object_events ms =
     [Begin_object (Some (length ms))] @
     concat (map (\<lambda>(k, es). [Key_event k] @ es @ [Member_event]) ms) @
     [End_object (Some (length ms))]"

fun datum_event :: "datum \<Rightarrow> event" where
  "datum_event (Datum_boolean b) = Boolean_event b"
| "datum_event (Datum_string s) = String_event s"
| "datum_event (Datum_binary b) = Binary_event b"
| "datum_event (Datum_signed i) = Signed_event i"
| "datum_event (Datum_unsigned u) = Unsigned_event u"
| "datum_event (Datum_double d) = Double_event d"
| "datum_event (Datum_size i) = Unsigned_event (of_nat i)"
| "datum_event (Datum_shared_size u) = Unsigned_event u"

fun value_events :: "json_value \<Rightarrow> event list list \<Rightarrow> event list" where
  "value_events (V_null a) ess = [Null_event]"
| "value_events (V_boolean b a) ess = [Boolean_event b]"
| "value_events (V_string s a) ess = [String_event s]"
| "value_events (V_binary b a) ess = [Binary_event b]"
| "value_events (V_signed i a) ess = [Signed_event i]"
| "value_events (V_unsigned u a) ess = [Unsigned_event u]"
| "value_events (V_double d a) ess = [Double_event d]"
| "value_events (V_array vs a) ess = array_events ess"
| "value_events (V_object ms a) ess = object_events (zip (map fst ms) ess)"

definition tao_json_example :: tao_json where
  "tao_json_example =
     \<lparr>produce = (\<lambda>d. [datum_event d]), produce_list = array_events, produce_map = object_events,
      produce_binding = object_events, shows_optional = (\<lambda>f. f \<noteq> []), from_value = value_events\<rparr>"

lemma run_elements:
  "list_all complete_value ess \<Longrightarrow>
     event_run (concat (map (\<lambda>es. es @ [Element_event]) ess)) (In_array n k # s) =
       Some (In_array n (k + length ess) # s)"
  by (induction ess arbitrary: k) (simp_all add: event_run_append)

lemma run_members:
  "list_all complete_value (map snd ms) \<Longrightarrow>
     event_run (concat (map (\<lambda>(k, es). [Key_event k] @ es @ [Member_event]) ms)) (In_object n i # s) =
       Some (In_object n (i + length ms) # s)"
  by (induction ms arbitrary: i) (auto simp: event_run_append)

lemma array_events_complete: "list_all complete_value ess \<Longrightarrow> complete_value (array_events ess)"
  by (rule complete_valueI) (simp add: array_events_def event_run_append run_elements size_met_def)

lemma object_events_complete: "list_all complete_value (map snd ms) \<Longrightarrow> complete_value (object_events ms)"
  by (rule complete_valueI)
    (simp add: object_events_def event_run_append run_members [simplified] size_met_def)

lemma tao_json_example_documented: "documented tao_json_example"
  unfolding documented_def
proof (intro conjI allI impI)
  show "complete_value (produce tao_json_example d)" for d
    by (rule complete_valueI) (cases d; simp add: tao_json_example_def)
  show "complete_value (from_value tao_json_example v ess)"
    if "list_all complete_value ess"
      "length ess = (case v of V_array vs a \<Rightarrow> length vs | V_object ms a \<Rightarrow> length ms | _ \<Rightarrow> 0)" for v ess
  proof (cases v)
    case (V_object ms a)
    then have "map snd (zip (map fst ms) ess) = ess" using that(2) by (simp add: map_snd_zip)
    then show ?thesis using V_object that(1)
      by (simp add: tao_json_example_def object_events_complete)
  qed (use that in \<open>auto simp: tao_json_example_def array_events_complete intro!: complete_valueI\<close>)
qed (simp_all add: tao_json_example_def array_events_complete object_events_complete)

section \<open>Properties\<close>

text \<open>C40: whatever the library prints for debugging, it gives the consumer one complete value, with
  an element for every value in an array, a key and a member for every value in an object, and
  the announced sizes: what is printed of the representation and of the results is JAXN.\<close>

theorem debug_prints_values:
  assumes "documented js"
  shows "event_run (debug_object js x) [] = Some [Complete] \<and>
    event_run (debug_key1 js k) [] = Some [Complete] \<and>
    event_run (events_from_value js v) [] = Some [Complete]"
  using debug_complete(3) [OF assms, of x] debug_key1_complete [OF assms, of k]
    events_from_value_complete [OF assms, of v]
  by simp

theorem debug_prints_values_witness:
  "event_run (debug_object tao_json_example
     (Object [(''a'', Concat (head (concat_init no_position)) [NULL no_position])] no_position)) [] = Some [Complete]"
  using debug_prints_values [OF tao_json_example_documented] by blast

end
