(* ===== verification/Config_Dump.thy ===== *)
theory Config_Dump
  imports Config_Everything Config_Debug
begin

text \<open>
  Printing (\<open>to_stream.hpp\<close>, \<open>internal/to_stream.hpp\<close>) and the programs that read config files
  and print them, or what the phases make of them (\<open>src/example/config\<close>). They call the phases
  themselves, so that the property is that they show what \<open>from_files\<close> returns.

  What taoJSON writes for a sequence of events or for a value, what an exception says and how a
  path is quoted are parameters, the record \<open>console\<close>.
\<close>

section \<open>Programs with output\<close>

record console =
  jaxn_stream :: "event list \<Rightarrow> string"
  jaxn_pretty_stream :: "nat \<Rightarrow> event list \<Rightarrow> string"
  jaxn_value_stream :: "nat \<Rightarrow> json_value \<Rightarrow> string"
  quoted_path :: "string \<Rightarrow> string"
  what :: "error \<Rightarrow> string"
  flattened :: "error \<Rightarrow> (string \<times> string) list"  \<comment> \<open>messages and positions\<close>

text \<open>A program takes the text written so far to a longer one and its result or exception;
  \<open>None\<close> when it does not return.\<close>

type_synonym 'a program = "string \<Rightarrow> (string \<times> (error + 'a)) option"

definition program_bind :: "'a program \<Rightarrow> ('a \<Rightarrow> 'b program) \<Rightarrow> 'b program" where
  "program_bind m f out =
     (case m out of
        None \<Rightarrow> None
      | Some (written, Inl e) \<Rightarrow> Some (written, Inl e)
      | Some (written, Inr a) \<Rightarrow> f a written)"

definition put :: "string \<Rightarrow> unit program" where
  "put t out = Some (out @ t, Inr ())"

definition compute :: "error + 'a \<Rightarrow> 'a program" where
  "compute r out = Some (out, r)"

definition compute_option :: "(error + 'a) option \<Rightarrow> 'a program" where
  "compute_option r out = map_option (Pair out) r"

definition newline :: string where
  "newline = [CHR 0x0A]"

section \<open>Printing\<close>

text \<open>\<open>internal::to_stream\<close> prints anything for which there are \<open>debug_traits\<close>, here \<open>traits\<close>; the
  indentation chooses the overload.\<close>

definition internal_to_stream :: "console \<Rightarrow> ('a \<Rightarrow> event list) \<Rightarrow> 'a \<Rightarrow> unit program" where
  "internal_to_stream con traits t = put (jaxn_stream con (traits t))"

definition internal_to_stream_indent ::
  "console \<Rightarrow> ('a \<Rightarrow> event list) \<Rightarrow> 'a \<Rightarrow> nat \<Rightarrow> unit program" where
  "internal_to_stream_indent con traits t indent = put (jaxn_pretty_stream con indent (traits t))"

definition to_stream :: "console \<Rightarrow> tao_json \<Rightarrow> json_value \<Rightarrow> unit program" where
  "to_stream con js v = put (jaxn_stream con (events_from_value js v))"

definition to_stream_indent :: "console \<Rightarrow> tao_json \<Rightarrow> json_value \<Rightarrow> nat \<Rightarrow> unit program" where
  "to_stream_indent con js v indent = put (jaxn_pretty_stream con indent (events_from_value js v))"

section \<open>How a program ends\<close>

text \<open>
  \<open>main\<close> catches what is derived from \<open>std::exception\<close>. The two empty structs that the code
  throws are not, and violated assertions and the like are no exceptions: then the process ends
  in another way. Nothing throws a \<open>std::string\<close>, for which there is a handler too.
\<close>

datatype ending = Exit nat | Killed error

fun is_std_exception :: "error \<Rightarrow> bool" where
  "is_std_exception Access_return \<longleftrightarrow> False"
| "is_std_exception Arguments_unready \<longleftrightarrow> False"
| "is_std_exception (Assert_failed a) \<longleftrightarrow> False"
| "is_std_exception (Undefined_behaviour u) \<longleftrightarrow> False"
| "is_std_exception Stack_exhausted \<longleftrightarrow> False"
| "is_std_exception e \<longleftrightarrow> True"

fun is_parse_error :: "error \<Rightarrow> bool" where
  "is_parse_error (Parse_error m p) \<longleftrightarrow> True"
| "is_parse_error (Syntax_error r) \<longleftrightarrow> True"
| "is_parse_error (Addition_error k p l q) \<longleftrightarrow> True"
| "is_parse_error e \<longleftrightarrow> False"

text \<open>The output, what is written to \<open>std::cerr\<close>, and the end.\<close>

type_synonym run = "string \<times> string \<times> ending"

definition main_catch :: "console \<Rightarrow> unit program \<Rightarrow> run option" where
  "main_catch con p =
     map_option (\<lambda>(out, r).
        case r of
          Inr u \<Rightarrow> (out, [], Exit 0)
        | Inl e \<Rightarrow>
            if is_std_exception e then (out, ''ERROR '' @ what con e @ newline, Exit 1)
            else (out, [], Killed e)) (p [])"

definition try_catch :: "console \<Rightarrow> unit program \<Rightarrow> run option" where
  "try_catch con p =
     map_option (\<lambda>(out, r).
        case r of
          Inr u \<Rightarrow> (out, [], Exit 0)
        | Inl e \<Rightarrow>
            if is_parse_error e then
              (out, ''*** config parse error ***'' @ newline @
                 concat (map (\<lambda>(m, p). m @ '': '' @ p @ newline) (flattened con e)), Exit 0)
            else if is_std_exception e then
              (out, ''*** config error ***'' @ newline @ what con e @ newline, Exit 0)
            else (out, [], Killed e)) (p [])"

section \<open>The programs\<close>

definition print_root :: "console \<Rightarrow> tao_json \<Rightarrow> object \<Rightarrow> unit program" where
  "print_root con js x =
     program_bind (internal_to_stream_indent con (debug_object js) x 3) (\<lambda>_. put newline)"

fun parse_and_print ::
  "console \<Rightarrow> tao_json \<Rightarrow> system \<Rightarrow> string list \<Rightarrow> config_parser \<Rightarrow> config_parser program" where
  "parse_and_print con js sys [] c = compute (Inr c)"
| "parse_and_print con js sys (file # files) c =
     program_bind (put (''PARSE '' @ quoted_path con file @ newline)) (\<lambda>_.
     program_bind (compute (parse_path sys file c)) (\<lambda>d.
     program_bind (print_root con js (st_root (parser_state d))) (\<lambda>_.
     parse_and_print con js sys files d)))"

fun parse_only :: "console \<Rightarrow> system \<Rightarrow> string list \<Rightarrow> config_parser \<Rightarrow> config_parser program" where
  "parse_only con sys [] c = compute (Inr c)"
| "parse_only con sys (file # files) c =
     program_bind (put (''PARSE '' @ quoted_path con file @ newline)) (\<lambda>_.
     program_bind (compute (parse_path sys file c)) (\<lambda>d.
     parse_only con sys files d))"

definition run_phase2 :: "system \<Rightarrow> pass list \<Rightarrow> config_parser \<Rightarrow> object program" where
  "run_phase2 sys order c =
     program_bind (put (''PHASE 2'' @ newline)) (\<lambda>_.
     compute_option (phase2_everything sys (parser_functions c) order (st_root (parser_state c))))"

definition dump_phase_one :: "console \<Rightarrow> tao_json \<Rightarrow> system \<Rightarrow> string list \<Rightarrow> run option" where
  "dump_phase_one con js sys args =
     main_catch con (program_bind (parse_and_print con js sys args (config_parser_init sys))
       (\<lambda>c. compute (Inr ())))"

definition dump_phase_two ::
  "console \<Rightarrow> tao_json \<Rightarrow> system \<Rightarrow> pass list \<Rightarrow> string list \<Rightarrow> run option" where
  "dump_phase_two con js sys order args =
     main_catch con
       (program_bind (parse_only con sys args (config_parser_init sys)) (\<lambda>c.
        program_bind (run_phase2 sys order c) (\<lambda>x.
        print_root con js x)))"

definition dump_phase_three ::
  "console \<Rightarrow> tao_json \<Rightarrow> system \<Rightarrow> pass list \<Rightarrow> string list \<Rightarrow> run option" where
  "dump_phase_three con js sys order args =
     main_catch con
       (program_bind (parse_only con sys args (config_parser_init sys)) (\<lambda>c.
        program_bind (run_phase2 sys order c) (\<lambda>x.
        program_bind (put (''PHASE 3'' @ newline)) (\<lambda>_.
        program_bind (compute (phase3_remove_object x)) (\<lambda>y.
        print_root con js y)))))"

definition dump_all_phases ::
  "console \<Rightarrow> tao_json \<Rightarrow> system \<Rightarrow> pass list \<Rightarrow> string list \<Rightarrow> run option" where
  "dump_all_phases con js sys order args =
     main_catch con
       (program_bind (parse_and_print con js sys args (config_parser_init sys)) (\<lambda>c.
        program_bind (run_phase2 sys order c) (\<lambda>x.
        program_bind (print_root con js x) (\<lambda>_.
        program_bind (put (''PHASE 3'' @ newline)) (\<lambda>_.
        program_bind (compute (phase3_remove_object x)) (\<lambda>y.
        program_bind (print_root con js y) (\<lambda>_.
        program_bind (put (''RESULT'' @ newline)) (\<lambda>_.
        program_bind (compute (phase5_repack y)) (\<lambda>v.
        program_bind (to_stream_indent con js v 3) (\<lambda>_.
        put newline))))))))))"

definition dump_with_meta ::
  "console \<Rightarrow> tao_json \<Rightarrow> system \<Rightarrow> pass list \<Rightarrow> string list \<Rightarrow> run option" where
  "dump_with_meta con js sys order args =
     try_catch con
       (program_bind (compute_option (from_files sys order args)) (\<lambda>v.
        program_bind (to_stream_indent con js v 3) (\<lambda>_. put newline)))"

definition dump_only_data :: "console \<Rightarrow> system \<Rightarrow> pass list \<Rightarrow> string list \<Rightarrow> run option" where
  "dump_only_data con sys order args =
     try_catch con
       (program_bind (compute_option (from_files sys order args)) (\<lambda>v.
        program_bind (put (jaxn_value_stream con 3 v)) (\<lambda>_. put newline)))"

section \<open>What a program computes beside its output\<close>

definition result_bind :: "(error + 'a) option \<Rightarrow> ('a \<Rightarrow> (error + 'b) option) \<Rightarrow> (error + 'b) option" where
  "result_bind r f = (case r of None \<Rightarrow> None | Some (Inl e) \<Rightarrow> Some (Inl e) | Some (Inr a) \<Rightarrow> f a)"

text \<open>The text written so far never decides about the result.\<close>

definition computes :: "'a program \<Rightarrow> (error + 'a) option \<Rightarrow> bool" where
  "computes p r \<longleftrightarrow> (\<forall>out. map_option snd (p out) = r)"

lemma computes_bind:
  assumes "computes m r" "\<And>a. computes (f a) (g a)"
  shows "computes (program_bind m f) (result_bind r g)"
  unfolding computes_def
proof
  fix out
  have m: "map_option snd (m out) = r" using assms(1) by (simp add: computes_def)
  show "map_option snd (program_bind m f out) = result_bind r g"
  proof (cases "m out")
    case (Some wr)
    moreover obtain w x where "wr = (w, x)" by (cases wr)
    ultimately show ?thesis using m assms(2)
      by (cases x) (auto simp: program_bind_def result_bind_def computes_def)
  qed (use m in \<open>simp add: program_bind_def result_bind_def\<close>)
qed

lemma computes_basic:
  "computes (put t) (Some (Inr ()))" "computes (compute r) (Some r)" "computes (compute_option s) s"
  by (auto simp: computes_def put_def compute_def compute_option_def option.map_comp o_def option.map_ident)

lemma computes_after:
  assumes "computes m (Some (Inr a))" "computes (f a) r"
  shows "computes (program_bind m f) r"
  unfolding computes_def
proof
  fix out
  obtain w where "m out = Some (w, Inr a)" using assms(1) by (force simp: computes_def)
  then show "map_option snd (program_bind m f out) = r"
    using assms(2) by (simp add: computes_def program_bind_def)
qed

lemma computes_compute:
  "(\<And>a. computes (f a) (g a)) \<Longrightarrow>
     computes (program_bind (compute r) f) (case r of Inl e \<Rightarrow> Some (Inl e) | Inr a \<Rightarrow> g a)"
  using computes_bind [OF computes_basic(2), of f g r] by (simp add: result_bind_def)

lemma computes_print_root: "computes (print_root con js x) (Some (Inr ()))"
  unfolding print_root_def internal_to_stream_indent_def
  by (rule computes_after [OF computes_basic(1)], rule computes_basic)

lemma computes_parse_and_print:
  "computes (parse_and_print con js sys paths c) (Some (fold_res (parse_path sys) paths c))"
proof (induction paths arbitrary: c)
  case (Cons path paths)
  have "computes (parse_and_print con js sys (path # paths) c)
      (case parse_path sys path c of Inl e \<Rightarrow> Some (Inl e)
        | Inr d \<Rightarrow> Some (fold_res (parse_path sys) paths d))"
    by (simp, intro computes_after [OF computes_basic(1)] computes_after [OF computes_print_root] computes_compute Cons)
  then show ?case by (cases "parse_path sys path c") simp_all
qed (simp add: computes_basic)

lemma computes_parse_only:
  "computes (parse_only con sys paths c) (Some (fold_res (parse_path sys) paths c))"
proof (induction paths arbitrary: c)
  case (Cons path paths)
  have "computes (parse_only con sys (path # paths) c)
      (case parse_path sys path c of Inl e \<Rightarrow> Some (Inl e)
        | Inr d \<Rightarrow> Some (fold_res (parse_path sys) paths d))"
    by (simp, intro computes_after [OF computes_basic(1)] computes_after [OF computes_print_root] computes_compute Cons)
  then show ?case by (cases "parse_path sys path c") simp_all
qed (simp add: computes_basic)

text \<open>The phases in front of the last one, as \<open>from_files\<close> runs them.\<close>

definition second_phase :: "system \<Rightarrow> pass list \<Rightarrow> string list \<Rightarrow> (error + object) option" where
  "second_phase sys order args =
     result_bind (Some (fold_res (parse_path sys) args (config_parser_init sys)))
       (\<lambda>c. phase2_everything sys (parser_functions c) order (st_root (parser_state c)))"

definition third_phase :: "system \<Rightarrow> pass list \<Rightarrow> string list \<Rightarrow> (error + object) option" where
  "third_phase sys order args =
     result_bind (second_phase sys order args) (\<lambda>x. Some (phase3_remove_object x))"

lemma result_bind_assoc: "result_bind (result_bind r f) g = result_bind r (\<lambda>a. result_bind (f a) g)"
  by (simp add: result_bind_def split: option.splits sum.splits)

lemma from_files_phases:
  "from_files sys order args =
     result_bind (third_phase sys order args) (\<lambda>y. Some (phase5_repack y))"
  by (simp add: third_phase_def second_phase_def result_bind_assoc from_files_def finish_parsed_def
      finish_def)
    (auto simp: result_bind_def finish_def split: sum.splits option.splits)

lemma program_bind_assoc:
  "program_bind (program_bind m f) g = program_bind m (\<lambda>a. program_bind (f a) g)"
  by (rule ext) (simp add: program_bind_def split: option.splits prod.splits sum.splits)

lemma computes_run_phase2:
  "computes (run_phase2 sys order c)
     (phase2_everything sys (parser_functions c) order (st_root (parser_state c)))"
  unfolding run_phase2_def by (rule computes_after [OF computes_basic(1)], rule computes_basic)

lemma computes_second:
  "computes m (Some (fold_res (parse_path sys) args (config_parser_init sys))) \<Longrightarrow>
     computes (program_bind m (run_phase2 sys order)) (second_phase sys order args)"
  unfolding second_phase_def by (rule computes_bind, assumption) (rule computes_run_phase2)

lemma computes_third:
  assumes "computes m (second_phase sys order args)" "\<And>x. computes (p x) (Some (Inr ()))"
  shows "computes (program_bind m (\<lambda>x. program_bind (p x) (\<lambda>_. compute (phase3_remove_object x))))
    (third_phase sys order args)"
  unfolding third_phase_def
  by (intro computes_bind [OF assms(1)] computes_after [OF assms(2)] computes_basic)

text \<open>What the handlers make of a program whose last step prints.\<close>

definition exception_run :: "run \<Rightarrow> console \<Rightarrow> error \<Rightarrow> bool" where
  "exception_run r con e \<longleftrightarrow>
     (case r of (out, err, end) \<Rightarrow>
        if is_std_exception e then err = ''ERROR '' @ what con e @ newline \<and> end = Exit 1
        else err = [] \<and> end = Killed e)"

definition result_run :: "run \<Rightarrow> string \<Rightarrow> bool" where
  "result_run r shown \<longleftrightarrow>
     (case r of (out, err, end) \<Rightarrow> (\<exists>before. out = before @ shown) \<and> err = [] \<and> end = Exit 0)"

lemma main_catch_result:
  assumes "computes m r"
  shows "rel_option (\<lambda>run x. case x of Inl e \<Rightarrow> exception_run run con e | Inr v \<Rightarrow> result_run run (title @ shown v))
    (main_catch con (program_bind m (\<lambda>a. program_bind (put title) (\<lambda>_. program_bind (compute (f a)) (\<lambda>v. put (shown v))))))
    (result_bind r (\<lambda>a. Some (f a)))"
proof -
  have m: "map_option snd (m []) = r" using assms by (simp add: computes_def)
  show ?thesis
  proof (cases "m []")
    case (Some wr)
    moreover obtain w x where "wr = (w, x)" by (cases wr)
    ultimately show ?thesis using m
      by (cases x; cases "f (projr x)")
        (auto simp: main_catch_def program_bind_def put_def compute_def result_bind_def
          exception_run_def result_run_def)
  qed (use m in \<open>simp add: main_catch_def program_bind_def result_bind_def\<close>)
qed

lemma computes_print:
  assumes "computes m r"
  shows "computes (program_bind m (\<lambda>a. program_bind (put (t a)) (\<lambda>_. compute (Inr a)))) r"
proof -
  have "computes (program_bind m (\<lambda>a. program_bind (put (t a)) (\<lambda>_. compute (Inr a))))
      (result_bind r (\<lambda>a. Some (Inr a)))"
    by (intro computes_bind [OF assms] computes_after [OF computes_basic(1)] computes_basic)
  moreover have "result_bind r (\<lambda>a. Some (Inr a)) = r"
    by (simp add: result_bind_def split: option.splits sum.splits)
  ultimately show ?thesis by simp
qed

lemma program_simps:
  "program_bind (put s) (\<lambda>_. put t) = put (s @ t)"
  "program_bind (put s) (\<lambda>_. program_bind (put t) g) = program_bind (put (s @ t)) g"
  "program_bind (compute (Inr a)) f = f a"
  by (rule ext, simp add: program_bind_def put_def compute_def)+

lemma print_root_put: "print_root con js x = put (jaxn_pretty_stream con 3 (debug_object js x) @ newline)"
  by (simp add: print_root_def internal_to_stream_indent_def program_simps)

section \<open>Properties\<close>

text \<open>C38: the program that dumps all phases, which calls them itself, ends with the result of
  \<open>from_files\<close> for the same paths: it returns when that does, it prints the value behind the
  line \<open>RESULT\<close> and exits with zero, or it exits with one and writes what the exception says.\<close>

theorem dump_all_phases_result:
  "rel_option (\<lambda>run r.
       case r of
         Inl e \<Rightarrow> exception_run run con e
       | Inr v \<Rightarrow> result_run run (''RESULT'' @ newline @ jaxn_pretty_stream con 3 (events_from_value js v) @ newline))
     (dump_all_phases con js sys order args) (from_files sys order args)"
proof -
  let ?shown = "\<lambda>v. jaxn_pretty_stream con 3 (events_from_value js v) @ newline"
  let ?text = "\<lambda>x. jaxn_pretty_stream con 3 (debug_object js x) @ newline"
  let ?m = "program_bind (program_bind (program_bind (parse_and_print con js sys args (config_parser_init sys))
        (run_phase2 sys order))
      (\<lambda>x. program_bind (program_bind (put (?text x)) (\<lambda>_. put (''PHASE 3'' @ newline)))
        (\<lambda>_. compute (phase3_remove_object x))))
    (\<lambda>y. program_bind (put (?text y)) (\<lambda>_. compute (Inr y)))"
  have "computes ?m (third_phase sys order args)"
    by (intro computes_print computes_third computes_second computes_parse_and_print
        computes_after [OF computes_basic(1)] computes_basic)
  then have "rel_option (\<lambda>run r. case r of Inl e \<Rightarrow> exception_run run con e
        | Inr v \<Rightarrow> result_run run ((''RESULT'' @ newline) @ ?shown v))
      (main_catch con (program_bind ?m (\<lambda>y. program_bind (put (''RESULT'' @ newline)) (\<lambda>_.
         program_bind (compute (phase5_repack y)) (\<lambda>v. put (?shown v))))))
      (from_files sys order args)"
    unfolding from_files_phases by (rule main_catch_result)
  then show ?thesis
    by (simp only: dump_all_phases_def print_root_put to_stream_indent_def program_bind_assoc
        program_simps append_assoc)
qed

end
