(* ===== verification/Config_Members.thy ===== *)
theory Config_Members
  imports Config_Additions Config_References Config_Asterisks Config_Functions
begin

text \<open>
  The member functions of the data classes that the algorithms use directly as cases of the
  datatypes: what an \<open>entry\<close>, a part of a key or of a reference holds (\<open>entry.hpp\<close>,
  \<open>atom.hpp\<close>, \<open>key_part.hpp\<close>, \<open>key1_part.hpp\<close>, \<open>reference2_part.hpp\<close>), and how keys are
  constructed and put together (\<open>key.hpp\<close>, \<open>key1.hpp\<close>, \<open>reference2.hpp\<close>), also by the actions
  of the grammar on the vector of the parts (\<open>key_action.hpp\<close>, \<open>change_action_and_states.hpp\<close>).

  Observers of a variant that holds something else end the program: \<open>std::get\<close> throws in a
  function that is \<open>noexcept\<close>, and the parts assert. Their result is an error of the model.
\<close>

section \<open>Entries\<close>

definition is_null :: "entry \<Rightarrow> bool" where
  "is_null e = (case e of NULL p \<Rightarrow> True | _ \<Rightarrow> False)"

definition is_string :: "entry \<Rightarrow> bool" where
  "is_string e = (case e of STRING s p \<Rightarrow> True | _ \<Rightarrow> False)"

definition is_binary :: "entry \<Rightarrow> bool" where
  "is_binary e = (case e of BINARY b p \<Rightarrow> True | _ \<Rightarrow> False)"

definition is_array :: "entry \<Rightarrow> bool" where
  "is_array e = (case e of ARRAY a \<Rightarrow> True | _ \<Rightarrow> False)"

definition is_object :: "entry \<Rightarrow> bool" where
  "is_object e = (case e of OBJECT x \<Rightarrow> True | _ \<Rightarrow> False)"

definition is_asterisk :: "entry \<Rightarrow> bool" where
  "is_asterisk e = (case e of ASTERISK c \<Rightarrow> True | _ \<Rightarrow> False)"

definition is_reference :: "entry \<Rightarrow> bool" where
  "is_reference e = (case e of REFERENCE r \<Rightarrow> True | _ \<Rightarrow> False)"

text \<open>Two constructors do more than to choose the alternative.\<close>

definition entry_of_reference :: "reference2 \<Rightarrow> error + entry" where
  "entry_of_reference r = (if r = [] then Inl (Assert_failed ''!r.empty()'') else Inr (REFERENCE r))"

definition basic_array_init :: "position \<Rightarrow> array" where
  "basic_array_init p = Array [] [] p"

definition basic_array_function :: "string \<Rightarrow> position \<Rightarrow> array" where
  "basic_array_function f p = Array f [] p"

definition basic_object_init :: "position \<Rightarrow> object" where
  "basic_object_init p = Object [] p"

definition entry_of_function :: "string \<Rightarrow> position \<Rightarrow> entry" where
  "entry_of_function n p = ARRAY (basic_array_function n p)"

lemma init_constructors:
  "array_init p = ARRAY (basic_array_init p)" "object_init p = OBJECT (basic_object_init p)"
  "entry_of_function [] p = array_init p"
  by (simp_all add: array_init_def object_init_def basic_array_init_def basic_object_init_def
      entry_of_function_def basic_array_function_def)

text \<open>
  An \<open>atom\<close> is a value with its position; the alternatives of the variant hold both. The
  template \<open>set_value\<close> chooses the alternative by the type of the atom, here by \<open>wrap\<close>.
\<close>

record 'v atom =
  atom_value :: 'v
  atom_position :: position

definition atom_init :: "'v \<Rightarrow> position \<Rightarrow> 'v atom" where
  "atom_init v p = \<lparr>atom_value = v, atom_position = p\<rparr>"

definition set_value :: "('v \<Rightarrow> position \<Rightarrow> entry) \<Rightarrow> 'v atom \<Rightarrow> entry \<Rightarrow> entry" where
  "set_value alternative t e = alternative (atom_value t) (atom_position t)"

definition set_array :: "position \<Rightarrow> entry \<Rightarrow> entry" where
  "set_array p e = array_init p"

definition set_object :: "position \<Rightarrow> entry \<Rightarrow> entry" where
  "set_object p e = object_init p"

definition bad_access :: "string \<Rightarrow> error" where
  "bad_access t = Undefined_behaviour (''std::get< '' @ t @ '' >'')"

definition get_boolean_atom :: "entry \<Rightarrow> error + bool atom" where
  "get_boolean_atom e =
     (case e of BOOLEAN b p \<Rightarrow> Inr (atom_init b p) | _ \<Rightarrow> Inl (bad_access ''boolean''))"

definition get_string_atom :: "entry \<Rightarrow> error + string atom" where
  "get_string_atom e =
     (case e of STRING s p \<Rightarrow> Inr (atom_init s p) | _ \<Rightarrow> Inl (bad_access ''string_t''))"

definition get_binary_atom :: "entry \<Rightarrow> error + byte list atom" where
  "get_binary_atom e =
     (case e of BINARY b p \<Rightarrow> Inr (atom_init b p) | _ \<Rightarrow> Inl (bad_access ''binary_t''))"

definition get_signed_atom :: "entry \<Rightarrow> error + i64 atom" where
  "get_signed_atom e =
     (case e of SIGNED i p \<Rightarrow> Inr (atom_init i p) | _ \<Rightarrow> Inl (bad_access ''signed_t''))"

definition get_unsigned_atom :: "entry \<Rightarrow> error + u64 atom" where
  "get_unsigned_atom e =
     (case e of UNSIGNED u p \<Rightarrow> Inr (atom_init u p) | _ \<Rightarrow> Inl (bad_access ''unsigned_t''))"

definition get_double_atom :: "entry \<Rightarrow> error + double atom" where
  "get_double_atom e =
     (case e of DOUBLE d p \<Rightarrow> Inr (atom_init d p) | _ \<Rightarrow> Inl (bad_access ''double_t''))"

definition get_boolean :: "entry \<Rightarrow> error + bool" where
  "get_boolean e = rbind (get_boolean_atom e) (\<lambda>t. Inr (atom_value t))"

definition get_signed :: "entry \<Rightarrow> error + i64" where
  "get_signed e = rbind (get_signed_atom e) (\<lambda>t. Inr (atom_value t))"

definition get_unsigned :: "entry \<Rightarrow> error + u64" where
  "get_unsigned e = rbind (get_unsigned_atom e) (\<lambda>t. Inr (atom_value t))"

definition get_reference :: "entry \<Rightarrow> error + reference2" where
  "get_reference e = (case e of REFERENCE r \<Rightarrow> Inr r | _ \<Rightarrow> Inl (bad_access ''reference2''))"

lemmas entry_observers =
  is_null_def is_string_def is_binary_def is_array_def is_object_def is_asterisk_def
  is_reference_def get_boolean_atom_def get_string_atom_def get_binary_atom_def
  get_signed_atom_def get_unsigned_atom_def get_double_atom_def get_boolean_def get_signed_def
  get_unsigned_def get_reference_def atom_init_def

text \<open>The predicates agree with \<open>kind\<close>.\<close>

lemma is_kind:
  "is_null e \<longleftrightarrow> kind e = KIND_NULL" "is_string e \<longleftrightarrow> kind e = KIND_STRING"
  "is_binary e \<longleftrightarrow> kind e = KIND_BINARY" "is_array e \<longleftrightarrow> kind e = KIND_ARRAY"
  "is_object e \<longleftrightarrow> kind e = KIND_OBJECT" "is_asterisk e \<longleftrightarrow> kind e = KIND_ASTERISK"
  "is_reference e \<longleftrightarrow> kind e = KIND_REFERENCE"
  by (cases e; simp add: entry_observers)+

text \<open>What was set is what is found, and the position is that of the atom.\<close>

lemma get_set_value:
  "get_boolean_atom (set_value BOOLEAN b e) = Inr b" "get_string_atom (set_value STRING s e) = Inr s"
  "get_binary_atom (set_value BINARY y e) = Inr y" "get_signed_atom (set_value SIGNED i e) = Inr i"
  "get_unsigned_atom (set_value UNSIGNED u e) = Inr u" "get_double_atom (set_value DOUBLE d e) = Inr d"
  by (simp_all add: set_value_def entry_observers)

lemma position_set_value:
  "entry_position (set_value BOOLEAN b e) = atom_position b"
  "entry_position (set_value STRING s e) = atom_position s"
  "entry_position (set_value BINARY y e) = atom_position y"
  "entry_position (set_value SIGNED i e) = atom_position i"
  "entry_position (set_value UNSIGNED u e) = atom_position u"
  "entry_position (set_value DOUBLE d e) = atom_position d"
  by (simp_all add: set_value_def)

text \<open>Where the additions read an entry of the right kind, they read what the observer gives.\<close>

lemma observers_of_additions:
  "get_double_atom e = Inr d \<Longrightarrow> get_double e = atom_value d"
  "get_string_atom e = Inr s \<Longrightarrow> get_string e = atom_value s"
  "get_binary_atom e = Inr b \<Longrightarrow> get_binary e = atom_value b"
  "entry_array e = Inr a \<Longrightarrow> get_array e = a"
  by (auto simp: entry_observers get_double_def get_string_def get_binary_def get_array_def
      entry_array_def split: entry.splits)

lemma position_of_reference:
  "entry_of_reference r = Inr e \<Longrightarrow> get_reference e = Inr r \<and> entry_position e = r2_position (hd r)"
  by (cases r) (auto simp: entry_of_reference_def get_reference_def)

section \<open>Parts of keys and of references\<close>

definition key_part_index :: "key_part \<Rightarrow> error + nat" where
  "key_part_index p = (case p of Key_index i \<Rightarrow> Inr i | _ \<Rightarrow> Inl (bad_access ''std::size_t''))"

definition key_part_name :: "key_part \<Rightarrow> error + string" where
  "key_part_name p = (case p of Key_name n \<Rightarrow> Inr n | _ \<Rightarrow> Inl (bad_access ''std::string''))"

definition key_part_equal :: "key_part \<Rightarrow> key_part \<Rightarrow> bool" where
  "key_part_equal l r =
     (case (l, r) of
        (Key_name a, Key_name b) \<Rightarrow> a = b
      | (Key_index i, Key_index j) \<Rightarrow> i = j
      | _ \<Rightarrow> False)"

definition key1_get_index :: "key1_part \<Rightarrow> error + nat" where
  "key1_get_index p = (case p of K1_index i q \<Rightarrow> Inr i | _ \<Rightarrow> Inl (Assert_failed ''s != nullptr''))"

definition key1_get_generation :: "key1_part \<Rightarrow> error + u64" where
  "key1_get_generation p =
     (case p of
        K1_append g q \<Rightarrow> if g > 0 then Inr g else Inl (Assert_failed ''**s > 0'')
      | _ \<Rightarrow> Inl (Assert_failed ''s != nullptr''))"

definition reference2_get_index :: "reference2_part \<Rightarrow> error + nat" where
  "reference2_get_index p =
     (case p of R2_index i q \<Rightarrow> Inr i | _ \<Rightarrow> Inl (Assert_failed ''s != nullptr''))"

definition reference2_get_name :: "reference2_part \<Rightarrow> error + string" where
  "reference2_get_name p =
     (case p of R2_name n q \<Rightarrow> Inr n | _ \<Rightarrow> Inl (Assert_failed ''s != nullptr''))"

definition reference2_get_vector :: "reference2_part \<Rightarrow> error + reference2" where
  "reference2_get_vector p =
     (case p of R2_vector r q \<Rightarrow> Inr r | _ \<Rightarrow> Inl (Assert_failed ''s != nullptr''))"

definition reference2_get_position :: "reference2 \<Rightarrow> error + position" where
  "reference2_get_position r =
     (if r = [] then Inl (Assert_failed ''!vector().empty()'') else Inr (r2_position (hd r)))"

lemma key_part_observers:
  "is_ok (key_part_index p) \<longleftrightarrow> key_part_kind p = KEY_index"
  "is_ok (key_part_name p) \<longleftrightarrow> key_part_kind p = KEY_name"
  "is_ok (key1_get_index q) \<longleftrightarrow> key1_part_kind q = KEY1_index"
  "is_ok (get_name q) \<longleftrightarrow> key1_part_kind q = KEY1_name"
  by (cases p; simp add: key_part_index_def key_part_name_def)+
    (cases q; simp add: key1_get_index_def get_name_def)+

lemma key_part_equal_order: "key_part_equal l r \<longleftrightarrow> \<not> key_part_less l r \<and> \<not> key_part_less r l"
  by (cases l; cases r) (auto simp: key_part_equal_def)

text \<open>The generation that was set can be read again, and only appends have one.\<close>

lemma get_set_generation:
  "set_generation g p = Inr q \<Longrightarrow>
     key1_get_generation q = (if key1_part_kind p = KEY1_append then Inr g else key1_get_generation p)"
  by (cases p) (auto simp: key1_get_generation_def word_gt_0 split: if_splits)

section \<open>Keys\<close>

definition key_of_range :: "'a list \<Rightarrow> nat \<Rightarrow> nat \<Rightarrow> 'a list" where
  "key_of_range k b e = take (e - b) (drop b k)"

definition key_plus_index :: "key \<Rightarrow> nat \<Rightarrow> key" where
  "key_plus_index l i = key_append_part l (Key_index i)"

definition key_plus_name :: "key \<Rightarrow> string \<Rightarrow> key" where
  "key_plus_name l n = key_append_part l (Key_name n)"

lemma pop_range:
  "k \<noteq> [] \<Longrightarrow> pop_front k = Inr (key_of_range k 1 (length k))"
  "k \<noteq> [] \<Longrightarrow> pop_back k = Inr (key_of_range k 0 (length k - 1))"
  by (simp_all add: pop_front_def pop_back_def key_of_range_def drop_Suc butlast_conv_take)

lemma pop_append:
  "pop_back (key_append_part k p) = Inr k"
  "k \<noteq> [] \<Longrightarrow> pop_front (key_append k l) = rbind (pop_front k) (\<lambda>t. Inr (key_append t l))"
  "key_append k (key_append l m) = key_append (key_append k l) m"
  by (simp_all add: pop_back_def pop_front_def key_append_def key_append_part_def)

section \<open>The actions of the grammar of keys\<close>

text \<open>
  The functions of \<open>Config_Key\<close> return the parts of a key. PEGTL matches with the vector of the
  parts as a state, to which the actions append, and which keeps what was appended when a later
  rule throws. A rule takes the text and the state to the new state and an error, no match
  (\<open>None\<close>), or the rest of the text.
\<close>

type_synonym 's stateful_rule = "string \<Rightarrow> 's \<Rightarrow> 's \<times> (error + string option)"

definition key_ident_action :: "string \<Rightarrow> key \<Rightarrow> key" where
  "key_ident_action n st = st @ [Key_name n]"

definition key_index_action :: "string \<Rightarrow> key \<Rightarrow> key" where
  "key_index_action ds st = st @ [Key_index (stoul ds)]"

definition key_quoted_success :: "position \<Rightarrow> string \<Rightarrow> key \<Rightarrow> key" where
  "key_quoted_success p unescaped st = st @ [Key_name unescaped]"

text \<open>
  \<open>change_action_and_states\<close>: the rule runs on a state of its own, and \<open>success\<close> brings its
  result, and the position in front of the rule, into the old state. \<open>pegtl::change_action_and_states\<close>
  is the same without the position.
\<close>

definition change_action_and_states ::
  "'n \<Rightarrow> 'n stateful_rule \<Rightarrow> (position \<Rightarrow> 'n \<Rightarrow> 's \<Rightarrow> 's) \<Rightarrow> positions \<Rightarrow> 's stateful_rule" where
  "change_action_and_states new rule success pos s st =
     (let p = pos (length s) in
      case rule s new of
        (t, Inl e) \<Rightarrow> (st, Inl e)
      | (t, Inr None) \<Rightarrow> (st, Inr None)
      | (t, Inr (Some rest)) \<Rightarrow> (success p t st, Inr (Some rest)))"

definition key_ident_rule :: "key stateful_rule" where
  "key_ident_rule s st =
     (case match_ident s of
        None \<Rightarrow> (st, Inr None)
      | Some (n, rest) \<Rightarrow> (key_ident_action n st, Inr (Some rest)))"

definition key_index_rule :: "key stateful_rule" where
  "key_index_rule s st =
     (case match_index s of
        None \<Rightarrow> (st, Inr None)
      | Some (i, rest) \<Rightarrow> (key_index_action (takeWhile is_digit s) st, Inr (Some rest)))"

text \<open>\<open>quoted\<close>: behind the predicate \<open>at_quote\<close> the choice of the quoted strings must match;
  \<open>qf\<close> gives the unescaped text and the number of bytes.\<close>

definition quoted_choice_rule :: "quoted_matcher \<Rightarrow> string stateful_rule" where
  "quoted_choice_rule qf s unescaped =
     (case qf s of
        None \<Rightarrow> (unescaped, Inr None)
      | Some (t, n) \<Rightarrow> (unescaped @ t, Inr (Some (drop n s))))"

definition must_rule :: "string \<Rightarrow> 's stateful_rule \<Rightarrow> 's stateful_rule" where
  "must_rule name rule s st =
     (case rule s st of (t, Inr None) \<Rightarrow> (t, Inl (Syntax_error name)) | r \<Rightarrow> r)"

definition key_quoted_rule :: "quoted_matcher \<Rightarrow> positions \<Rightarrow> key stateful_rule" where
  "key_quoted_rule qf pos s st =
     (if at_quote s then
        must_rule ''quoted_choice''
          (change_action_and_states [] (quoted_choice_rule qf) key_quoted_success pos) s st
      else (st, Inr None))"

definition sor_rule :: "'s stateful_rule \<Rightarrow> 's stateful_rule \<Rightarrow> 's stateful_rule" where
  "sor_rule a b s st = (case a s st of (t, Inr None) \<Rightarrow> b s t | r \<Rightarrow> r)"

definition key_first_rule :: "quoted_matcher \<Rightarrow> positions \<Rightarrow> key stateful_rule" where
  "key_first_rule qf pos = sor_rule key_ident_rule (key_quoted_rule qf pos)"

definition key_other_rule :: "quoted_matcher \<Rightarrow> positions \<Rightarrow> key stateful_rule" where
  "key_other_rule qf pos = sor_rule key_ident_rule (sor_rule (key_quoted_rule qf pos) key_index_rule)"

lemma key_other_rule_match:
  "key_other_rule qf pos s st =
     (case match_key_other qf s of
        Inl e \<Rightarrow> (st, Inl e)
      | Inr None \<Rightarrow> (st, Inr None)
      | Inr (Some (p, rest)) \<Rightarrow> (st @ [p], Inr (Some rest)))"
  by (auto simp: key_other_rule_def sor_rule_def key_ident_rule_def key_quoted_rule_def must_rule_def
      key_index_rule_def change_action_and_states_def quoted_choice_rule_def key_ident_action_def
      key_index_action_def key_quoted_success_def match_key_other_def match_quoted_def
      match_index_def Let_def split: option.splits if_splits)

lemma key_first_rule_match:
  "key_first_rule qf pos s st =
     (case match_key_first qf s of
        Inl e \<Rightarrow> (st, Inl e)
      | Inr None \<Rightarrow> (st, Inr None)
      | Inr (Some (p, rest)) \<Rightarrow> (st @ [p], Inr (Some rest)))"
  by (auto simp: key_first_rule_def sor_rule_def key_ident_rule_def key_quoted_rule_def must_rule_def
      change_action_and_states_def quoted_choice_rule_def key_ident_action_def
      key_quoted_success_def match_key_first_def match_quoted_def Let_def
      split: option.splits if_splits)

function key_dotted_rule :: "quoted_matcher \<Rightarrow> positions \<Rightarrow> string \<Rightarrow> key \<Rightarrow> key \<times> (error + string)" where
  "key_dotted_rule qf pos s st =
     (case s of
        c # cs \<Rightarrow>
          if c = CHR ''.'' then
            (case must_rule ''key_other'' (key_other_rule qf pos) cs st of
               (t, Inl e) \<Rightarrow> (t, Inl e)
             | (t, Inr None) \<Rightarrow> (t, Inr s)
             | (t, Inr (Some rest)) \<Rightarrow> key_dotted_rule qf pos rest t)
          else (st, Inr s)
      | [] \<Rightarrow> (st, Inr s))"
  by pat_completeness auto
termination
  by (relation "measure (\<lambda>(qf, pos, s, st). length s)")
    (auto simp: must_rule_def key_other_rule_match dest!: match_key_other_rest
      split: sum.splits option.splits prod.splits)

declare key_dotted_rule.simps [simp del]

definition key_assign :: "quoted_matcher \<Rightarrow> positions \<Rightarrow> string \<Rightarrow> key \<Rightarrow> key \<times> (error + unit)" where
  "key_assign qf pos s st =
     (case must_rule ''key_rule'' (key_first_rule qf pos) s st of
        (t, Inl e) \<Rightarrow> (t, Inl e)
      | (t, Inr None) \<Rightarrow> (t, Inl (Syntax_error ''key_rule''))
      | (t, Inr (Some rest)) \<Rightarrow>
          (case key_dotted_rule qf pos rest t of
             (u, Inl e) \<Rightarrow> (u, Inl e)
           | (u, Inr end) \<Rightarrow> (u, if end = [] then Inr () else Inl (Syntax_error ''eof''))))"

text \<open>The constructor from a string, and the assignment of a string, which clears the key first.\<close>

definition key_of_string :: "quoted_matcher \<Rightarrow> positions \<Rightarrow> string \<Rightarrow> error + key" where
  "key_of_string qf pos s = (case key_assign qf pos s [] of (k, r) \<Rightarrow> rbind r (\<lambda>_. Inr k))"

definition key_assign_string ::
  "quoted_matcher \<Rightarrow> positions \<Rightarrow> string \<Rightarrow> key \<Rightarrow> key \<times> (error + unit)" where
  "key_assign_string qf pos s k = key_assign qf pos s []"

lemma key_dotted_rule_match:
  "\<exists>ps. key_dotted_rule qf pos s st =
      (st @ ps, rbind (match_dotted qf s) (\<lambda>(k, rest). Inr rest)) \<and>
    (\<forall>k rest. match_dotted qf s = Inr (k, rest) \<longrightarrow> ps = k)"
proof (induction qf pos s st rule: key_dotted_rule.induct)
  case (1 qf pos s st)
  show ?case
  proof (cases "\<exists>cs. s = CHR ''.'' # cs")
    case True
    then obtain cs where s: "s = CHR ''.'' # cs" by blast
    show ?thesis
    proof (cases "match_key_other qf cs")
      case (Inl e)
      then show ?thesis unfolding s
        by (subst key_dotted_rule.simps, subst (1 2) match_dotted.simps)
          (simp add: must_rule_def key_other_rule_match)
    next
      case (Inr m)
      show ?thesis
      proof (cases m)
        case None
        with Inr show ?thesis unfolding s
          by (subst key_dotted_rule.simps, subst (1 2) match_dotted.simps)
            (simp add: must_rule_def key_other_rule_match)
      next
        case (Some pr)
        obtain p r where pr: "pr = (p, r)" by (cases pr)
        have m: "must_rule ''key_other'' (key_other_rule qf pos) cs st = (st @ [p], Inr (Some r))"
          using Inr Some pr by (simp add: must_rule_def key_other_rule_match)
        obtain ps where "key_dotted_rule qf pos r (st @ [p]) =
            ((st @ [p]) @ ps, rbind (match_dotted qf r) (\<lambda>(k, rest). Inr rest))"
          "\<forall>k rest. match_dotted qf r = Inr (k, rest) \<longrightarrow> ps = k"
          using 1 [OF s refl m [symmetric] refl refl] by blast
        then show ?thesis unfolding s using Inr Some pr m
          by (subst key_dotted_rule.simps, subst (1 2) match_dotted.simps)
            (auto simp: res_simps rbind_assoc split_def)
      qed
    qed
  next
    case False
    then show ?thesis
      by (subst key_dotted_rule.simps, subst (1 2) match_dotted.simps) (auto split: list.splits)
  qed
qed

text \<open>The actions append what the grammar of \<open>Config_Key\<close> returns.\<close>

theorem key_assign_parse:
  "\<exists>ps. key_assign qf pos s st = (st @ ps, rbind (parse_key qf s) (\<lambda>_. Inr ())) \<and>
     (\<forall>k. parse_key qf s = Inr k \<longrightarrow> ps = k)"
proof (cases "match_key_first qf s")
  case (Inl e)
  then show ?thesis
    by (simp add: key_assign_def must_rule_def key_first_rule_match parse_key_def)
next
  case (Inr m)
  show ?thesis
  proof (cases m)
    case None
    with Inr show ?thesis
      by (simp add: key_assign_def must_rule_def key_first_rule_match parse_key_def)
  next
    case (Some pr)
    obtain p r where pr: "pr = (p, r)" by (cases pr)
    obtain ps where *: "key_dotted_rule qf pos r (st @ [p]) =
        ((st @ [p]) @ ps, rbind (match_dotted qf r) (\<lambda>(k, rest). Inr rest))"
      "\<forall>k rest. match_dotted qf r = Inr (k, rest) \<longrightarrow> ps = k"
      using key_dotted_rule_match [of qf pos r "st @ [p]"] by blast
    with Inr Some pr show ?thesis
      by (cases "match_dotted qf r")
        (auto simp: key_assign_def must_rule_def key_first_rule_match parse_key_def)
  qed
qed

lemma key_of_string_parse: "key_of_string qf pos s = parse_key qf s"
  using key_assign_parse [of qf pos s "[]"]
  by (cases "parse_key qf s") (auto simp: key_of_string_def)

section \<open>References\<close>

definition reference2_assign :: "quoted_matcher \<Rightarrow> positions \<Rightarrow> string \<Rightarrow> error + reference2" where
  "reference2_assign qf pos s =
     (case s of
        c # cs \<Rightarrow>
          if c = CHR ''('' then
            rbind (match_reference2_list qf pos cs) (\<lambda>l.
              case l of
                None \<Rightarrow> Inl (Syntax_error ''reference2_list'')
              | Some (r, n) \<Rightarrow>
                  (case drop n cs of
                     [] \<Rightarrow> Inl (Syntax_error ''one'')
                   | d # rest \<Rightarrow>
                       if d \<noteq> CHR '')'' then Inl (Syntax_error ''one'')
                       else if rest \<noteq> [] then Inl (Syntax_error ''eof'') else Inr r))
          else Inl (Syntax_error ''reference2_rule'')
      | [] \<Rightarrow> Inl (Syntax_error ''reference2_rule''))"

text \<open>Behind the bracket it is the rule that the grammar of the config uses, which then leaves the
  rest of the text to the next rule.\<close>

lemma reference2_assign_parse:
  "reference2_assign qf pos (CHR ''('' # s) = Inr r \<longleftrightarrow> parse_reference2 qf pos s = Inr (r, [])"
proof (cases "match_reference2_list qf pos s")
  case (Inr m)
  show ?thesis
  proof (cases m)
    case (Some rn)
    obtain t n where rn: "rn = (t, n)" by (cases rn)
    with Inr Some show ?thesis
      by (cases "drop n s") (auto simp: reference2_assign_def parse_reference2_def)
  qed (use Inr in \<open>simp add: reference2_assign_def parse_reference2_def\<close>)
qed (simp add: reference2_assign_def parse_reference2_def)


section \<open>Internal keys\<close>

definition key1_plus_assign :: "key1 \<Rightarrow> key1 \<Rightarrow> key1" where
  "key1_plus_assign l r = l @ r"

definition key1_plus_assign_part :: "key1 \<Rightarrow> key1_part \<Rightarrow> key1" where
  "key1_plus_assign_part l p = l @ [p]"

definition key1_plus :: "key1 \<Rightarrow> key1 \<Rightarrow> key1" where
  "key1_plus l r = (let t = l in key1_plus_assign t r)"

definition key1_plus_part :: "key1 \<Rightarrow> key1_part \<Rightarrow> key1" where
  "key1_plus_part l p = (let t = l in key1_plus_assign_part t p)"

definition key1_pop_front :: "key1 \<Rightarrow> error + key1" where
  "key1_pop_front p =
     (if p = [] then Inl (Assert_failed ''!p.empty()'') else Inr (key_of_range p 1 (length p)))"

definition key1_pop_back :: "key1 \<Rightarrow> error + key1" where
  "key1_pop_back p =
     (if p = [] then Inl (Assert_failed ''!p.empty()'') else Inr (key_of_range p 0 (length p - 1)))"

lemma key1_pops: "key1_pop_front = pop_front" "key1_pop_back = pop_back"
  by (auto simp: key1_pop_front_def key1_pop_back_def pop_front_def pop_back_def key_of_range_def
      drop_Suc butlast_conv_take fun_eq_iff)

text \<open>A state stores below its prefix, its suffix, and the key of a flag, put together.\<close>

lemma store_key:
  "store extra f mode st =
     rbind (phase1_append_object (st_root st) (key1_plus (key1_plus (st_prefix st) (st_suffix st)) extra) f mode)
       (\<lambda>x. Inr (st\<lparr>st_root := x\<rparr>))"
  by (simp add: store_def key1_plus_def key1_plus_assign_def)

text \<open>A key made from a string has the bounds of a key in a file.\<close>

lemma key1_assign_bounds:
  assumes "key1_assign qf pos s = Inr k"
  shows "k \<noteq> [] \<and> (\<forall>p \<in> set k. k1_index_ok p \<and> key1_part_kind p \<noteq> KEY1_append)"
proof -
  obtain rest where "parse_key1 qf pos s = Inr (k, rest)"
    using assms by (auto simp: key1_assign_def res_simps split: if_splits)
  then show ?thesis by (rule parse_key1_parts)
qed

section \<open>Files\<close>

definition read_file_nothrow :: "system \<Rightarrow> string \<Rightarrow> error + string option" where
  "read_file_nothrow sys filename =
     (case read_file_throws sys filename of
        Inr s \<Rightarrow> Inr (Some s)
      | Inl (System_error code) \<Rightarrow> Inr None
      | Inl e \<Rightarrow> Inl e)"

lemma read_file_nothrow_ok: "is_ok (read_file_nothrow sys filename)"
  by (simp add: read_file_nothrow_def read_file_throws_def split: sum.splits)

end
