(* ===== verification/Spec2Isabelle.thy ===== *)
theory Spec2Isabelle
  imports Config_Steps Config_Document Config_Custom Config_Dump Config_Members
begin

text \<open>
  taoCONFIG (\<open>src/include/tao/config/\<close>), a C++ library that reads config files, a superset
  of JSON with assignments, additions, deletions, references, asterisks, functions and
  includes, and returns one JSON value. This is the root theory of a model of the library in
  HOL and of the theorems about it.

  \<^bold>\<open>The program.\<close> An entry point (\<open>from_string.hpp\<close>, \<open>from_file.hpp\<close>, \<open>from_files.hpp\<close>,
  \<open>from_input.hpp\<close>) makes a \<open>config_parser\<close>, parses with it and calls \<open>finish\<close>. The parse is
  phase one: a PEG grammar (\<open>config_grammar.hpp\<close>) whose actions (\<open>config_action.hpp\<close>) work on a
  \<open>state\<close>, the key of the current member and the root object, and store what they read with
  \<open>phase1_append\<close> in an intermediate representation, in which every member is a \<open>concat\<close>, a
  list of entries that are still to be added. Phase two repeats four passes over the root until
  none of them changes anything: functions are called, neighbours in a concat are added,
  references are replaced by what they refer to, asterisks are expanded. Phase three removes
  what was deleted and throws for what is unresolved, phase five converts the representation to
  the JSON value and annotates every value with its key and position. There is no phase four.

  \<^bold>\<open>The theories,\<close> in the order of their imports:
  \<^item> \<open>Config_Prelude\<close>: errors as a sum (\<open>rbind\<close>, \<open>map_res\<close>, \<open>map_chg\<close>), decimal numbers.
    \<open>Config_Map\<close>: \<open>std::map\<close> as a sorted association list.
  \<^item> \<open>Config_Entry\<close>: positions, exceptions, parts of keys and references, the representation
    (\<open>entry.hpp\<close>, \<open>array.hpp\<close>, \<open>object.hpp\<close>, \<open>concat.hpp\<close>), its induction rule, and the two folds
    \<open>all_object\<close> and \<open>count_object\<close> from which all invariants and measures are made.
  \<^item> \<open>Config_Key\<close>, \<open>Config_Key1\<close>: the grammars and the printing of public keys (\<open>key.hpp\<close>), of
    internal keys and of references. \<open>Config_Value\<close>: the result, \<open>access.hpp\<close>, \<open>assign.hpp\<close>.
    \<open>Config_Statistics\<close>: the counters that decide whether a value is plain.
  \<^item> \<open>Config_Jaxn\<close>: the actions and the consumer for JAXN values (\<open>jaxn_action.hpp\<close>,
    \<open>jaxn_to_entry.hpp\<close>), a stack machine, with its numbers.
  \<^item> \<open>Config_Phase1\<close>: \<open>phase1_append.hpp\<close>. \<open>Config_Parser\<close>: the state and the actions.
    \<open>Config_Parsing\<close>: the grammar, one function per rule, and a locale for relations between
    states that every rule keeps. \<open>Config_Reading\<close>: its instances and the properties of reading.
  \<^item> \<open>Config_Functions\<close>, \<open>Config_Calls\<close>: the built-in functions, their wrappers and the pass over
    function calls. \<open>Config_Additions\<close>, \<open>Config_Access\<close> and \<open>Config_References\<close>,
    \<open>Config_Asterisks\<close>: the other passes.
  \<^item> \<open>Config_Remove\<close>, \<open>Config_Repack\<close>: phases three and five.
  \<^item> \<open>Config_Everything\<close>: the loop of phase two, the parser and the entry points.
    \<open>Config_Termination\<close>: why the loop ends. \<open>Config_Steps\<close>: phase two as an abstract machine
    that the loop refines and that terminates under any scheduling of the passes.
    \<open>Config_Plain\<close>: configs that leave nothing to do, and \<open>Config_Text\<close>,
    \<open>Config_Document\<close>: texts of assignments and of nested documents, from the characters to the
    value. \<open>Config_Custom\<close>: functions that a program adds.
    \<open>Config_Debug\<close>: what is printed of all the data. \<open>Config_Dump\<close>: the programs of
    \<open>src/example/config\<close> that print it, as programs with output. \<open>Config_Members\<close>: the member
    functions of the data classes, and the actions that build keys. This theory: the properties of the whole.

  \<^bold>\<open>Correspondence.\<close> A definition has the name of the C++ function or of the PEGTL rule that it
  models, structs are records or datatypes, and a function that changes its argument returns the
  new value. Exceptions are values of \<open>error\<close> in the left of a sum; \<open>Assert_failed\<close> and
  \<open>Undefined_behaviour\<close> mark violated assertions and operations without meaning, so that their
  absence is a theorem. Integers are words of 64 bit, doubles are their bits. The passes count
  their changes as the code does; only whether the count is zero is used. In the pass over
  references, look-ups see what the pass has replaced before, so its functions carry a context
  that rebuilds the root around the entry.

  \<^bold>\<open>Parameters.\<close> taoJSON, PEGTL and the operating system are not part of the repository. The
  records \<open>config_env\<close> (the JSON rules of taoJSON and opening a file), \<open>jaxn_json\<close>, \<open>system\<close> (environment,
  files, processes, UTF-8, the JAXN grammar and printer, the addition of doubles), \<open>tao_json\<close>
  and \<open>console\<close> (what is printed for events and exceptions) hold what the code calls there.
  \<open>no_includes\<close>, \<open>documented\<close>, and \<open>bracket_rules\<close> with \<open>scalar_text\<close> (what white space,
  brackets and single values look like to taoJSON) are the hypotheses on them.
  What C++ leaves open is a parameter too: the order of the four passes (\<open>order\<close>), the order of
  arguments (\<open>left_first\<close>), and the initial value of a flag that the code reads before it
  writes it (\<open>initial_flag\<close>).

  \<^bold>\<open>Fuel and bounds.\<close> The recursive rules of the grammar take a depth, and exceeding it is the
  error \<open>Stack_exhausted\<close>. An include starts over at a smaller depth, so without includes
  98 levels are enough for any text (\<open>Config_Reading.parse_stack_bounded\<close>): the nesting limit
  of phase one stops a deeper text before. The loop of phase two is a partial function:
  \<open>None\<close> means that it does not return.

  \<^bold>\<open>What is shown.\<close> The whole: \<open>finish_returns\<close> (termination in every order of the passes),
  \<open>Config_Document.document_is_read\<close> (what is written is what is read), \<open>finish_errors\<close>,
  \<open>finished_value\<close>, \<open>phase2_settles\<close>; and its limits, \<open>unready_parse_diverges\<close> and
  \<open>order_of_passes_matters\<close>. Reading: no assertion fails, keys are restored, maps stay sorted,
  assignments replace and deletions empty. Every pass keeps the maps sorted, changes
  nothing when it counts nothing, and decreases its measure otherwise; these three are the laws of
  the locales \<open>pass_contract\<close> and \<open>progress\<close>. Phases three and five equal reference definitions and
  succeed exactly on what is resolved. Keys survive printing and parsing, numbers are exact or
  truncated as documented, the JAXN consumer implements a recursive definition.

  \<^bold>\<open>Not modelled.\<close> The tests and the template switches for the two libraries, error messages beyond the text given to the exception, moves and
  copies, the \<open>Traits\<close> parameter of the result, pointers in \<open>debug_traits.hpp\<close>, and the sharing of the
  generation of an appended index between the state and the temporary keys made from it.
\<close>

section \<open>The parsers that the entry points make\<close>

inductive parsed :: "system \<Rightarrow> config_parser \<Rightarrow> bool" for sys where
  parsed_init: "parsed sys (config_parser_init sys)"
| parsed_input: "parsed sys c \<Longrightarrow> parse_input sys pos text c = Inr c' \<Longrightarrow> parsed sys c'"
| parsed_extension: "parsed sys c \<Longrightarrow> config_function f \<Longrightarrow> parsed sys (set_inner_extension name f c)"

lemma parse_input_wf:
  "parse_input sys pos text c = Inr c' \<Longrightarrow> wf_object (st_root (parser_state c)) \<Longrightarrow>
     wf_object (st_root (parser_state c')) \<and> parser_functions c' = parser_functions c"
  using representation.config_file_ends [of "parser_state c" "text" "reader sys" "stack_room sys" pos]
  by (auto simp: parse_input_def grows_def res_simps)

lemma parsed_invariant:
  "parsed sys c \<Longrightarrow> wf_object (st_root (parser_state c)) \<and> function_table (parser_functions c)"
proof (induction rule: parsed.induct)
  case parsed_init
  then show ?case
    by (simp add: config_parser_init_def state_init_def om_inv_def builtins.function_table_axioms)
next
  case (parsed_input c pos s c')
  then show ?case using parse_input_wf [of sys pos s c c'] by simp
next
  case (parsed_extension c f name)
  then show ?case using set_inner_extension_contract by (simp add: set_inner_extension_def)
qed

lemma parse_string_functions:
  "parse_string sys data name c = Inr c' \<Longrightarrow> parser_functions c' = parser_functions c"
  by (auto simp: parse_string_def parse_input_def res_simps)

lemma parsed_string: "parsed sys c \<Longrightarrow> parse_string sys data name c = Inr c' \<Longrightarrow> parsed sys c'"
  by (auto simp: parse_string_def intro: parsed_input)

lemma parsed_path: "parsed sys c \<Longrightarrow> parse_path sys path c = Inr c' \<Longrightarrow> parsed sys c'"
  by (auto simp: parse_path_def split: sum.splits intro: parsed_input)

lemma parsed_paths: "parsed sys c \<Longrightarrow> fold_res (parse_path sys) paths c = Inr c' \<Longrightarrow> parsed sys c'"
  by (induction paths arbitrary: c) (auto simp: res_simps dest: parsed_path)

lemma finish_cases:
  assumes "finish sys order c = Some r"
  obtains (phase2) e where "r = Inl e"
      "phase2_everything sys (parser_functions c) order (st_root (parser_state c)) = Some (Inl e)"
  | (later) x where "r = rbind (phase3_remove_object x) phase5_repack"
      "phase2_everything sys (parser_functions c) order (st_root (parser_state c)) = Some (Inr x)"
proof -
  obtain q where "phase2_everything sys (parser_functions c) order (st_root (parser_state c)) = Some q"
    "r = rbind q (\<lambda>x. rbind (phase3_remove_object x) phase5_repack)"
    using assms by (auto simp: finish_def split: option.splits)
  then show thesis by (cases q) (auto intro: phase2 later)
qed

section \<open>Concrete texts\<close>

abbreviation parsed_example :: "string \<Rightarrow> config_parser" where
  "parsed_example s \<equiv> projr (parse_string text_example s '''' (config_parser_init text_example))"

abbreviation root_example :: "string \<Rightarrow> object" where
  "root_example s \<equiv> st_root (parser_state (parsed_example s))"

lemma is_ok_projr: "is_ok r \<Longrightarrow> r = Inr (projr r)"
  by (cases r) auto

lemma parsed_exampleI:
  "is_ok (parse_string text_example s '''' (config_parser_init text_example)) \<Longrightarrow>
     parsed text_example (parsed_example s)"
  by (rule parsed_string [OF parsed_init is_ok_projr])

lemma from_string_example:
  assumes "is_ok (parse_string text_example s '''' (config_parser_init text_example))"
  shows "from_string text_example order s '''' = finish text_example order (parsed_example s)"
  using assms by (cases "parse_string text_example s '''' (config_parser_init text_example)")
    (simp_all add: from_string_def finish_parsed_def)

section \<open>Properties\<close>

text \<open>C1: phase two returns, in whatever order the compiler evaluates the four passes: what the
  parsers have read is finished, unless the function \<open>parse\<close> is called. Functions that the
  program has added may be called, if they keep the contract of a function.\<close>

theorem finish_returns:
  assumes "parsed sys c" "count_object w_parse (st_root (parser_state c)) = 0"
  shows "\<exists>r. finish sys order c = Some r"
proof -
  note c = parsed_invariant [OF assms(1)]
  then obtain r where "phase2_everything sys (parser_functions c) order (st_root (parser_state c)) = Some r"
    using function_table.phase2_everything_returns [OF _ _ assms(2), of "parser_functions c" sys order] by auto
  then show ?thesis by (simp add: finish_def)
qed

theorem finish_returns_witness:
  "\<exists>r. finish text_example [Asterisks, References, Functions, Additions] (parsed_example ''a={*=[(b)] k=(string null)}'') = Some r"
proof (rule finish_returns [OF parsed_exampleI])
  show "is_ok (parse_string text_example ''a={*=[(b)] k=(string null)}'' '''' (config_parser_init text_example))"
    by code_simp
  show "count_object w_parse (root_example ''a={*=[(b)] k=(string null)}'') = 0" by code_simp
qed

text \<open>C9: a call of \<open>parse\<close> whose argument can not become ready keeps phase two running for ever,
  in every order of the passes: the pass over functions counts a change although it has left the
  call alone.\<close>

theorem unready_parse_diverges:
  assumes "Functions \<in> set order" "b \<noteq> k"
  shows "phase2_everything sys (config_functions sys) order
    (Object [(k, Concat h [ARRAY (Array ''parse'' [Concat g [REFERENCE [R2_name b p], STRING t q]] r)])] s) = None"
    (is "phase2_everything sys ?fm order ?x = None")
  unfolding phase2_everything_def
proof (rule while_changed_diverges [where I = "\<lambda>x. x = ?x"])
  have pass: "run_pass sys ?fm p ?x = Inr (?x, if p = Functions then 1 else 0)" for p
  proof (cases p)
    case Functions
    then show ?thesis
      by (simp add: run_pass_def phase2_functions_def process_function_def process_parse_function_def
          parse_function_def function_traits_string_def function_traits_entry_def catch_unready_def
          on_value_chg_def)
  next
    case References
    with assms(2) show ?thesis
      by (simp add: run_pass_def phase2_references_def references_simps replace_reference_def
          reference_simps key_append_part_def pop_back_def phase2_access_object_def access_scopes.simps
          access_scope_def key_append_def get_name_def pop_front_def access_simps)
  next
    case Additions
    then show ?thesis by (simp add: run_pass_def phase2_additions_def on_value_chg_def add_pair_def add_same_def
          throw_type_error_if_def ignore_entry_def)
  next
    case Asterisks
    then show ?thesis by (simp add: run_pass_def phase2_asterisks_def on_value_chg_def asterisks_simps get_asterisk_def)
  qed
  have "run_passes sys ?fm ps ?x = Inr (?x, if Functions \<in> set ps then 1 else 0)" for ps
    by (induction ps) (auto simp: pass)
  with assms(1) show "\<exists>t. phase2_iteration sys ?fm order x = Inr (t, True) \<and> t = ?x" if "x = ?x" for x
    using that by (simp add: phase2_iteration_def)
qed simp


theorem unready_parse_diverges_witness:
  "from_string text_example [Functions, Additions, References, Asterisks] ''a=(parse (b)+\"x\")'' '''' = None"
proof -
  let ?s = "''a=(parse (b)+\"x\")''"
  let ?r = "parse_string text_example ?s '''' (config_parser_init text_example)"
  have ok: "is_ok ?r" by code_simp
  have x: "root_example ?s = Object [(''a'', Concat (head (snd (hd (object_map (root_example ?s)))))
      [ARRAY (Array ''parse'' [Concat (head (concat_init no_position))
        [REFERENCE [R2_name ''b'' no_position], STRING ''x'' no_position]] no_position)])]
      (object_position (root_example ?s))"
    by code_simp
  have "phase2_everything text_example (config_functions text_example)
      [Functions, Additions, References, Asterisks] (root_example ?s) = None"
    by (subst x, rule unready_parse_diverges) simp_all
  then show ?thesis
    using parse_string_functions [OF is_ok_projr [OF ok]]
    by (simp add: from_string_example [OF ok] finish_def config_parser_init_def)
qed

text \<open>C3: when the program returns an error, it is an error of phase two, or the error of phase
  three for what is still unresolved: phase five never fails behind them, neither with an
  assertion nor in an unreachable branch.\<close>

theorem finish_errors:
  assumes "parsed sys c" "Additions \<in> set order" "finish sys order c = Some (Inl e)"
  shows "\<exists>r. phase2_everything sys (parser_functions c) order (st_root (parser_state c)) = Some r \<and>
    rbind r phase3_remove_object = Inl e"
proof -
  note c = parsed_invariant [OF assms(1)]
  from assms(3) show ?thesis
  proof (cases rule: finish_cases)
    case (later x)
    show ?thesis
    proof (cases "phase3_remove_object x")
      case (Inr z)
      then obtain v where "phase5_repack z = Inr v"
        using function_table.phase3_then_phase5 [OF _ later(2) _ assms(2)] c by blast
      with later(1) Inr show ?thesis by simp
    qed (use later c in auto)
  qed (use c in auto)
qed

theorem finish_errors_witness:
  "\<exists>x e. phase2_everything text_example (config_functions text_example)
      [Functions, Additions, References, Asterisks] (root_example ''b=(a)'') = Some (Inr x) \<and>
     phase3_remove_object x = Inl e"
proof -
  let ?order = "[Functions, Additions, References, Asterisks]"
  have ok: "is_ok (parse_string text_example ''b=(a)'' '''' (config_parser_init text_example))"
    by code_simp
  then have c: "parsed text_example (parsed_example ''b=(a)'')" by (rule parsed_exampleI)
  have fs: "parser_functions (parsed_example ''b=(a)'') = config_functions text_example"
    using parse_string_functions [OF is_ok_projr [OF ok]] by (simp add: config_parser_init_def)
  have "map_option is_ok (finish text_example ?order (parsed_example ''b=(a)'')) = Some False"
    by code_simp
  then obtain e where e: "finish text_example ?order (parsed_example ''b=(a)'') = Some (Inl e)"
    by (auto simp: is_ok_iff) (metis sum.exhaust)
  have "map_option is_ok (phase2_everything text_example (config_functions text_example) ?order
      (root_example ''b=(a)'')) = Some True"
    by code_simp
  with finish_errors [OF c _ e] show ?thesis by (auto simp: is_ok_iff fs)
qed

text \<open>C4: the value that the program returns: the maps in it are sorted, and every value is
  annotated with the key under which \<open>access\<close> finds it.\<close>

theorem finished_value:
  assumes "parsed sys c" "finish sys order c = Some (Inr v)"
  shows "wf_value v \<and> (\<forall>k w. \<not> (access v k = Inr w \<and> ann_key (public_base w) \<noteq> k))"
proof -
  note c = parsed_invariant [OF assms(1)]
  from assms(2) obtain x y where x:
    "phase2_everything sys (parser_functions c) order (st_root (parser_state c)) = Some (Inr x)"
    "phase3_remove_object x = Inr y" "phase5_repack y = Inr v"
  proof (cases rule: finish_cases)
    case (later x)
    from later(1) [symmetric] obtain y where "phase3_remove_object x = Inr y" "phase5_repack y = Inr v"
      by (auto simp: res_simps)
    with later(2) c that show thesis by simp
  qed simp
  then have "wf_object y"
    using function_table.phase2_everything_fixpoint [OF _ x(1)] c prune_wf(3) [of x]
    by (simp add: phase3_remove_object_iff)
  with x(3) show ?thesis
    using phase5_repack_wf(3) [of y "[]" v] access_key_annotation(3) [of "[]" y v]
    by (auto simp: phase5_repack_def)
qed

abbreviation text_with_reference :: string where
  "text_with_reference \<equiv> ''b=null a={c=(b)}''"

theorem finished_value_witness:
  "\<exists>v. from_string text_example [Functions, Additions, References, Asterisks] text_with_reference '''' =
     Some (Inr v) \<and> wf_value v"
proof -
  let ?order = "[Functions, Additions, References, Asterisks]"
  have ok: "is_ok (parse_string text_example text_with_reference '''' (config_parser_init text_example))"
    by code_simp
  have "map_option is_ok (finish text_example ?order (parsed_example text_with_reference)) = Some True"
    by code_simp
  then obtain v where v: "finish text_example ?order (parsed_example text_with_reference) = Some (Inr v)"
    by (auto simp: is_ok_iff)
  from finished_value [OF parsed_exampleI [OF ok] v] v show ?thesis
    by (simp add: from_string_example [OF ok])
qed

text \<open>C7: what phase two hands over is a fixpoint of all the passes that it runs, in whatever order,
  with sorted maps; no member of the root contains an asterisk, and two neighbours in a concat
  are only left where one of them is a reference or a function call.\<close>

theorem phase2_settles:
  assumes "parsed sys c" "phase2_everything sys (parser_functions c) order (st_root (parser_state c)) = Some (Inr y)"
    and "{Additions, Asterisks} \<subseteq> set order"
  shows "wf_object y \<and> phase2_everything sys (parser_functions c) order y = Some (Inr y) \<and>
    all_object settled_node y \<and>
    \<not> (\<exists>k d e. (k, d) \<in> set (object_map y) \<and> e \<in> set (concat_list d) \<and> kind e = KIND_ASTERISK)"
proof -
  note c = parsed_invariant [OF assms(1)]
  then have y: "wf_object y \<and> (\<forall>p \<in> set order. run_pass sys (parser_functions c) p y = Inr (y, 0))"
    using function_table.phase2_everything_fixpoint [OF _ assms(2)] by blast
  then have "phase2_additions (double_sum sys) y = Inr (y, 0)" "phase2_asterisks y = Inr (y, 0)"
    using assms(3) by (auto simp: run_pass_def)
  moreover from y have "run_passes sys (parser_functions c) ps y = Inr (y, 0)" if "set ps \<subseteq> set order" for ps
    using that by (induction ps) auto
  then have "phase2_iteration sys (parser_functions c) order y = Inr (y, False)"
    by (simp add: phase2_iteration_def)
  ultimately show ?thesis
    using y additions_zero(3) phase2_asterisks_members [of y y 0] asterisks_concat_gone
    by (auto simp: phase2_everything_def while_changed.simps [of _ y] phase2_additions_def) blast
qed

theorem phase2_settles_witness:
  "\<exists>y. phase2_everything text_example (config_functions text_example)
      [Functions, Additions, References, Asterisks] (root_example text_with_reference) = Some (Inr y) \<and>
     wf_object y \<and> all_object settled_node y"
proof -
  have ok: "is_ok (parse_string text_example text_with_reference '''' (config_parser_init text_example))"
    by code_simp
  have fs: "parser_functions (parsed_example text_with_reference) = config_functions text_example"
    using parse_string_functions [OF is_ok_projr [OF ok]] by (simp add: config_parser_init_def)
  have "map_option is_ok (phase2_everything text_example (config_functions text_example)
      [Functions, Additions, References, Asterisks] (root_example text_with_reference)) = Some True"
    by code_simp
  then obtain y where y: "phase2_everything text_example (config_functions text_example)
      [Functions, Additions, References, Asterisks] (root_example text_with_reference) = Some (Inr y)"
    by (auto simp: is_ok_iff)
  from phase2_settles [OF parsed_exampleI [OF ok] y [folded fs]] y show ?thesis by simp
qed

text \<open>C8: a config without references, asterisks, function calls and sums: in every order of the
  passes the program returns, and gives what the reference definition of phase three leaves of
  the root, converted by phase five, which succeeds.\<close>

theorem plain_config:
  assumes "all_object final_node (st_root (parser_state c))"
  shows "finish sys order c = Some (phase5_repack (prune_object (st_root (parser_state c)))) \<and>
    is_ok (phase5_repack (prune_object (st_root (parser_state c))))"
  by (rule finish_final [OF assms])

theorem plain_config_witness:
  "is_ok (phase5_repack (prune_object (root_example ''a=null b=[0] b=delete c={d=0}'')))"
proof -
  have "all_object final_node (root_example ''a=null b=[0] b=delete c={d=0}'')" by code_simp
  then show ?thesis using plain_config by blast
qed


end
